theory Spec2Isabelle
  imports Main "HOL-Library.AList" "HOL-Library.Extended_Nat"
begin

section \<open>Machine integers\<close>

text \<open>
  \<open>size_t\<close> is a 64-bit unsigned integer.  It is modelled by a natural number below
  \<open>2 ^ 64\<close>; increment, decrement and subtraction wrap around as in C++.
  \<open>frame_id_t\<close> and \<open>page_id_t\<close> are signed 32-bit integers, modelled by \<open>int\<close>.
\<close>

definition SIZE_MAX :: nat where
  "SIZE_MAX = 2 ^ 64 - 1"

definition size_inc :: "nat \<Rightarrow> nat" where
  "size_inc x = (x + 1) mod 2 ^ 64"

definition size_dec :: "nat \<Rightarrow> nat" where
  "size_dec x = (x + (2 ^ 64 - 1)) mod 2 ^ 64"

definition size_sub :: "nat \<Rightarrow> nat \<Rightarrow> nat" where
  "size_sub a b = (a + (2 ^ 64 - b mod 2 ^ 64)) mod 2 ^ 64"

text \<open>\<open>static_cast<size_t>(x)\<close> for a signed \<open>x\<close>: negative values wrap to the top.\<close>

definition size_cast :: "int \<Rightarrow> nat" where
  "size_cast x = nat (x mod 2 ^ 64)"

type_synonym frame_id_t = int
type_synonym page_id_t = int

section \<open>LRU-K replacer (src/buffer/lru\_k\_replacer.cpp)\<close>

text \<open>
  A frame record: the retained access timestamps, oldest first (\<open>history_\<close>, a
  \<open>std::list<size_t>\<close>), and the evictable flag.
\<close>

record FrameInfo =
  history :: "nat list"
  is_evictable :: bool

text \<open>
  The replacer.  \<open>frame_table\<close> is the hash map from frame ids to records; the order of
  the association list stands for the order in which the container is iterated, which
  C++ leaves unspecified.  The keys of the list are kept distinct.
\<close>

record LRUKReplacer =
  frame_table :: "(frame_id_t \<times> FrameInfo) list"
  current_timestamp :: nat
  curr_size :: nat
  replacer_size :: nat
  lru_k :: nat

datatype replacer_error = FrontOfEmptyHistory

definition new_FrameInfo :: FrameInfo where
  "new_FrameInfo = \<lparr>history = [], is_evictable = False\<rparr>"

definition new_LRUKReplacer :: "nat \<Rightarrow> nat \<Rightarrow> LRUKReplacer" where
  "new_LRUKReplacer num_frames kk =
     \<lparr>frame_table = [], current_timestamp = 0, curr_size = 0,
      replacer_size = num_frames, lru_k = kk\<rparr>"

text \<open>
  The loop of \<open>Evict\<close> over the frame table.  The accumulator is
  \<open>(candidate, max_k_distance, earliest_timestamp)\<close>.  \<open>history_.front()\<close> on an empty
  list has no defined behaviour in C++; the model returns an error there.
\<close>

fun evict_scan :: "nat \<Rightarrow> nat \<Rightarrow> (frame_id_t \<times> FrameInfo) list \<Rightarrow>
    frame_id_t \<times> nat \<times> nat \<Rightarrow> replacer_error + frame_id_t \<times> nat \<times> nat" where
  "evict_scan kk now [] acc = Inr acc"
| "evict_scan kk now ((fid, info) # rest) (candidate, max_k_distance, earliest_timestamp) =
     (if \<not> is_evictable info
      then evict_scan kk now rest (candidate, max_k_distance, earliest_timestamp)
      else (case history info of
          [] \<Rightarrow> Inl FrontOfEmptyHistory
        | front # _ \<Rightarrow>
            let k_distance = (if length (history info) < kk then SIZE_MAX
                              else size_sub now front);
                frame_earliest = front
            in if k_distance > max_k_distance \<or>
                  (k_distance = max_k_distance \<and> frame_earliest < earliest_timestamp)
               then evict_scan kk now rest (fid, k_distance, frame_earliest)
               else evict_scan kk now rest (candidate, max_k_distance, earliest_timestamp)))"

definition LRUKReplacer_Evict :: "LRUKReplacer \<Rightarrow> replacer_error + frame_id_t option \<times> LRUKReplacer" where
  "LRUKReplacer_Evict r =
     (if curr_size r = 0 then Inr (None, r)
      else (case evict_scan (lru_k r) (current_timestamp r) (frame_table r) (- 1, 0, SIZE_MAX) of
          Inl e \<Rightarrow> Inl e
        | Inr (candidate, _, _) \<Rightarrow>
            if candidate = - 1 then Inr (None, r)
            else Inr (Some candidate,
                      r\<lparr>frame_table := AList.delete candidate (frame_table r),
                        curr_size := size_dec (curr_size r)\<rparr>)))"

definition LRUKReplacer_RecordAccess :: "LRUKReplacer \<Rightarrow> frame_id_t \<Rightarrow> LRUKReplacer" where
  "LRUKReplacer_RecordAccess r frame_id =
     (if size_cast frame_id > replacer_size r then r
      else
        let now = size_inc (current_timestamp r);
            info = (case map_of (frame_table r) frame_id of
                      None \<Rightarrow> new_FrameInfo | Some i \<Rightarrow> i);
            pushed = history info @ [now];
            kept = (if length pushed > lru_k r then tl pushed else pushed)
        in r\<lparr>current_timestamp := now,
             frame_table := AList.update frame_id (info\<lparr>history := kept\<rparr>) (frame_table r)\<rparr>)"

definition LRUKReplacer_SetEvictable :: "LRUKReplacer \<Rightarrow> frame_id_t \<Rightarrow> bool \<Rightarrow> LRUKReplacer" where
  "LRUKReplacer_SetEvictable r frame_id set_evictable =
     (case map_of (frame_table r) frame_id of
        None \<Rightarrow> r
      | Some info \<Rightarrow>
          r\<lparr>curr_size :=
               (if is_evictable info \<and> \<not> set_evictable then size_dec (curr_size r)
                else if \<not> is_evictable info \<and> set_evictable then size_inc (curr_size r)
                else curr_size r),
            frame_table :=
               AList.update frame_id (info\<lparr>is_evictable := set_evictable\<rparr>) (frame_table r)\<rparr>)"

definition LRUKReplacer_Remove :: "LRUKReplacer \<Rightarrow> frame_id_t \<Rightarrow> LRUKReplacer" where
  "LRUKReplacer_Remove r frame_id =
     (case map_of (frame_table r) frame_id of
        None \<Rightarrow> r
      | Some info \<Rightarrow>
          if \<not> is_evictable info then r
          else r\<lparr>frame_table := AList.delete frame_id (frame_table r),
                 curr_size := size_dec (curr_size r)\<rparr>)"

definition LRUKReplacer_Size :: "LRUKReplacer \<Rightarrow> nat" where
  "LRUKReplacer_Size r = curr_size r"

subsection \<open>The eviction rule in the words of the specification\<close>

text \<open>
  K-distance: infinite when fewer than K accesses are recorded, else the current time
  minus the oldest retained timestamp.
\<close>

definition k_distance :: "LRUKReplacer \<Rightarrow> FrameInfo \<Rightarrow> enat" where
  "k_distance r info =
     (if length (history info) < lru_k r then \<infinity>
      else enat (current_timestamp r - hd (history info)))"

definition evictable_frames :: "LRUKReplacer \<Rightarrow> (frame_id_t \<times> FrameInfo) list" where
  "evictable_frames r = filter (\<lambda>(fid, info). is_evictable info) (frame_table r)"

text \<open>
  The invariant of the replacer's states: distinct frame ids, each one accepted by the
  bound check of \<open>RecordAccess\<close> (so none is the sentinel \<open>-1\<close> of \<open>Evict\<close>);
  \<open>curr_size\<close> counts the evictable records; every record keeps at least one timestamp
  and none from the future; the clock has not reached the value that stands for
  infinity; the number of frames fits the signed 32-bit frame ids; K is positive.
\<close>

definition replacer_inv :: "LRUKReplacer \<Rightarrow> bool" where
  "replacer_inv r \<longleftrightarrow>
     distinct (map fst (frame_table r)) \<and>
     list_all (\<lambda>(fid, info). 0 \<le> fid \<and> nat fid \<le> replacer_size r \<and> history info \<noteq> [] \<and>
                 list_all (\<lambda>t. t \<le> current_timestamp r) (history info)) (frame_table r) \<and>
     curr_size r = length (evictable_frames r) \<and>
     current_timestamp r < SIZE_MAX \<and>
     replacer_size r < 2 ^ 31 \<and>
     1 \<le> lru_k r"


subsection \<open>Wrap-around arithmetic without overflow\<close>

lemma size_sub_plain: "b \<le> a \<Longrightarrow> a < 2 ^ 64 \<Longrightarrow> size_sub a b = a - b"
proof -
  assume ba: "b \<le> a" and a: "a < 2 ^ 64"
  then have b: "b mod 2 ^ 64 = b" by simp
  have "a + (2 ^ 64 - b) = (a - b) + 2 ^ 64" using ba a by simp
  then have "(a + (2 ^ 64 - b)) mod 2 ^ 64 = (a - b) mod 2 ^ 64" by (simp only: mod_add_self2)
  also have "\<dots> = a - b" using a by simp
  finally show ?thesis unfolding size_sub_def b .
qed

lemma size_inc_plain: "x + 1 < 2 ^ 64 \<Longrightarrow> size_inc x = x + 1"
  by (simp add: size_inc_def)

lemma size_dec_plain: "0 < x \<Longrightarrow> x < 2 ^ 64 \<Longrightarrow> size_dec x = x - 1"
proof -
  assume x: "0 < x" "x < 2 ^ 64"
  then have "x + (2 ^ 64 - 1) = (x - 1) + 2 ^ 64" by simp
  then have "(x + (2 ^ 64 - 1)) mod 2 ^ 64 = (x - 1) mod 2 ^ 64"
    by (simp only: mod_add_self2)
  also have "\<dots> = x - 1" using x by simp
  finally show ?thesis by (simp add: size_dec_def)
qed

lemma size_cast_accept:
  assumes "\<not> size_cast f > n" "n < 2 ^ 31" "- (2 ^ 31) \<le> f" "f < 2 ^ 31"
  shows "0 \<le> f \<and> nat f \<le> n"
proof (cases "0 \<le> f")
  case True
  then have "f mod 2 ^ 64 = f" using assms(4) by simp
  with assms(1) True show ?thesis by (simp add: size_cast_def)
next
  case False
  then have "f mod 2 ^ 64 = f + 2 ^ 64" using assms(3)
  proof -
    have "0 \<le> f + 2 ^ 64" "f + 2 ^ 64 < 2 ^ 64" using assms(3) False by simp_all
    then have "(f + 2 ^ 64) mod 2 ^ 64 = f + 2 ^ 64" by (rule mod_pos_pos_trivial)
    moreover have "(f + 2 ^ 64) mod 2 ^ 64 = f mod 2 ^ 64" by (rule mod_add_self2)
    ultimately show ?thesis by (simp only:)
  qed
  then have "size_cast f = nat (f + 2 ^ 64)" by (simp add: size_cast_def)
  moreover have "nat (f + 2 ^ 64) \<ge> 2 ^ 64 - 2 ^ 31" using assms(3) by simp
  ultimately show ?thesis using assms(1,2) by simp
qed


subsection \<open>The scan of \<open>Evict\<close> computes a lexicographic maximum\<close>

definition code_distance :: "nat \<Rightarrow> nat \<Rightarrow> FrameInfo \<Rightarrow> nat" where
  "code_distance kk now info =
     (if length (history info) < kk then SIZE_MAX else now - hd (history info))"

definition beats :: "nat \<times> nat \<Rightarrow> nat \<times> nat \<Rightarrow> bool" where
  "beats a b \<longleftrightarrow> fst a > fst b \<or> (fst a = fst b \<and> snd a < snd b)"

definition frame_ok :: "nat \<Rightarrow> FrameInfo \<Rightarrow> bool" where
  "frame_ok now info \<longleftrightarrow> history info \<noteq> [] \<and> list_all (\<lambda>t. t \<le> now) (history info)"

lemma beats_trans: "beats a b \<Longrightarrow> \<not> beats c b \<Longrightarrow> \<not> beats c a"
  by (auto simp: beats_def)

lemma not_beats_trans: "\<not> beats b a \<Longrightarrow> \<not> beats c b \<Longrightarrow> \<not> beats c a"
  by (auto simp: beats_def)

lemma evict_scan_max:
  assumes "list_all (\<lambda>(fid, info). frame_ok now info) xs" and "now < SIZE_MAX"
  shows "\<exists>c' m' e'. evict_scan kk now xs (c, m, e) = Inr (c', m', e') \<and>
           \<not> beats (m, e) (m', e') \<and>
           (\<forall>(g, gi) \<in> set xs. is_evictable gi \<longrightarrow>
               \<not> beats (code_distance kk now gi, hd (history gi)) (m', e')) \<and>
           ((c', m', e') = (c, m, e) \<or>
            (\<exists>info. (c', info) \<in> set xs \<and> is_evictable info \<and>
                m' = code_distance kk now info \<and> e' = hd (history info)))"
  using assms(1)
proof (induction xs arbitrary: c m e)
  case Nil
  then show ?case by (simp add: beats_def)
next
  case (Cons x xs)
  obtain fid info where x: "x = (fid, info)" by (cases x)
  from Cons.prems x have ok: "frame_ok now info" and rest: "list_all (\<lambda>(fid, info). frame_ok now info) xs"
    by simp_all
  show ?case
  proof (cases "is_evictable info")
    case False
    from False x have "evict_scan kk now (x # xs) (c, m, e) = evict_scan kk now xs (c, m, e)" by simp
    with Cons.IH[OF rest, of c m e] False x show ?thesis by (simp; blast)
  next
    case True
    from ok obtain front tl where h: "history info = front # tl" and fr: "front \<le> now"
      by (cases "history info") (auto simp: frame_ok_def)
    have sub: "size_sub now front = now - front"
      using fr assms(2) by (intro size_sub_plain) (simp_all add: SIZE_MAX_def)
    let ?d = "code_distance kk now info"
    have d: "(if length (history info) < kk then SIZE_MAX else size_sub now front) = ?d"
      by (simp add: code_distance_def h sub)
    show ?thesis
    proof (cases "beats (?d, front) (m, e)")
      case b: True
      then have step: "evict_scan kk now (x # xs) (c, m, e) = evict_scan kk now xs (fid, ?d, front)"
        using True h d x by (simp add: beats_def Let_def)
      from Cons.IH[OF rest, of fid ?d front] obtain c' m' e' where
        r: "evict_scan kk now xs (fid, ?d, front) = Inr (c', m', e')"
        and mono: "\<not> beats (?d, front) (m', e')"
        and mx: "\<forall>(g, gi) \<in> set xs. is_evictable gi \<longrightarrow>
               \<not> beats (code_distance kk now gi, hd (history gi)) (m', e')"
        and src: "(c', m', e') = (fid, ?d, front) \<or>
            (\<exists>info. (c', info) \<in> set xs \<and> is_evictable info \<and>
                m' = code_distance kk now info \<and> e' = hd (history info))"
        by blast
      have "\<not> beats (m, e) (m', e')" using b mono by (auto simp: beats_def)
      moreover have "hd (history info) = front" using h by simp
      ultimately have "evict_scan kk now (x # xs) (c, m, e) = Inr (c', m', e') \<and>
           \<not> beats (m, e) (m', e') \<and>
           (\<forall>(g, gi) \<in> set (x # xs). is_evictable gi \<longrightarrow>
               \<not> beats (code_distance kk now gi, hd (history gi)) (m', e')) \<and>
           ((c', m', e') = (c, m, e) \<or>
            (\<exists>info. (c', info) \<in> set (x # xs) \<and> is_evictable info \<and>
                m' = code_distance kk now info \<and> e' = hd (history info)))"
        using step r mono mx src True x by (simp; blast)
      then show ?thesis by blast
    next
      case nb: False
      then have step: "evict_scan kk now (x # xs) (c, m, e) = evict_scan kk now xs (c, m, e)"
        using True h d x by (auto simp add: beats_def Let_def)
      from Cons.IH[OF rest, of c m e] obtain c' m' e' where
        r: "evict_scan kk now xs (c, m, e) = Inr (c', m', e')"
        and mono: "\<not> beats (m, e) (m', e')"
        and mx: "\<forall>(g, gi) \<in> set xs. is_evictable gi \<longrightarrow>
               \<not> beats (code_distance kk now gi, hd (history gi)) (m', e')"
        and src: "(c', m', e') = (c, m, e) \<or>
            (\<exists>info. (c', info) \<in> set xs \<and> is_evictable info \<and>
                m' = code_distance kk now info \<and> e' = hd (history info))"
        by blast
      have "\<not> beats (?d, front) (m', e')" using nb mono by (rule not_beats_trans[rotated])
      moreover have "hd (history info) = front" using h by simp
      ultimately have "evict_scan kk now (x # xs) (c, m, e) = Inr (c', m', e') \<and>
           \<not> beats (m, e) (m', e') \<and>
           (\<forall>(g, gi) \<in> set (x # xs). is_evictable gi \<longrightarrow>
               \<not> beats (code_distance kk now gi, hd (history gi)) (m', e')) \<and>
           ((c', m', e') = (c, m, e) \<or>
            (\<exists>info. (c', info) \<in> set (x # xs) \<and> is_evictable info \<and>
                m' = code_distance kk now info \<and> e' = hd (history info)))"
        using step r mono mx src x by (simp; blast)
      then show ?thesis by blast
    qed
  qed
qed


lemma inv_frames_ok:
  "replacer_inv r \<Longrightarrow> list_all (\<lambda>(fid, info). frame_ok (current_timestamp r) info) (frame_table r)"
  unfolding replacer_inv_def frame_ok_def
  by (auto simp: list_all_iff)

lemma code_distance_le_iff:
  assumes "frame_ok (current_timestamp r) a" "frame_ok (current_timestamp r) b"
    and "current_timestamp r < SIZE_MAX"
  shows "code_distance (lru_k r) (current_timestamp r) a < code_distance (lru_k r) (current_timestamp r) b
           \<longleftrightarrow> k_distance r a < k_distance r b"
    and "code_distance (lru_k r) (current_timestamp r) a = code_distance (lru_k r) (current_timestamp r) b
           \<longleftrightarrow> k_distance r a = k_distance r b"
  using assms by (auto simp: code_distance_def k_distance_def)

lemma evictable_frames_set:
  "set (evictable_frames r) = {(f, i). (f, i) \<in> set (frame_table r) \<and> is_evictable i}"
  by (auto simp: evictable_frames_def)

lemma Evict_result:
  assumes "replacer_inv r"
  shows "(evictable_frames r = [] \<longrightarrow> LRUKReplacer_Evict r = Inr (None, r)) \<and>
         (evictable_frames r \<noteq> [] \<longrightarrow>
            (\<exists>f info.
               LRUKReplacer_Evict r =
                 Inr (Some f, r\<lparr>frame_table := AList.delete f (frame_table r),
                                 curr_size := curr_size r - 1\<rparr>) \<and>
               (f, info) \<in> set (evictable_frames r) \<and>
               map_of (AList.delete f (frame_table r)) f = None \<and>
               (\<forall>(g, gi) \<in> set (evictable_frames r).
                  k_distance r gi < k_distance r info \<or>
                  (k_distance r gi = k_distance r info \<and>
                   hd (history info) \<le> hd (history gi)))))"
proof (intro conjI impI)
  assume "evictable_frames r = []"
  with assms have "curr_size r = 0" by (simp add: replacer_inv_def)
  then show "LRUKReplacer_Evict r = Inr (None, r)" by (simp add: LRUKReplacer_Evict_def)
next
  assume ne: "evictable_frames r \<noteq> []"
  let ?now = "current_timestamp r" and ?k = "lru_k r"
  from assms have now: "?now < SIZE_MAX" and cs: "curr_size r = length (evictable_frames r)"
    by (simp_all add: replacer_inv_def)
  from ne cs have pos: "0 < curr_size r" "curr_size r < 2 ^ 64 \<or> True" by simp_all
  have oks: "list_all (\<lambda>(fid, info). frame_ok ?now info) (frame_table r)"
    by (rule inv_frames_ok[OF assms])
  from evict_scan_max[OF oks now, of ?k "- 1" 0 SIZE_MAX] obtain c' m' e' where
    r: "evict_scan ?k ?now (frame_table r) (- 1, 0, SIZE_MAX) = Inr (c', m', e')"
    and mx: "\<forall>(g, gi) \<in> set (frame_table r). is_evictable gi \<longrightarrow>
               \<not> beats (code_distance ?k ?now gi, hd (history gi)) (m', e')"
    and src: "(c', m', e') = (- 1, 0, SIZE_MAX) \<or>
            (\<exists>info. (c', info) \<in> set (frame_table r) \<and> is_evictable info \<and>
                m' = code_distance ?k ?now info \<and> e' = hd (history info))"
    by blast
  from ne have "set (evictable_frames r) \<noteq> {}" by simp
  then obtain g gi where g: "(g, gi) \<in> set (frame_table r)" "is_evictable gi"
    unfolding evictable_frames_set by blast
  from oks g have gok: "frame_ok ?now gi" by (auto simp: list_all_iff)
  then have "hd (history gi) \<le> ?now"
    by (cases "history gi") (auto simp: frame_ok_def)
  with now have "beats (code_distance ?k ?now gi, hd (history gi)) (0, SIZE_MAX)"
    by (auto simp: beats_def)
  with mx g have "(c', m', e') \<noteq> (- 1, 0, SIZE_MAX)" by auto
  with src obtain info where info: "(c', info) \<in> set (frame_table r)" "is_evictable info"
    "m' = code_distance ?k ?now info" "e' = hd (history info)" by blast
  from assms info(1) have c'nn: "0 \<le> c'" by (auto simp: replacer_inv_def list_all_iff)
  then have c': "c' \<noteq> - 1" by simp
  have iok: "frame_ok ?now info" using oks info(1) by (auto simp: list_all_iff)
  have len: "length (evictable_frames r) < 2 ^ 64"
  proof -
    have d: "distinct (map fst (frame_table r))" using assms by (simp add: replacer_inv_def)
    have "set (map fst (frame_table r)) \<subseteq> {0 .. int (replacer_size r)}"
      using assms by (auto simp: replacer_inv_def list_all_iff)
    then have "card (set (map fst (frame_table r))) \<le> card {0 .. int (replacer_size r)}"
      by (intro card_mono) simp_all
    with d have "length (frame_table r) \<le> replacer_size r + 1"
      using distinct_card[OF d] by simp
    moreover have "length (evictable_frames r) \<le> length (frame_table r)"
      by (simp add: evictable_frames_def)
    moreover have "replacer_size r < 2 ^ 31" using assms by (simp add: replacer_inv_def)
    ultimately show ?thesis by (simp add: SIZE_MAX_def)
  qed
  have dec: "size_dec (curr_size r) = curr_size r - 1"
  proof -
    from pos cs len have "curr_size r + (2 ^ 64 - 1) = (curr_size r - 1) + 2 ^ 64" by simp
    then have "(curr_size r + (2 ^ 64 - 1)) mod 2 ^ 64 = (curr_size r - 1) mod 2 ^ 64"
      by (simp only: mod_add_self2)
    also have "\<dots> = curr_size r - 1" using cs len by simp
    finally show ?thesis by (simp add: size_dec_def)
  qed
  have ev: "LRUKReplacer_Evict r =
     Inr (Some c', r\<lparr>frame_table := AList.delete c' (frame_table r),
                      curr_size := curr_size r - 1\<rparr>)"
    using pos r c' dec by (simp add: LRUKReplacer_Evict_def)
  have best: "\<forall>(g, gi) \<in> set (evictable_frames r).
                  k_distance r gi < k_distance r info \<or>
                  (k_distance r gi = k_distance r info \<and>
                   hd (history info) \<le> hd (history gi))"
  proof (clarify)
    fix h hi assume "(h, hi) \<in> set (evictable_frames r)"
      and nlt: "\<not> (k_distance r hi = k_distance r info \<and> hd (history info) \<le> hd (history hi))"
    then have h: "(h, hi) \<in> set (frame_table r)" "is_evictable hi"
      by (simp_all add: evictable_frames_set)
    have hok: "frame_ok ?now hi" using oks h(1) by (auto simp: list_all_iff)
    from mx h info have nb: "\<not> beats (code_distance ?k ?now hi, hd (history hi))
        (code_distance ?k ?now info, hd (history info))" by auto
    then have "code_distance ?k ?now hi < code_distance ?k ?now info \<or>
       (code_distance ?k ?now hi = code_distance ?k ?now info \<and> hd (history info) \<le> hd (history hi))"
      by (auto simp: beats_def)
    then have "k_distance r hi < k_distance r info \<or>
       (k_distance r hi = k_distance r info \<and> hd (history info) \<le> hd (history hi))"
      unfolding code_distance_le_iff[OF hok iok now] .
    with nlt show "k_distance r hi < k_distance r info" by blast
  qed
  have "map_of (AList.delete c' (frame_table r)) c' = None"
    by (simp add: delete_conv)
  with ev info best show "\<exists>f info.
               LRUKReplacer_Evict r =
                 Inr (Some f, r\<lparr>frame_table := AList.delete f (frame_table r),
                                 curr_size := curr_size r - 1\<rparr>) \<and>
               (f, info) \<in> set (evictable_frames r) \<and>
               map_of (AList.delete f (frame_table r)) f = None \<and>
               (\<forall>(g, gi) \<in> set (evictable_frames r).
                  k_distance r gi < k_distance r info \<or>
                  (k_distance r gi = k_distance r info \<and>
                   hd (history info) \<le> hd (history gi)))"
    by (intro exI[of _ c'] exI[of _ info]) (simp add: evictable_frames_set)
qed

text \<open>
  Claim C3.  In every replacer state that satisfies the invariant, \<open>Evict\<close> returns no
  frame exactly when no evictable frame exists.  Otherwise it returns an evictable frame
  and drops its record; that frame's K-distance (infinite with fewer than K recorded
  accesses, else the current time minus the oldest retained timestamp) is maximal among
  the evictable frames, and among the frames of that same K-distance its oldest retained
  timestamp is the smallest.  This holds for every iteration order of the frame table.
\<close>

theorem Evict_picks_largest_k_distance:
  assumes "replacer_inv r"
  shows "(evictable_frames r = [] \<longrightarrow> LRUKReplacer_Evict r = Inr (None, r)) \<and>
         (evictable_frames r \<noteq> [] \<longrightarrow>
            (\<exists>f info.
               LRUKReplacer_Evict r =
                 Inr (Some f, r\<lparr>frame_table := AList.delete f (frame_table r),
                                 curr_size := curr_size r - 1\<rparr>) \<and>
               (f, info) \<in> set (evictable_frames r) \<and>
               map_of (AList.delete f (frame_table r)) f = None \<and>
               (\<forall>(g, gi) \<in> set (evictable_frames r).
                  k_distance r gi < k_distance r info \<or>
                  (k_distance r gi = k_distance r info \<and>
                   hd (history info) \<le> hd (history gi)))))"
  using Evict_result[OF assms] .

subsection \<open>The invariant holds in every reachable state\<close>

lemma new_replacer_inv:
  "1 \<le> kk \<Longrightarrow> n < 2 ^ 31 \<Longrightarrow> replacer_inv (new_LRUKReplacer n kk)"
  by (simp add: replacer_inv_def new_LRUKReplacer_def evictable_frames_def SIZE_MAX_def)

lemma evictable_count_update:
  assumes "distinct (map fst t)" "map_of t f = Some i"
  shows "length (filter (\<lambda>(fid, info). is_evictable info) (AList.update f j t)) +
           (if is_evictable i then 1 else 0) =
         length (filter (\<lambda>(fid, info). is_evictable info) t) +
           (if is_evictable j then 1 else 0)"
  using assms
proof (induction t)
  case Nil then show ?case by simp
next
  case (Cons p t)
  then show ?case by (cases p) (auto split: if_splits)
qed

lemma evictable_count_update_new:
  assumes "map_of t f = None"
  shows "filter (\<lambda>(fid, info). is_evictable info) (AList.update f j t) =
         filter (\<lambda>(fid, info). is_evictable info) t @ (if is_evictable j then [(f, j)] else [])"
  using assms
proof (induction t)
  case Nil then show ?case by simp
next
  case (Cons p t)
  then show ?case by (cases p) (auto split: if_splits)
qed

lemma evictable_count_delete:
  assumes "distinct (map fst t)" "map_of t f = Some i" "is_evictable i"
  shows "length (filter (\<lambda>(fid, info). is_evictable info) (AList.delete f t)) + 1 =
         length (filter (\<lambda>(fid, info). is_evictable info) t)"
  using assms
proof (induction t)
  case Nil then show ?case by simp
next
  case (Cons p t)
  then show ?case
  proof (cases p)
    case (Pair g gi)
    show ?thesis
    proof (cases "g = f")
      case True
      with Cons.prems Pair have "f \<notin> fst ` set t" "gi = i" by auto
      then have "AList.delete f t = t" by simp
      with True Pair Cons.prems \<open>gi = i\<close> show ?thesis by simp
    next
      case False
      with Cons Pair show ?thesis by auto
    qed
  qed
qed

lemma list_all_update:
  "list_all P t \<Longrightarrow> P (f, j) \<Longrightarrow> list_all P (AList.update f j t)"
  by (induction t) auto

lemma list_all_delete:
  "list_all P t \<Longrightarrow> list_all P (AList.delete f t)"
  by (induction t) auto

lemma table_length_bound:
  assumes "distinct (map fst t)" "list_all (\<lambda>(fid, info). 0 \<le> fid \<and> nat fid \<le> n) t"
  shows "length t \<le> n + 1"
proof -
  have "set (map fst t) \<subseteq> {0 .. int n}"
    using assms(2) by (auto simp: list_all_iff)
  then have "card (set (map fst t)) \<le> card {0 .. int n}"
    by (intro card_mono) simp_all
  then show ?thesis using distinct_card[OF assms(1)] by simp
qed

lemma inv_table_bound:
  assumes "replacer_inv r"
  shows "length (frame_table r) \<le> 2 ^ 31"
proof -
  have "list_all (\<lambda>(fid, info). 0 \<le> fid \<and> nat fid \<le> replacer_size r) (frame_table r)"
    using assms by (auto simp: replacer_inv_def list_all_iff)
  moreover have "distinct (map fst (frame_table r))" using assms by (simp add: replacer_inv_def)
  ultimately have "length (frame_table r) \<le> replacer_size r + 1" by (rule table_length_bound[rotated])
  moreover have "replacer_size r < 2 ^ 31" using assms by (simp add: replacer_inv_def)
  ultimately show ?thesis by simp
qed

lemma map_of_in_set: "map_of t f = Some i \<Longrightarrow> (f, i) \<in> set t"
  by (rule map_of_SomeD)

lemma RecordAccess_inv:
  assumes inv: "replacer_inv r" and clock: "current_timestamp r + 1 < SIZE_MAX"
    and rng: "- (2 ^ 31) \<le> f" "f < 2 ^ 31"
  shows "replacer_inv (LRUKReplacer_RecordAccess r f)"
proof (cases "size_cast f > replacer_size r")
  case True
  then show ?thesis using inv by (simp add: LRUKReplacer_RecordAccess_def)
next
  case False
  let ?now = "current_timestamp r + 1"
  have now: "size_inc (current_timestamp r) = ?now"
    using clock by (intro size_inc_plain) (simp add: SIZE_MAX_def)
  define info where "info = (case map_of (frame_table r) f of None \<Rightarrow> new_FrameInfo | Some i \<Rightarrow> i)"
  define pushed where "pushed = history info @ [?now]"
  define kept where "kept = (if length pushed > lru_k r then tl pushed else pushed)"
  define j where "j = info\<lparr>history := kept\<rparr>"
  have r': "LRUKReplacer_RecordAccess r f =
      r\<lparr>current_timestamp := ?now, frame_table := AList.update f j (frame_table r)\<rparr>"
    using False now
    by (simp add: LRUKReplacer_RecordAccess_def Let_def info_def pushed_def kept_def j_def)
  from inv have d: "distinct (map fst (frame_table r))"
    and all: "list_all (\<lambda>(fid, info). 0 \<le> fid \<and> nat fid \<le> replacer_size r \<and> history info \<noteq> [] \<and>
                 list_all (\<lambda>t. t \<le> current_timestamp r) (history info)) (frame_table r)"
    and cs: "curr_size r = length (evictable_frames r)"
    and sz: "replacer_size r < 2 ^ 31" and k1: "1 \<le> lru_k r"
    by (simp_all add: replacer_inv_def)
  have fr: "0 \<le> f \<and> nat f \<le> replacer_size r"
    using False sz rng by (intro size_cast_accept) simp_all
  have old: "list_all (\<lambda>t. t \<le> current_timestamp r) (history info)"
  proof (cases "map_of (frame_table r) f")
    case None
    then show ?thesis by (simp add: info_def new_FrameInfo_def)
  next
    case (Some i)
    then have "(f, i) \<in> set (frame_table r)" by (rule map_of_SomeD)
    with all Some show ?thesis by (auto simp: info_def list_all_iff)
  qed
  then have pushed_le: "list_all (\<lambda>t. t \<le> ?now) pushed"
    by (auto simp: pushed_def list_all_iff)
  have kept_ne: "kept \<noteq> []"
    using k1 by (cases pushed; cases "tl pushed") (auto simp: kept_def pushed_def)
  have kept_le: "list_all (\<lambda>t. t \<le> ?now) kept"
    using pushed_le by (cases pushed) (auto simp: kept_def)
  have all': "list_all (\<lambda>(fid, info). 0 \<le> fid \<and> nat fid \<le> replacer_size r \<and> history info \<noteq> [] \<and>
                 list_all (\<lambda>t. t \<le> ?now) (history info)) (frame_table r)"
    using all by (fastforce simp: list_all_iff)
  have all'': "list_all (\<lambda>(fid, info). 0 \<le> fid \<and> nat fid \<le> replacer_size r \<and> history info \<noteq> [] \<and>
                 list_all (\<lambda>t. t \<le> ?now) (history info)) (AList.update f j (frame_table r))"
    using all' fr kept_ne kept_le by (intro list_all_update) (simp_all add: j_def)
  have cnt: "length (filter (\<lambda>(fid, info). is_evictable info) (AList.update f j (frame_table r)))
      = length (filter (\<lambda>(fid, info). is_evictable info) (frame_table r))"
  proof (cases "map_of (frame_table r) f")
    case None
    then have "\<not> is_evictable j" by (simp add: j_def info_def new_FrameInfo_def)
    with evictable_count_update_new[OF None, of j] show ?thesis by simp
  next
    case (Some i)
    then have "is_evictable j = is_evictable i" by (simp add: j_def info_def)
    with evictable_count_update[OF d Some, of j] show ?thesis by simp
  qed
  show ?thesis
    unfolding r' replacer_inv_def
    using all'' cnt cs clock sz k1 distinct_update[OF d]
    by (simp add: evictable_frames_def)
qed

lemma SetEvictable_inv:
  assumes inv: "replacer_inv r"
  shows "replacer_inv (LRUKReplacer_SetEvictable r f flag)"
proof (cases "map_of (frame_table r) f")
  case None
  then show ?thesis using inv by (simp add: LRUKReplacer_SetEvictable_def)
next
  case (Some i)
  let ?j = "i\<lparr>is_evictable := flag\<rparr>"
  let ?ev = "\<lambda>t. length (filter (\<lambda>(fid, info). is_evictable info) t)"
  from inv have d: "distinct (map fst (frame_table r))"
    and all: "list_all (\<lambda>(fid, info). 0 \<le> fid \<and> nat fid \<le> replacer_size r \<and> history info \<noteq> [] \<and>
                 list_all (\<lambda>t. t \<le> current_timestamp r) (history info)) (frame_table r)"
    and cs: "curr_size r = ?ev (frame_table r)"
    by (simp_all add: replacer_inv_def evictable_frames_def)
  have mem: "(f, i) \<in> set (frame_table r)" using Some by (rule map_of_SomeD)
  have bound: "?ev (frame_table r) \<le> 2 ^ 31"
    using inv_table_bound[OF inv] length_filter_le[of _ "frame_table r"] by (meson order_trans)
  have cnt: "?ev (AList.update f ?j (frame_table r)) + (if is_evictable i then 1 else 0) =
         ?ev (frame_table r) + (if flag then 1 else 0)"
    using evictable_count_update[OF d Some, of ?j] by simp
  have strict: "\<not> is_evictable i \<Longrightarrow> ?ev (frame_table r) < 2 ^ 31"
  proof -
    assume ne: "\<not> is_evictable i"
    have "?ev (frame_table r) < length (frame_table r)"
      using mem ne by (intro length_filter_less[of "(f, i)"]) simp_all
    with inv_table_bound[OF inv] show ?thesis by simp
  qed
  have pos: "is_evictable i \<Longrightarrow> 0 < ?ev (frame_table r)"
    using mem by (auto simp: filter_empty_conv)
  have new_size: "(if is_evictable i \<and> \<not> flag then size_dec (curr_size r)
                else if \<not> is_evictable i \<and> flag then size_inc (curr_size r)
                else curr_size r) = ?ev (AList.update f ?j (frame_table r))"
  proof (cases "is_evictable i")
    case True
    show ?thesis
    proof (cases flag)
      case t: True
      with True cnt cs show ?thesis by simp
    next
      case False
      have "size_dec (curr_size r) = curr_size r - 1"
        using pos[OF True] bound cs by (intro size_dec_plain) simp_all
      with True False cnt cs show ?thesis by simp
    qed
  next
    case False
    show ?thesis
    proof (cases flag)
      case True
      have "size_inc (curr_size r) = curr_size r + 1"
        using strict[OF False] cs by (intro size_inc_plain) simp
      with True False cnt cs show ?thesis by simp
    next
      case f: False
      with False cnt cs show ?thesis by simp
    qed
  qed
  have all': "list_all (\<lambda>(fid, info). 0 \<le> fid \<and> nat fid \<le> replacer_size r \<and> history info \<noteq> [] \<and>
                 list_all (\<lambda>t. t \<le> current_timestamp r) (history info)) (AList.update f ?j (frame_table r))"
    using all mem by (intro list_all_update) (auto simp: list_all_iff)
  have r': "LRUKReplacer_SetEvictable r f flag =
      r\<lparr>curr_size := ?ev (AList.update f ?j (frame_table r)),
        frame_table := AList.update f ?j (frame_table r)\<rparr>"
    using Some new_size by (simp add: LRUKReplacer_SetEvictable_def)
  show ?thesis
    unfolding r' replacer_inv_def
    using all' inv distinct_update[OF d]
    by (simp add: evictable_frames_def replacer_inv_def)
qed

lemma drop_evictable_inv:
  assumes inv: "replacer_inv r" and "map_of (frame_table r) f = Some i" "is_evictable i"
  shows "replacer_inv (r\<lparr>frame_table := AList.delete f (frame_table r),
                         curr_size := curr_size r - 1\<rparr>)"
proof -
  from inv have d: "distinct (map fst (frame_table r))"
    and all: "list_all (\<lambda>(fid, info). 0 \<le> fid \<and> nat fid \<le> replacer_size r \<and> history info \<noteq> [] \<and>
                 list_all (\<lambda>t. t \<le> current_timestamp r) (history info)) (frame_table r)"
    and cs: "curr_size r = length (filter (\<lambda>(fid, info). is_evictable info) (frame_table r))"
    by (simp_all add: replacer_inv_def evictable_frames_def)
  from evictable_count_delete[OF d assms(2,3)] cs
  have "curr_size r - 1 = length (filter (\<lambda>(fid, info). is_evictable info) (AList.delete f (frame_table r)))"
    by simp
  then show ?thesis
    unfolding replacer_inv_def
    using list_all_delete[OF all, of f] inv distinct_delete[OF d]
    by (simp add: evictable_frames_def replacer_inv_def)
qed

lemma Remove_inv:
  assumes inv: "replacer_inv r"
  shows "replacer_inv (LRUKReplacer_Remove r f)"
proof (cases "map_of (frame_table r) f")
  case None
  then show ?thesis using inv by (simp add: LRUKReplacer_Remove_def)
next
  case (Some i)
  show ?thesis
  proof (cases "is_evictable i")
    case False
    with Some inv show ?thesis by (simp add: LRUKReplacer_Remove_def)
  next
    case True
    from inv have cs: "curr_size r = length (filter (\<lambda>(fid, info). is_evictable info) (frame_table r))"
      by (simp add: replacer_inv_def evictable_frames_def)
    have mem: "(f, i) \<in> set (frame_table r)" using Some by (rule map_of_SomeD)
    have pos: "0 < curr_size r" unfolding cs using mem True by (auto simp: filter_empty_conv)
    have "curr_size r \<le> 2 ^ 31"
      unfolding cs using inv_table_bound[OF inv] length_filter_le[of _ "frame_table r"]
      by (meson order_trans)
    then have "size_dec (curr_size r) = curr_size r - 1"
      using pos by (intro size_dec_plain) simp_all
    then have "LRUKReplacer_Remove r f = r\<lparr>frame_table := AList.delete f (frame_table r),
                         curr_size := curr_size r - 1\<rparr>"
      using Some True by (simp add: LRUKReplacer_Remove_def)
    then show ?thesis using drop_evictable_inv[OF inv Some True] by simp
  qed
qed

lemma Evict_inv:
  assumes inv: "replacer_inv r" and ev: "LRUKReplacer_Evict r = Inr (res, r')"
  shows "replacer_inv r'"
proof (cases "evictable_frames r = []")
  case True
  with Evict_result[OF inv] ev inv show ?thesis by simp
next
  case False
  with Evict_result[OF inv] ev obtain f info where
    r': "r' = r\<lparr>frame_table := AList.delete f (frame_table r), curr_size := curr_size r - 1\<rparr>"
    and mem: "(f, info) \<in> set (evictable_frames r)" by auto
  from mem have m: "(f, info) \<in> set (frame_table r)" "is_evictable info"
    by (simp_all add: evictable_frames_set)
  from inv have "distinct (map fst (frame_table r))" by (simp add: replacer_inv_def)
  with m(1) have "map_of (frame_table r) f = Some info" by simp
  from drop_evictable_inv[OF inv this m(2)] r' show ?thesis by simp
qed

subsection \<open>Concrete replacers\<close>

definition Evict_frame :: "LRUKReplacer \<Rightarrow> replacer_error + frame_id_t option" where
  "Evict_frame r = (case LRUKReplacer_Evict r of Inl e \<Rightarrow> Inl e | Inr (res, r') \<Rightarrow> Inr res)"

definition scenario_A_accessed :: LRUKReplacer where
  "scenario_A_accessed =
     foldl LRUKReplacer_RecordAccess (new_LRUKReplacer 7 2) [1, 2, 3, 4, 5, 6, 1, 2, 3, 4, 5, 6]"

definition scenario_A :: LRUKReplacer where
  "scenario_A =
     foldl (\<lambda>r f. LRUKReplacer_SetEvictable r f True) scenario_A_accessed [0, 1, 2, 3, 4, 5, 6, 7]"

definition evict_example :: LRUKReplacer where
  "evict_example =
     foldl (\<lambda>r f. LRUKReplacer_SetEvictable r f True)
       (foldl LRUKReplacer_RecordAccess (new_LRUKReplacer 3 2) [0, 1, 0, 2]) [0, 1, 2]"

lemma scenario_A_accessed_eq:
  "scenario_A_accessed =
    \<lparr>frame_table = [(1, \<lparr>history = [1, 7], is_evictable = False\<rparr>),
                    (2, \<lparr>history = [2, 8], is_evictable = False\<rparr>),
                    (3, \<lparr>history = [3, 9], is_evictable = False\<rparr>),
                    (4, \<lparr>history = [4, 10], is_evictable = False\<rparr>),
                    (5, \<lparr>history = [5, 11], is_evictable = False\<rparr>),
                    (6, \<lparr>history = [6, 12], is_evictable = False\<rparr>)],
     current_timestamp = 12, curr_size = 0, replacer_size = 7, lru_k = 2\<rparr>"
  by (simp add: scenario_A_accessed_def new_LRUKReplacer_def LRUKReplacer_RecordAccess_def
      size_cast_def size_inc_def new_FrameInfo_def Let_def)

lemma scenario_A_eq:
  "scenario_A =
    \<lparr>frame_table = [(1, \<lparr>history = [1, 7], is_evictable = True\<rparr>),
                    (2, \<lparr>history = [2, 8], is_evictable = True\<rparr>),
                    (3, \<lparr>history = [3, 9], is_evictable = True\<rparr>),
                    (4, \<lparr>history = [4, 10], is_evictable = True\<rparr>),
                    (5, \<lparr>history = [5, 11], is_evictable = True\<rparr>),
                    (6, \<lparr>history = [6, 12], is_evictable = True\<rparr>)],
     current_timestamp = 12, curr_size = 6, replacer_size = 7, lru_k = 2\<rparr>"
  by (simp add: scenario_A_def scenario_A_accessed_eq LRUKReplacer_SetEvictable_def size_inc_def)

lemma scenario_A_frame_7_untracked: "map_of (frame_table scenario_A) 7 = None"
  by (simp add: scenario_A_eq)

text \<open>
  Claim C4, as amended.  Pool size 7, K = 2, accesses \<open>1,2,3,4,5,6,1,2,3,4,5,6\<close>, then
  every frame id marked evictable: \<open>Evict\<close> returns frame 1.  Frame 7 is never accessed,
  so it has no record and marking it evictable does nothing; frames 1 to 6 all have two
  accesses, and frame 1 has the oldest retained timestamp.
\<close>

theorem scenario_A_evicts_frame_1: "Evict_frame scenario_A = Inr (Some 1)"
  by (simp add: Evict_frame_def LRUKReplacer_Evict_def scenario_A_eq SIZE_MAX_def size_sub_def)

text \<open>Claim C4 as stated (\<open>Evict\<close> returns frame 7) fails on the code.\<close>

theorem scenario_A_does_not_evict_frame_7: "Evict_frame scenario_A \<noteq> Inr (Some 7)"
  by (simp add: Evict_frame_def LRUKReplacer_Evict_def scenario_A_eq SIZE_MAX_def size_sub_def)

lemma evict_example_eq:
  "evict_example =
    \<lparr>frame_table = [(0, \<lparr>history = [1, 3], is_evictable = True\<rparr>),
                    (1, \<lparr>history = [2], is_evictable = True\<rparr>),
                    (2, \<lparr>history = [4], is_evictable = True\<rparr>)],
     current_timestamp = 4, curr_size = 3, replacer_size = 3, lru_k = 2\<rparr>"
  by (simp add: evict_example_def new_LRUKReplacer_def LRUKReplacer_RecordAccess_def
      LRUKReplacer_SetEvictable_def size_cast_def size_inc_def new_FrameInfo_def Let_def)

text \<open>
  Witness for C3: pool size 3, K = 2, accesses \<open>0,1,0,2\<close>, all frames evictable.  Frames
  1 and 2 have infinite K-distance; frame 1 has the older access.
\<close>

theorem Evict_picks_largest_k_distance_witness:
  "replacer_inv evict_example \<and> evictable_frames evict_example \<noteq> [] \<and>
   (\<exists>f info.
       LRUKReplacer_Evict evict_example =
         Inr (Some f, evict_example\<lparr>frame_table := AList.delete f (frame_table evict_example),
                         curr_size := curr_size evict_example - 1\<rparr>) \<and>
       (f, info) \<in> set (evictable_frames evict_example) \<and>
       map_of (AList.delete f (frame_table evict_example)) f = None \<and>
       (\<forall>(g, gi) \<in> set (evictable_frames evict_example).
          k_distance evict_example gi < k_distance evict_example info \<or>
          (k_distance evict_example gi = k_distance evict_example info \<and>
           hd (history info) \<le> hd (history gi))))"
proof -
  have inv: "replacer_inv evict_example"
    by (simp add: evict_example_eq replacer_inv_def evictable_frames_def SIZE_MAX_def)
  have ne: "evictable_frames evict_example \<noteq> []"
    by (simp add: evict_example_eq evictable_frames_def)
  from Evict_picks_largest_k_distance[OF inv] ne inv show ?thesis by blast
qed

lemma evict_example_result: "Evict_frame evict_example = Inr (Some 1)"
  by (simp add: Evict_frame_def LRUKReplacer_Evict_def evict_example_eq SIZE_MAX_def size_sub_def)

text \<open>
  Claim C5 (frame ids greater than or equal to the pool size are rejected by
  \<open>RecordAccess\<close>, leaving the state unchanged) fails at the pool size itself: the
  source compares with \<open>>\<close> where \<open>>=\<close> is meant, so with pool size 7 the frame
  id 7 gets a record.
\<close>

theorem RecordAccess_accepts_frame_at_pool_size:
  "LRUKReplacer_RecordAccess (new_LRUKReplacer 7 2) 7 \<noteq> new_LRUKReplacer 7 2 \<and>
   map_of (frame_table (LRUKReplacer_RecordAccess (new_LRUKReplacer 7 2) 7)) 7 =
     Some \<lparr>history = [1], is_evictable = False\<rparr>"
  by (simp add: new_LRUKReplacer_def LRUKReplacer_RecordAccess_def
      size_cast_def size_inc_def new_FrameInfo_def Let_def)

text \<open>Frame ids strictly above the pool size are rejected as the claim says.\<close>

lemma RecordAccess_rejects_beyond_pool_size:
  "int (replacer_size r) < f \<Longrightarrow> f < 2 ^ 31 \<Longrightarrow> LRUKReplacer_RecordAccess r f = r"
proof -
  assume a: "int (replacer_size r) < f" "f < 2 ^ 31"
  then have "f mod 2 ^ 64 = f" by simp
  with a show ?thesis by (simp add: LRUKReplacer_RecordAccess_def size_cast_def)
qed


section \<open>Extendible hash table (src/container/hash/extendible\_hash\_table.cpp)\<close>

text \<open>
  A bucket: its capacity (\<open>size_\<close>), its local depth (\<open>depth_\<close>) and its list of pairs
  (\<open>list_\<close>).
\<close>

record ('k, 'v) Bucket =
  bucket_cap :: nat
  bucket_depth :: nat
  bucket_list :: "('k \<times> 'v) list"

text \<open>
  The table.  The directory holds shared pointers to buckets: several slots may point to
  one bucket, and an update through one slot is seen through the others.  The model keeps
  the buckets in a store indexed by addresses; a slot holds \<open>Some a\<close> (the address) or
  \<open>None\<close> (a null pointer).  \<open>next_ref\<close> is the next address \<open>make_shared\<close> hands out.
\<close>

record ('k, 'v) ExtendibleHashTable =
  global_depth :: nat
  bucket_size :: nat
  num_buckets :: nat
  dir :: "nat option list"
  bucket_store :: "nat \<Rightarrow> ('k, 'v) Bucket option"
  next_ref :: nat

datatype ht_error = DirOutOfRange | NullBucket | ShiftOverflow

datatype 'a loop_result = Done 'a | Again 'a

definition new_Bucket :: "nat \<Rightarrow> nat \<Rightarrow> ('k, 'v) Bucket" where
  "new_Bucket array_size d = \<lparr>bucket_cap = array_size, bucket_depth = d, bucket_list = []\<rparr>"

definition new_ExtendibleHashTable :: "nat \<Rightarrow> ('k, 'v) ExtendibleHashTable" where
  "new_ExtendibleHashTable bsize =
     \<lparr>global_depth = 0, bucket_size = bsize, num_buckets = 1, dir = [Some 0],
      bucket_store = (\<lambda>a. None)(0 := Some (new_Bucket bsize 0)), next_ref = 1\<rparr>"

text \<open>
  Modelled from the spec: \<open>Bucket::IsFull\<close> is an inline function of the header, which is
  not among the sources; a bucket holds up to \<open>bucket_size\<close> pairs.
\<close>

definition Bucket_IsFull :: "('k, 'v) Bucket \<Rightarrow> bool" where
  "Bucket_IsFull b \<longleftrightarrow> length (bucket_list b) \<ge> bucket_cap b"

definition Bucket_Find :: "('k, 'v) Bucket \<Rightarrow> 'k \<Rightarrow> 'v option" where
  "Bucket_Find b key = map_of (bucket_list b) key"

fun remove_first :: "'k \<Rightarrow> ('k \<times> 'v) list \<Rightarrow> ('k \<times> 'v) list" where
  "remove_first key [] = []"
| "remove_first key ((k, v) # rest) = (if k = key then rest else (k, v) # remove_first key rest)"

definition Bucket_Remove :: "('k, 'v) Bucket \<Rightarrow> 'k \<Rightarrow> bool \<times> ('k, 'v) Bucket" where
  "Bucket_Remove b key =
     (case map_of (bucket_list b) key of
        None \<Rightarrow> (False, b)
      | Some _ \<Rightarrow> (True, b\<lparr>bucket_list := remove_first key (bucket_list b)\<rparr>))"

definition Bucket_Insert :: "('k, 'v) Bucket \<Rightarrow> 'k \<Rightarrow> 'v \<Rightarrow> bool \<times> ('k, 'v) Bucket" where
  "Bucket_Insert b key value =
     (case map_of (bucket_list b) key of
        Some _ \<Rightarrow> (True, b\<lparr>bucket_list := AList.update key value (bucket_list b)\<rparr>)
      | None \<Rightarrow>
          if Bucket_IsFull b then (False, b)
          else (True, b\<lparr>bucket_list := bucket_list b @ [(key, value)]\<rparr>))"

text \<open>
  \<open>IndexOf\<close>: \<open>int mask = (1 << global_depth_) - 1; return hash(key) & mask\<close>.  The shift
  overflows \<open>int\<close> from depth 31 on, which C++ leaves undefined; the model returns an
  error there.  The hash function \<open>std::hash<K>\<close> is a parameter \<open>h\<close> of the operations.
\<close>

definition IndexOf :: "('k \<Rightarrow> nat) \<Rightarrow> ('k, 'v) ExtendibleHashTable \<Rightarrow> 'k \<Rightarrow> ht_error + nat" where
  "IndexOf h t key =
     (if 31 \<le> global_depth t then Inl ShiftOverflow
      else Inr (and (h key) (push_bit (global_depth t) 1 - 1)))"

text \<open>\<open>dir_[index]->\<close>: the bucket a directory slot points to, with its address.\<close>

definition bucket_at :: "('k, 'v) ExtendibleHashTable \<Rightarrow> nat \<Rightarrow> ht_error + nat \<times> ('k, 'v) Bucket" where
  "bucket_at t index =
     (if index < length (dir t) then
        (case dir t ! index of
           None \<Rightarrow> Inl NullBucket
         | Some a \<Rightarrow> (case bucket_store t a of None \<Rightarrow> Inl NullBucket | Some b \<Rightarrow> Inr (a, b)))
      else Inl DirOutOfRange)"

definition ExtendibleHashTable_Find ::
    "('k \<Rightarrow> nat) \<Rightarrow> ('k, 'v) ExtendibleHashTable \<Rightarrow> 'k \<Rightarrow> ht_error + 'v option" where
  "ExtendibleHashTable_Find h t key =
     (case IndexOf h t key of
        Inl e \<Rightarrow> Inl e
      | Inr index \<Rightarrow>
          (case bucket_at t index of
             Inl e \<Rightarrow> Inl e
           | Inr (a, b) \<Rightarrow> Inr (Bucket_Find b key)))"

definition ExtendibleHashTable_Remove ::
    "('k \<Rightarrow> nat) \<Rightarrow> ('k, 'v) ExtendibleHashTable \<Rightarrow> 'k \<Rightarrow>
     ht_error + bool \<times> ('k, 'v) ExtendibleHashTable" where
  "ExtendibleHashTable_Remove h t key =
     (case IndexOf h t key of
        Inl e \<Rightarrow> Inl e
      | Inr index \<Rightarrow>
          (case bucket_at t index of
             Inl e \<Rightarrow> Inl e
           | Inr (a, b) \<Rightarrow>
               (case Bucket_Remove b key of
                  (found, b') \<Rightarrow> Inr (found, t\<lparr>bucket_store := (bucket_store t)(a := Some b')\<rparr>))))"

text \<open>The bit \<open>(x >> (local_depth - 1)) & 1\<close> that routes an entry or a slot.\<close>

definition route_bit :: "nat \<Rightarrow> nat \<Rightarrow> bool" where
  "route_bit local_depth x \<longleftrightarrow> and (drop_bit (local_depth - 1) x) 1 \<noteq> 0"

text \<open>The loop that re-inserts the entries of the overflowed bucket into the two new ones.\<close>

fun rehash :: "('k \<Rightarrow> nat) \<Rightarrow> nat \<Rightarrow> ('k \<times> 'v) list \<Rightarrow>
    ('k, 'v) Bucket \<times> ('k, 'v) Bucket \<Rightarrow> ('k, 'v) Bucket \<times> ('k, 'v) Bucket" where
  "rehash h local_depth [] (bucket0, bucket1) = (bucket0, bucket1)"
| "rehash h local_depth ((k, v) # rest) (bucket0, bucket1) =
     (if route_bit local_depth (h k)
      then rehash h local_depth rest (bucket0, snd (Bucket_Insert bucket1 k v))
      else rehash h local_depth rest (snd (Bucket_Insert bucket0 k v), bucket1))"

text \<open>The loop that repoints the directory slots of the old bucket.\<close>

definition repoint :: "nat \<Rightarrow> nat \<Rightarrow> nat \<Rightarrow> nat \<Rightarrow> nat option list \<Rightarrow> nat option list" where
  "repoint a local_depth a0 a1 d =
     map (\<lambda>(i, ref). if ref = Some a
                      then (if route_bit local_depth i then Some a1 else Some a0)
                      else ref)
         (List.enumerate 0 d)"

text \<open>
  One round of the \<open>while (true)\<close> loop of \<open>Insert\<close>: either the pair is stored
  (\<open>Done\<close>), or the target bucket is split and the loop goes round again (\<open>Again\<close>).
  A shift by 64 bits or more is undefined in C++ and an error here.
\<close>

definition Insert_round ::
    "('k \<Rightarrow> nat) \<Rightarrow> ('k, 'v) ExtendibleHashTable \<Rightarrow> 'k \<Rightarrow> 'v \<Rightarrow>
     ht_error + ('k, 'v) ExtendibleHashTable loop_result" where
  "Insert_round h t key value =
     (case IndexOf h t key of
        Inl e \<Rightarrow> Inl e
      | Inr index \<Rightarrow>
          (case bucket_at t index of
             Inl e \<Rightarrow> Inl e
           | Inr (a, bucket) \<Rightarrow>
               (case Bucket_Insert bucket key value of
                  (True, b') \<Rightarrow> Inr (Done (t\<lparr>bucket_store := (bucket_store t)(a := Some b')\<rparr>))
                | (False, _) \<Rightarrow>
                    let t1 = (if bucket_depth bucket = global_depth t
                              then t\<lparr>dir := dir t @ dir t, global_depth := global_depth t + 1\<rparr>
                              else t);
                        local_depth = bucket_depth bucket + 1;
                        a0 = next_ref t;
                        a1 = next_ref t + 1;
                        (bucket0, bucket1) =
                           rehash h local_depth (bucket_list bucket)
                             (new_Bucket (bucket_size t) local_depth,
                              new_Bucket (bucket_size t) local_depth)
                    in if 64 \<le> local_depth - 1 then Inl ShiftOverflow
                       else Inr (Again (t1\<lparr>
                         dir := repoint a local_depth a0 a1 (dir t1),
                         bucket_store := (bucket_store t)
                            (a := Some (bucket\<lparr>bucket_depth := local_depth\<rparr>),
                             a0 := Some bucket0, a1 := Some bucket1),
                         next_ref := next_ref t + 2,
                         num_buckets := num_buckets t + 1\<rparr>)))))"

partial_function (option) ExtendibleHashTable_Insert ::
    "('k \<Rightarrow> nat) \<Rightarrow> ('k, 'v) ExtendibleHashTable \<Rightarrow> 'k \<Rightarrow> 'v \<Rightarrow>
     (ht_error + ('k, 'v) ExtendibleHashTable) option" where
  "ExtendibleHashTable_Insert h t key value =
     (case Insert_round h t key value of
        Inl e \<Rightarrow> Some (Inl e)
      | Inr (Done t') \<Rightarrow> Some (Inr t')
      | Inr (Again t') \<Rightarrow> ExtendibleHashTable_Insert h t' key value)"

declare ExtendibleHashTable_Insert.simps [code]

definition GetGlobalDepth :: "('k, 'v) ExtendibleHashTable \<Rightarrow> nat" where
  "GetGlobalDepth t = global_depth t"

definition GetNumBuckets :: "('k, 'v) ExtendibleHashTable \<Rightarrow> nat" where
  "GetNumBuckets t = num_buckets t"

definition GetLocalDepth :: "('k, 'v) ExtendibleHashTable \<Rightarrow> int \<Rightarrow> nat" where
  "GetLocalDepth t dir_index =
     (if dir_index < 0 \<or> dir_index \<ge> int (length (dir t)) then 0
      else (case dir t ! nat dir_index of
              None \<Rightarrow> 0
            | Some a \<Rightarrow> (case bucket_store t a of None \<Rightarrow> 0 | Some b \<Rightarrow> bucket_depth b)))"

text \<open>\<open>std::hash<int>\<close> of libstdc++ is the conversion to \<open>size_t\<close>.\<close>

definition std_hash_int :: "int \<Rightarrow> nat" where
  "std_hash_int k = size_cast k"

fun insert_all :: "('k \<Rightarrow> nat) \<Rightarrow> ('k, 'v) ExtendibleHashTable \<Rightarrow> ('k \<times> 'v) list \<Rightarrow>
    (ht_error + ('k, 'v) ExtendibleHashTable) option" where
  "insert_all h t [] = Some (Inr t)"
| "insert_all h t ((k, v) # rest) =
     (case ExtendibleHashTable_Insert h t k v of
        None \<Rightarrow> None
      | Some (Inl e) \<Rightarrow> Some (Inl e)
      | Some (Inr t') \<Rightarrow> insert_all h t' rest)"

definition scenario_D :: "(ht_error + (int, string) ExtendibleHashTable) option" where
  "scenario_D = insert_all std_hash_int (new_ExtendibleHashTable 2) [(1, ''a''), (5, ''b''), (9, ''c'')]"

subsection \<open>Bit arithmetic of the directory\<close>

lemma and_mask_mod: "and (x::nat) (push_bit n 1 - 1) = x mod 2 ^ n"
proof -
  have "push_bit n (1::nat) - 1 = mask n" by (simp add: mask_eq_exp_minus_1 push_bit_eq_mult)
  then show ?thesis by (simp add: take_bit_eq_mask[symmetric] take_bit_eq_mod)
qed

lemma IndexOf_mod:
  "IndexOf h t key = (if 31 \<le> global_depth t then Inl ShiftOverflow
                      else Inr (h key mod 2 ^ global_depth t))"
  unfolding IndexOf_def and_mask_mod ..

lemma route_bit_bit: "route_bit (Suc d) x \<longleftrightarrow> bit x d"
  by (simp add: route_bit_def and_one_eq bit_iff_odd_drop_bit mod_2_eq_odd)

lemma bit_mod_lower: "d < g \<Longrightarrow> bit ((x::nat) mod 2 ^ g) d = bit x d"
  by (simp add: take_bit_eq_mod[symmetric] bit_take_bit_iff)

lemma mod_double_cases:
  "(x::nat) mod 2 ^ Suc g = x mod 2 ^ g \<or> x mod 2 ^ Suc g = x mod 2 ^ g + 2 ^ g"
proof -
  have "x mod (2 ^ g * 2) = 2 ^ g * (x div 2 ^ g mod 2) + x mod 2 ^ g"
    by (rule mod_mult2_eq)
  then have "x mod 2 ^ Suc g = x mod 2 ^ g + 2 ^ g * (x div 2 ^ g mod 2)"
    by (simp only: power_Suc mult.commute add.commute)
  then show ?thesis by (cases "x div 2 ^ g mod 2 = 0") auto
qed

lemma nth_doubled:
  assumes "length d = 2 ^ g"
  shows "(d @ d) ! ((x::nat) mod 2 ^ Suc g) = d ! (x mod 2 ^ g)"
proof -
  have lt: "x mod 2 ^ g < length d" using assms by simp
  from mod_double_cases[of x g] show ?thesis
  proof
    assume "x mod 2 ^ Suc g = x mod 2 ^ g"
    then show ?thesis using lt by (simp add: nth_append)
  next
    assume "x mod 2 ^ Suc g = x mod 2 ^ g + 2 ^ g"
    then show ?thesis using assms by (simp add: nth_append)
  qed
qed

lemma nth_doubled_mem:
  assumes "i < length (d @ d)"
  shows "(d @ d) ! i = d ! (i mod length d) \<and> i mod length d < length d"
proof (cases "i < length d")
  case True
  then show ?thesis by (simp add: nth_append)
next
  case False
  then have "i - length d < length d" using assms by simp
  moreover have "i mod length d = i - length d"
    using False assms by (simp add: mod_if)
  ultimately show ?thesis using False by (simp add: nth_append)
qed

lemma repoint_length: "length (repoint a ld a0 a1 d) = length d"
  by (simp add: repoint_def)

lemma repoint_nth:
  "i < length d \<Longrightarrow>
   repoint a ld a0 a1 d ! i =
     (if d ! i = Some a then (if route_bit ld i then Some a1 else Some a0) else d ! i)"
  by (simp add: repoint_def nth_enumerate_eq)

subsection \<open>Buckets\<close>

lemma map_of_filter_key:
  "map_of (filter (\<lambda>p. P (fst p)) l) k = (if P k then map_of l k else None)"
  by (induction l) auto

lemma Bucket_Insert_fresh:
  assumes "map_of (bucket_list b) k = None" "length (bucket_list b) < bucket_cap b"
  shows "Bucket_Insert b k v = (True, b\<lparr>bucket_list := bucket_list b @ [(k, v)]\<rparr>)"
  using assms by (simp add: Bucket_Insert_def Bucket_IsFull_def)

lemma rehash_lists:
  assumes "distinct (map fst items)"
    and "fst ` set items \<inter> fst ` set (bucket_list b0) = {}"
    and "fst ` set items \<inter> fst ` set (bucket_list b1) = {}"
    and "length (bucket_list b0) + length items \<le> bucket_cap b0"
    and "length (bucket_list b1) + length items \<le> bucket_cap b1"
  shows "rehash h ld items (b0, b1) =
     (b0\<lparr>bucket_list := bucket_list b0 @ filter (\<lambda>p. \<not> route_bit ld (h (fst p))) items\<rparr>,
      b1\<lparr>bucket_list := bucket_list b1 @ filter (\<lambda>p. route_bit ld (h (fst p))) items\<rparr>)"
  using assms
proof (induction items arbitrary: b0 b1)
  case Nil
  then show ?case by simp
next
  case (Cons p items)
  obtain k v where p: "p = (k, v)" by (cases p)
  show ?case
  proof (cases "route_bit ld (h k)")
    case True
    have fresh: "map_of (bucket_list b1) k = None"
      using Cons.prems(3) p by (auto simp: map_of_eq_None_iff)
    have ins: "Bucket_Insert b1 k v = (True, b1\<lparr>bucket_list := bucket_list b1 @ [(k, v)]\<rparr>)"
      using fresh Cons.prems(5) by (intro Bucket_Insert_fresh) simp_all
    let ?b1 = "b1\<lparr>bucket_list := bucket_list b1 @ [(k, v)]\<rparr>"
    have "rehash h ld items (b0, ?b1) =
     (b0\<lparr>bucket_list := bucket_list b0 @ filter (\<lambda>p. \<not> route_bit ld (h (fst p))) items\<rparr>,
      ?b1\<lparr>bucket_list := bucket_list ?b1 @ filter (\<lambda>p. route_bit ld (h (fst p))) items\<rparr>)"
      using Cons.prems p by (intro Cons.IH) auto
    then show ?thesis using True p ins by simp
  next
    case False
    have fresh: "map_of (bucket_list b0) k = None"
      using Cons.prems(2) p by (auto simp: map_of_eq_None_iff)
    have ins: "Bucket_Insert b0 k v = (True, b0\<lparr>bucket_list := bucket_list b0 @ [(k, v)]\<rparr>)"
      using fresh Cons.prems(4) by (intro Bucket_Insert_fresh) simp_all
    let ?b0 = "b0\<lparr>bucket_list := bucket_list b0 @ [(k, v)]\<rparr>"
    have "rehash h ld items (?b0, b1) =
     (?b0\<lparr>bucket_list := bucket_list ?b0 @ filter (\<lambda>p. \<not> route_bit ld (h (fst p))) items\<rparr>,
      b1\<lparr>bucket_list := bucket_list b1 @ filter (\<lambda>p. route_bit ld (h (fst p))) items\<rparr>)"
      using Cons.prems p by (intro Cons.IH) auto
    then show ?thesis using False p ins by simp
  qed
qed

lemma rehash_new:
  assumes "distinct (map fst items)" "length items \<le> cap"
  shows "rehash h ld items (new_Bucket cap ld, new_Bucket cap ld) =
     (\<lparr>bucket_cap = cap, bucket_depth = ld,
       bucket_list = filter (\<lambda>p. \<not> route_bit ld (h (fst p))) items\<rparr>,
      \<lparr>bucket_cap = cap, bucket_depth = ld,
       bucket_list = filter (\<lambda>p. route_bit ld (h (fst p))) items\<rparr>)"
  using rehash_lists[of items "new_Bucket cap ld" "new_Bucket cap ld" h ld] assms
  by (simp add: new_Bucket_def)

subsection \<open>The invariant of the table\<close>

text \<open>
  A bucket at address \<open>a\<close> is in order when its address has been handed out, its local
  depth does not exceed the global depth, it has the table's capacity and holds no more
  pairs than that, its keys are distinct, and every key it holds is routed to it by the
  directory.
\<close>

definition slot_ok ::
    "('k \<Rightarrow> nat) \<Rightarrow> ('k, 'v) ExtendibleHashTable \<Rightarrow> nat \<Rightarrow> ('k, 'v) Bucket \<Rightarrow> bool" where
  "slot_ok h t a b \<longleftrightarrow>
     a < next_ref t \<and> bucket_depth b \<le> global_depth t \<and> bucket_cap b = bucket_size t \<and>
     length (bucket_list b) \<le> bucket_cap b \<and> distinct (map fst (bucket_list b)) \<and>
     list_all (\<lambda>(k, v). dir t ! (h k mod 2 ^ global_depth t) = Some a) (bucket_list b)"

text \<open>
  The directory has \<open>2 ^ global_depth\<close> slots and every slot points to a bucket that is
  in order.
\<close>

definition ht_wf :: "('k \<Rightarrow> nat) \<Rightarrow> ('k, 'v) ExtendibleHashTable \<Rightarrow> bool" where
  "ht_wf h t \<longleftrightarrow>
     length (dir t) = 2 ^ global_depth t \<and>
     list_all (\<lambda>ref. case ref of
                 None \<Rightarrow> False
               | Some a \<Rightarrow> (case bucket_store t a of
                              None \<Rightarrow> False
                            | Some b \<Rightarrow> slot_ok h t a b)) (dir t)"

definition ht_inv :: "('k \<Rightarrow> nat) \<Rightarrow> ('k, 'v) ExtendibleHashTable \<Rightarrow> bool" where
  "ht_inv h t \<longleftrightarrow> ht_wf h t \<and> global_depth t < 31"

lemma wf_slot:
  assumes "ht_wf h t" "i < length (dir t)"
  shows "\<exists>a b. dir t ! i = Some a \<and> bucket_store t a = Some b \<and> slot_ok h t a b"
proof -
  from assms have "case dir t ! i of None \<Rightarrow> False
       | Some a \<Rightarrow> (case bucket_store t a of None \<Rightarrow> False | Some b \<Rightarrow> slot_ok h t a b)"
    by (simp add: ht_wf_def list_all_length)
  then show ?thesis by (auto split: option.splits)
qed

lemma wf_intro:
  assumes "length (dir t) = 2 ^ global_depth t"
    and "\<And>i. i < length (dir t) \<Longrightarrow>
           \<exists>a b. dir t ! i = Some a \<and> bucket_store t a = Some b \<and> slot_ok h t a b"
  shows "ht_wf h t"
  unfolding ht_wf_def list_all_length
proof (intro conjI allI impI)
  show "length (dir t) = 2 ^ global_depth t" by fact
next
  fix i assume "i < length (dir t)"
  from assms(2)[OF this] show "case dir t ! i of None \<Rightarrow> False
       | Some a \<Rightarrow> (case bucket_store t a of None \<Rightarrow> False | Some b \<Rightarrow> slot_ok h t a b)"
    by auto
qed

lemma wf_key_slot:
  assumes "ht_wf h t"
  shows "\<exists>a b. dir t ! (h k mod 2 ^ global_depth t) = Some a \<and> bucket_store t a = Some b \<and>
           slot_ok h t a b \<and> bucket_at t (h k mod 2 ^ global_depth t) = Inr (a, b)"
proof -
  from assms have len: "length (dir t) = 2 ^ global_depth t" by (simp add: ht_wf_def)
  then have lt: "h k mod 2 ^ global_depth t < length (dir t)" by simp
  from wf_slot[OF assms lt] obtain a b where
    "dir t ! (h k mod 2 ^ global_depth t) = Some a" "bucket_store t a = Some b" "slot_ok h t a b"
    by blast
  then show ?thesis using lt by (auto simp: bucket_at_def)
qed

lemma inv_Find:
  assumes "ht_inv h t" "dir t ! (h k mod 2 ^ global_depth t) = Some a" "bucket_store t a = Some b"
  shows "ExtendibleHashTable_Find h t k = Inr (map_of (bucket_list b) k)"
proof -
  from assms(1) have len: "length (dir t) = 2 ^ global_depth t" and g: "global_depth t < 31"
    by (simp_all add: ht_inv_def ht_wf_def)
  then have lt: "h k mod 2 ^ global_depth t < length (dir t)" by simp
  show ?thesis using assms(2,3) lt g
    by (simp add: ExtendibleHashTable_Find_def IndexOf_mod bucket_at_def Bucket_Find_def)
qed

lemma new_table_inv: "ht_inv h (new_ExtendibleHashTable bsize)"
  by (simp add: ht_inv_def ht_wf_def new_ExtendibleHashTable_def slot_ok_def new_Bucket_def)

lemma slot_ok_store [simp]:
  "slot_ok h (t\<lparr>bucket_store := s\<rparr>) a b = slot_ok h t a b"
  by (simp add: slot_ok_def)

lemma wf_bucket_update:
  assumes wf: "ht_wf h t" and a: "bucket_store t a = Some b"
    and ok: "slot_ok h t a b'"
  shows "ht_wf h (t\<lparr>bucket_store := (bucket_store t)(a := Some b')\<rparr>)"
proof (rule wf_intro)
  show "length (dir (t\<lparr>bucket_store := (bucket_store t)(a := Some b')\<rparr>)) =
        2 ^ global_depth (t\<lparr>bucket_store := (bucket_store t)(a := Some b')\<rparr>)"
    using wf by (simp add: ht_wf_def)
next
  fix i assume "i < length (dir (t\<lparr>bucket_store := (bucket_store t)(a := Some b')\<rparr>))"
  then have i: "i < length (dir t)" by simp
  from wf_slot[OF wf i] obtain c bc where
    c: "dir t ! i = Some c" "bucket_store t c = Some bc" "slot_ok h t c bc" by blast
  show "\<exists>a' b''. dir (t\<lparr>bucket_store := (bucket_store t)(a := Some b')\<rparr>) ! i = Some a' \<and>
          bucket_store (t\<lparr>bucket_store := (bucket_store t)(a := Some b')\<rparr>) a' = Some b'' \<and>
          slot_ok h (t\<lparr>bucket_store := (bucket_store t)(a := Some b')\<rparr>) a' b''"
  proof (cases "c = a")
    case True
    with c ok show ?thesis by simp
  next
    case False
    with c show ?thesis by simp
  qed
qed

lemma Find_bucket_update:
  assumes inv: "ht_inv h t" and a: "bucket_store t a = Some b"
    and same: "map_of (bucket_list b') k = map_of (bucket_list b) k"
  shows "ExtendibleHashTable_Find h (t\<lparr>bucket_store := (bucket_store t)(a := Some b')\<rparr>) k =
         ExtendibleHashTable_Find h t k"
proof -
  from inv have wf: "ht_wf h t" and g: "global_depth t < 31" by (simp_all add: ht_inv_def)
  from wf_key_slot[OF wf, of k] obtain c bc where
    c: "dir t ! (h k mod 2 ^ global_depth t) = Some c" "bucket_store t c = Some bc"
       "bucket_at t (h k mod 2 ^ global_depth t) = Inr (c, bc)" by blast
  from wf have lt: "h k mod 2 ^ global_depth t < length (dir t)" by (simp add: ht_wf_def)
  show ?thesis
  proof (cases "c = a")
    case True
    with c a same lt g show ?thesis
      by (simp add: ExtendibleHashTable_Find_def IndexOf_mod bucket_at_def Bucket_Find_def)
  next
    case False
    with c lt g show ?thesis
      by (simp add: ExtendibleHashTable_Find_def IndexOf_mod bucket_at_def Bucket_Find_def)
  qed
qed

lemma length_alist_update:
  "length (AList.update k v l) = (if k \<in> fst ` set l then length l else Suc (length l))"
  by (induction l) auto

lemma length_alist_update_Some:
  "map_of l k = Some x \<Longrightarrow> length (AList.update k v l) = length l"
  using map_of_SomeD[of l k x] by (force simp: length_alist_update)

lemma Bucket_Insert_True:
  assumes "Bucket_Insert b key v = (True, b')"
  shows "map_of (bucket_list b') key = Some v"
    and "k \<noteq> key \<Longrightarrow> map_of (bucket_list b') k = map_of (bucket_list b) k"
    and "bucket_depth b' = bucket_depth b" and "bucket_cap b' = bucket_cap b"
    and "length (bucket_list b) \<le> bucket_cap b \<Longrightarrow> length (bucket_list b') \<le> bucket_cap b"
    and "distinct (map fst (bucket_list b)) \<Longrightarrow> distinct (map fst (bucket_list b'))"
    and "fst ` set (bucket_list b') = insert key (fst ` set (bucket_list b))"
proof -
  show "map_of (bucket_list b') key = Some v"
    using assms by (auto simp: Bucket_Insert_def update_conv' map_add_def split: option.splits if_splits)
  show "k \<noteq> key \<Longrightarrow> map_of (bucket_list b') k = map_of (bucket_list b) k"
    using assms by (auto simp: Bucket_Insert_def update_conv' map_add_def split: option.splits if_splits)
  show "bucket_depth b' = bucket_depth b" "bucket_cap b' = bucket_cap b"
    using assms by (auto simp: Bucket_Insert_def split: option.splits if_splits)
  show "length (bucket_list b) \<le> bucket_cap b \<Longrightarrow> length (bucket_list b') \<le> bucket_cap b"
    using assms
    by (auto simp: Bucket_Insert_def Bucket_IsFull_def length_alist_update_Some
        split: option.splits if_splits)
  show "distinct (map fst (bucket_list b)) \<Longrightarrow> distinct (map fst (bucket_list b'))"
    using assms
    by (auto simp: Bucket_Insert_def distinct_update map_of_eq_None_iff
        split: option.splits if_splits)
  show "fst ` set (bucket_list b') = insert key (fst ` set (bucket_list b))"
  proof (cases "map_of (bucket_list b) key")
    case None
    with assms have "bucket_list b' = bucket_list b @ [(key, v)]"
      by (auto simp: Bucket_Insert_def split: if_splits)
    then show ?thesis by simp
  next
    case (Some x)
    with assms have "bucket_list b' = AList.update key v (bucket_list b)"
      by (auto simp: Bucket_Insert_def)
    then show ?thesis by (simp add: dom_update)
  qed
qed

lemma Bucket_Insert_False:
  assumes "Bucket_Insert b key v = (False, b')"
  shows "map_of (bucket_list b) key = None" and "bucket_cap b \<le> length (bucket_list b)"
  using assms by (auto simp: Bucket_Insert_def Bucket_IsFull_def split: option.splits if_splits)

lemma Insert_round_unfold:
  assumes inv: "ht_inv h t"
    and a: "dir t ! (h key mod 2 ^ global_depth t) = Some a" "bucket_store t a = Some bucket"
  shows "Insert_round h t key v =
     (case Bucket_Insert bucket key v of
                  (True, b') \<Rightarrow> Inr (Done (t\<lparr>bucket_store := (bucket_store t)(a := Some b')\<rparr>))
                | (False, _) \<Rightarrow>
                    let t1 = (if bucket_depth bucket = global_depth t
                              then t\<lparr>dir := dir t @ dir t, global_depth := global_depth t + 1\<rparr>
                              else t);
                        local_depth = bucket_depth bucket + 1;
                        a0 = next_ref t;
                        a1 = next_ref t + 1;
                        (bucket0, bucket1) =
                           rehash h local_depth (bucket_list bucket)
                             (new_Bucket (bucket_size t) local_depth,
                              new_Bucket (bucket_size t) local_depth)
                    in if 64 \<le> local_depth - 1 then Inl ShiftOverflow
                       else Inr (Again (t1\<lparr>
                         dir := repoint a local_depth a0 a1 (dir t1),
                         bucket_store := (bucket_store t)
                            (a := Some (bucket\<lparr>bucket_depth := local_depth\<rparr>),
                             a0 := Some bucket0, a1 := Some bucket1),
                         next_ref := next_ref t + 2,
                         num_buckets := num_buckets t + 1\<rparr>)))"
proof -
  from inv have len: "length (dir t) = 2 ^ global_depth t" and g: "global_depth t < 31"
    by (simp_all add: ht_inv_def ht_wf_def)
  then have lt: "h key mod 2 ^ global_depth t < length (dir t)" by simp
  have "bucket_at t (h key mod 2 ^ global_depth t) = Inr (a, bucket)"
    using a lt by (simp add: bucket_at_def)
  then show ?thesis using g by (simp add: Insert_round_def IndexOf_mod)
qed

lemma Insert_round_Done:
  assumes inv: "ht_inv h t" and r: "Insert_round h t key v = Inr (Done t')"
  shows "ht_inv h t'"
    and "ExtendibleHashTable_Find h t' key = Inr (Some v)"
    and "k \<noteq> key \<Longrightarrow> ExtendibleHashTable_Find h t' k = ExtendibleHashTable_Find h t k"
    and "global_depth t' = global_depth t" and "dir t' = dir t"
    and "num_buckets t' = num_buckets t" and "bucket_size t' = bucket_size t"
proof -
  from inv have wf: "ht_wf h t" and g: "global_depth t < 31" by (simp_all add: ht_inv_def)
  from wf_key_slot[OF wf, of key] obtain a b where
    a: "dir t ! (h key mod 2 ^ global_depth t) = Some a" "bucket_store t a = Some b"
    and ok: "slot_ok h t a b" by blast
  obtain res b' where bi: "Bucket_Insert b key v = (res, b')" by (cases "Bucket_Insert b key v")
  from r have res: "res" and t': "t' = t\<lparr>bucket_store := (bucket_store t)(a := Some b')\<rparr>"
    unfolding Insert_round_unfold[OF inv a] bi
    by (auto simp: Let_def split: if_splits prod.splits bool.splits)
  from bi res have bi: "Bucket_Insert b key v = (True, b')" by simp
  note facts = Bucket_Insert_True[OF bi]
  have keys: "list_all (\<lambda>(k, v). dir t ! (h k mod 2 ^ global_depth t) = Some a) (bucket_list b')"
  proof -
    have "\<And>k. k \<in> fst ` set (bucket_list b') \<Longrightarrow> dir t ! (h k mod 2 ^ global_depth t) = Some a"
      using facts(7) ok a(1) by (auto simp: slot_ok_def list_all_iff)
    then show ?thesis by (force simp: list_all_iff)
  qed
  have ok': "slot_ok h t a b'"
    using ok facts(3,4,5,6) keys by (simp add: slot_ok_def)
  have wf': "ht_wf h t'" unfolding t' by (rule wf_bucket_update[OF wf a(2) ok'])
  then show inv': "ht_inv h t'" using g by (simp add: ht_inv_def t')
  show "ExtendibleHashTable_Find h t' key = Inr (Some v)"
    using inv_Find[OF inv', of key a b'] a facts(1) by (simp add: t')
  show "k \<noteq> key \<Longrightarrow> ExtendibleHashTable_Find h t' k = ExtendibleHashTable_Find h t k"
    unfolding t' using facts(2) by (intro Find_bucket_update[OF inv a(2)]) simp
  show "global_depth t' = global_depth t" "dir t' = dir t" "num_buckets t' = num_buckets t"
    "bucket_size t' = bucket_size t"
    by (simp_all add: t')
qed

text \<open>The local depth of the bucket that a key is routed to.\<close>

definition target_depth :: "('k \<Rightarrow> nat) \<Rightarrow> ('k, 'v) ExtendibleHashTable \<Rightarrow> 'k \<Rightarrow> nat" where
  "target_depth h t key =
     (case dir t ! (h key mod 2 ^ global_depth t) of
        None \<Rightarrow> 0
      | Some a \<Rightarrow> (case bucket_store t a of None \<Rightarrow> 0 | Some b \<Rightarrow> bucket_depth b))"

lemma Insert_round_split:
  assumes inv: "ht_inv h t"
    and a: "dir t ! (h key mod 2 ^ global_depth t) = Some a" "bucket_store t a = Some bucket"
    and bi: "Bucket_Insert bucket key v = (False, x)"
    and rh: "rehash h (Suc (bucket_depth bucket)) (bucket_list bucket)
               (new_Bucket (bucket_size t) (Suc (bucket_depth bucket)),
                new_Bucket (bucket_size t) (Suc (bucket_depth bucket))) = (b0, b1)"
    and d: "bucket_depth bucket < 64"
  shows "Insert_round h t key v =
     Inr (Again (t\<lparr>global_depth := (if bucket_depth bucket = global_depth t
                                        then Suc (global_depth t) else global_depth t),
                    dir := repoint a (Suc (bucket_depth bucket)) (next_ref t) (Suc (next_ref t))
                             (if bucket_depth bucket = global_depth t then dir t @ dir t else dir t),
                    bucket_store := (bucket_store t)
                            (a := Some (bucket\<lparr>bucket_depth := Suc (bucket_depth bucket)\<rparr>),
                             next_ref t := Some b0, Suc (next_ref t) := Some b1),
                    next_ref := next_ref t + 2,
                    num_buckets := num_buckets t + 1\<rparr>))"
  unfolding Insert_round_unfold[OF inv a] bi
  using rh d by (simp add: Let_def)

lemma Insert_round_Again:
  assumes inv: "ht_inv h t" and r: "Insert_round h t key v = Inr (Again t')"
  shows "ht_wf h t'"
    and "global_depth t' < 31 \<Longrightarrow> ExtendibleHashTable_Find h t' k = ExtendibleHashTable_Find h t k"
    and "target_depth h t' key = Suc (target_depth h t key)"
    and "target_depth h t key \<le> global_depth t"
    and "bucket_size t' = bucket_size t"
    and "global_depth t \<le> global_depth t'"
proof -
  from inv have wf: "ht_wf h t" and g: "global_depth t < 31" by (simp_all add: ht_inv_def)
  from wf have len: "length (dir t) = 2 ^ global_depth t" by (simp add: ht_wf_def)
  from wf_key_slot[OF wf, of key] obtain a b where
    a: "dir t ! (h key mod 2 ^ global_depth t) = Some a" "bucket_store t a = Some b"
    and ok: "slot_ok h t a b" by blast
  let ?g = "global_depth t" and ?d = "bucket_depth b" and ?n = "next_ref t"
  from ok have dg: "?d \<le> ?g" and an: "a < ?n" and cap: "bucket_cap b = bucket_size t"
    and lencap: "length (bucket_list b) \<le> bucket_size t"
    and dist: "distinct (map fst (bucket_list b))"
    and keys: "list_all (\<lambda>(k, v). dir t ! (h k mod 2 ^ ?g) = Some a) (bucket_list b)"
    by (simp_all add: slot_ok_def)
  show td: "target_depth h t key \<le> global_depth t" using a dg by (simp add: target_depth_def)
  define g1 where "g1 = (if ?d = ?g then Suc ?g else ?g)"
  define dir1 where "dir1 = (if ?d = ?g then dir t @ dir t else dir t)"
  define b0 :: "('a, 'b) Bucket" where "b0 = \<lparr>bucket_cap = bucket_size t, bucket_depth = Suc ?d,
       bucket_list = filter (\<lambda>p. \<not> route_bit (Suc ?d) (h (fst p))) (bucket_list b)\<rparr>"
  define b1 :: "('a, 'b) Bucket" where "b1 = \<lparr>bucket_cap = bucket_size t, bucket_depth = Suc ?d,
       bucket_list = filter (\<lambda>p. route_bit (Suc ?d) (h (fst p))) (bucket_list b)\<rparr>"
  define dir' where "dir' = repoint a (Suc ?d) ?n (Suc ?n) dir1"
  define store' where "store' = (bucket_store t)
                            (a := Some (b\<lparr>bucket_depth := Suc ?d\<rparr>),
                             ?n := Some b0, Suc ?n := Some b1)"
  obtain res b'' where bi: "Bucket_Insert b key v = (res, b'')" by (cases "Bucket_Insert b key v")
  have rh: "rehash h (Suc ?d) (bucket_list b)
              (new_Bucket (bucket_size t) (Suc ?d), new_Bucket (bucket_size t) (Suc ?d)) = (b0, b1)"
    unfolding b0_def b1_def by (rule rehash_new[OF dist lencap])
  have "\<not> res"
  proof
    assume res
    with bi r show False unfolding Insert_round_unfold[OF inv a] by simp
  qed
  with bi have bi: "Bucket_Insert b key v = (False, b'')" by simp
  have "?d < 64" using dg g by simp
  from Insert_round_split[OF inv a bi rh this] r
  have t': "t' = t\<lparr>global_depth := g1, dir := dir', bucket_store := store',
                           next_ref := ?n + 2, num_buckets := num_buckets t + 1\<rparr>"
    by (simp add: g1_def dir1_def dir'_def store'_def)
  have gd': "global_depth t' = g1" and d': "dir t' = dir'" and s': "bucket_store t' = store'"
    and n': "next_ref t' = ?n + 2" and bs': "bucket_size t' = bucket_size t"
    by (simp_all add: t')
  show "bucket_size t' = bucket_size t" by fact
  have D4: "?d < g1" "?g \<le> g1" using dg by (auto simp: g1_def)
  show "global_depth t \<le> global_depth t'" using D4 gd' by simp
  have D1: "length dir1 = 2 ^ g1" using len by (simp add: dir1_def g1_def)
  have D2: "\<And>x. dir1 ! (x mod 2 ^ g1) = dir t ! (x mod 2 ^ ?g)"
    using nth_doubled[OF len] by (simp add: dir1_def g1_def)
  have D3: "\<And>i. i < length dir1 \<Longrightarrow> \<exists>j < length (dir t). dir1 ! i = dir t ! j"
  proof -
    fix i assume i: "i < length dir1"
    show "\<exists>j < length (dir t). dir1 ! i = dir t ! j"
    proof (cases "?d = ?g")
      case True
      with i have "i < length (dir t @ dir t)" by (simp add: dir1_def)
      from nth_doubled_mem[OF this] True show ?thesis by (auto simp: dir1_def)
    next
      case False
      with i show ?thesis by (auto simp: dir1_def)
    qed
  qed
  have len': "length dir' = 2 ^ g1" by (simp add: dir'_def repoint_length D1)
  have nth': "\<And>i. i < length dir1 \<Longrightarrow>
      dir' ! i = (if dir1 ! i = Some a then (if bit i ?d then Some (Suc ?n) else Some ?n) else dir1 ! i)"
    by (simp add: dir'_def repoint_nth route_bit_bit)
  have key_slot': "\<And>x. dir' ! (x mod 2 ^ g1) =
      (if dir t ! (x mod 2 ^ ?g) = Some a then (if bit x ?d then Some (Suc ?n) else Some ?n)
       else dir t ! (x mod 2 ^ ?g))"
  proof -
    fix x :: nat
    have "x mod 2 ^ g1 < length dir1" by (simp add: D1)
    from nth'[OF this] show "dir' ! (x mod 2 ^ g1) =
      (if dir t ! (x mod 2 ^ ?g) = Some a then (if bit x ?d then Some (Suc ?n) else Some ?n)
       else dir t ! (x mod 2 ^ ?g))"
      by (simp add: D2 bit_mod_lower[OF D4(1)])
  qed
  have st_other: "\<And>c. c < ?n \<Longrightarrow> c \<noteq> a \<Longrightarrow> store' c = bucket_store t c"
    by (simp add: store'_def)
  have st0: "store' ?n = Some b0" and st1: "store' (Suc ?n) = Some b1"
    using an by (simp_all add: store'_def)
  have ok0: "slot_ok h t' ?n b0"
  proof -
    have "list_all (\<lambda>(k, v). dir' ! (h k mod 2 ^ g1) = Some ?n) (bucket_list b0)"
      using keys by (auto simp: b0_def list_all_iff key_slot' route_bit_bit)
    moreover have "distinct (map fst (bucket_list b0))"
      using dist by (simp add: b0_def distinct_map_filter)
    moreover have "length (bucket_list b0) \<le> bucket_size t"
      using lencap by (simp add: b0_def le_trans[OF length_filter_le])
    ultimately show ?thesis using D4
      by (simp add: slot_ok_def gd' d' n' bs') (simp add: b0_def)
  qed
  have ok1: "slot_ok h t' (Suc ?n) b1"
  proof -
    have "list_all (\<lambda>(k, v). dir' ! (h k mod 2 ^ g1) = Some (Suc ?n)) (bucket_list b1)"
      using keys by (auto simp: b1_def list_all_iff key_slot' route_bit_bit)
    moreover have "distinct (map fst (bucket_list b1))"
      using dist by (simp add: b1_def distinct_map_filter)
    moreover have "length (bucket_list b1) \<le> bucket_size t"
      using lencap by (simp add: b1_def le_trans[OF length_filter_le])
    ultimately show ?thesis using D4
      by (simp add: slot_ok_def gd' d' n' bs') (simp add: b1_def)
  qed
  have ok_other: "\<And>c bc. slot_ok h t c bc \<Longrightarrow> c \<noteq> a \<Longrightarrow> slot_ok h t' c bc"
  proof -
    fix c bc assume okc: "slot_ok h t c bc" and ca: "c \<noteq> a"
    then have "list_all (\<lambda>(k, v). dir' ! (h k mod 2 ^ g1) = Some c) (bucket_list bc)"
      by (auto simp: slot_ok_def list_all_iff key_slot')
    with okc D4 show "slot_ok h t' c bc"
      by (simp add: slot_ok_def gd' d' n' bs')
  qed
  show wf': "ht_wf h t'"
  proof (rule wf_intro)
    show "length (dir t') = 2 ^ global_depth t'" by (simp add: gd' d' len')
  next
    fix i assume "i < length (dir t')"
    then have i: "i < length dir1" by (simp add: d' len' D1)
    from D3[OF i] obtain j where j: "j < length (dir t)" "dir1 ! i = dir t ! j" by blast
    from wf_slot[OF wf j(1)] obtain c bc where
      c: "dir t ! j = Some c" "bucket_store t c = Some bc" "slot_ok h t c bc" by blast
    show "\<exists>a b. dir t' ! i = Some a \<and> bucket_store t' a = Some b \<and> slot_ok h t' a b"
    proof (cases "c = a")
      case True
      then show ?thesis using nth'[OF i] j c st0 st1 ok0 ok1 by (auto simp: d' s')
    next
      case False
      have "c < ?n" using c(3) by (simp add: slot_ok_def)
      then show ?thesis using nth'[OF i] j c False st_other[of c] ok_other[OF c(3) False]
        by (auto simp: d' s')
    qed
  qed
  show "target_depth h t' key = Suc (target_depth h t key)"
    using a key_slot'[of "h key"] st0 st1
    by (simp add: target_depth_def gd' d' s' b0_def b1_def)
  show "ExtendibleHashTable_Find h t' k = ExtendibleHashTable_Find h t k" if g31: "global_depth t' < 31"
  proof -
    have inv': "ht_inv h t'" using wf' g31 by (simp add: ht_inv_def)
    from wf_key_slot[OF wf, of k] obtain c bc where
      c: "dir t ! (h k mod 2 ^ ?g) = Some c" "bucket_store t c = Some bc" "slot_ok h t c bc" by blast
    have old: "ExtendibleHashTable_Find h t k = Inr (map_of (bucket_list bc) k)"
      by (rule inv_Find[OF inv c(1,2)])
    show ?thesis
    proof (cases "c = a")
      case False
      have "c < ?n" using c(3) by (simp add: slot_ok_def)
      then have "dir t' ! (h k mod 2 ^ global_depth t') = Some c" "bucket_store t' c = Some bc"
        using key_slot'[of "h k"] c False st_other[of c] by (simp_all add: gd' d' s')
      from inv_Find[OF inv' this] old show ?thesis by simp
    next
      case True
      with c a have bc: "bc = b" by simp
      show ?thesis
      proof (cases "bit (h k) ?d")
        case bt: True
        have "dir t' ! (h k mod 2 ^ global_depth t') = Some (Suc ?n)" "bucket_store t' (Suc ?n) = Some b1"
          using key_slot'[of "h k"] c True bt st1 by (simp_all add: gd' d' s')
        from inv_Find[OF inv' this] old bt bc show ?thesis
          by (simp add: b1_def map_of_filter_key[of "\<lambda>x. bit (h x) ?d"] route_bit_bit)
      next
        case bf: False
        have "dir t' ! (h k mod 2 ^ global_depth t') = Some ?n" "bucket_store t' ?n = Some b0"
          using key_slot'[of "h k"] c True bf st0 by (simp_all add: gd' d' s')
        from inv_Find[OF inv' this] old bf bc show ?thesis
          by (simp add: b0_def map_of_filter_key[of "\<lambda>x. \<not> bit (h x) ?d"] route_bit_bit)
      qed
    qed
  qed
qed

lemma Insert_round_total:
  assumes inv: "ht_inv h t"
  shows "\<exists>x. Insert_round h t key v = Inr x"
proof -
  from inv have wf: "ht_wf h t" and g: "global_depth t < 31" by (simp_all add: ht_inv_def)
  from wf_key_slot[OF wf, of key] obtain a b where
    a: "dir t ! (h key mod 2 ^ global_depth t) = Some a" "bucket_store t a = Some b"
    and ok: "slot_ok h t a b" by blast
  from ok g have "bucket_depth b < 64" by (simp add: slot_ok_def)
  then show ?thesis unfolding Insert_round_unfold[OF inv a]
    by (auto simp: Let_def split: prod.splits bool.splits)
qed

lemma Insert_overflow:
  assumes "31 \<le> global_depth t"
  shows "ExtendibleHashTable_Insert h t key v = Some (Inl ShiftOverflow)"
  using assms
  by (subst ExtendibleHashTable_Insert.simps) (simp add: Insert_round_def IndexOf_def)

lemma Insert_total:
  assumes "ht_inv h t"
  shows "ExtendibleHashTable_Insert h t key v = Some (Inl ShiftOverflow) \<or>
         (\<exists>t'. ExtendibleHashTable_Insert h t key v = Some (Inr t') \<and> ht_inv h t' \<and>
               ExtendibleHashTable_Find h t' key = Inr (Some v) \<and>
               (\<forall>k. k \<noteq> key \<longrightarrow>
                  ExtendibleHashTable_Find h t' k = ExtendibleHashTable_Find h t k) \<and>
               bucket_size t' = bucket_size t \<and> global_depth t \<le> global_depth t')"
  using assms
proof (induction "31 - target_depth h t key" arbitrary: t rule: less_induct)
  case less
  note inv = less.prems
  from Insert_round_total[OF inv, of key v] obtain x where x: "Insert_round h t key v = Inr x"
    by blast
  show ?case
  proof (cases x)
    case (Done t')
    with x have r: "Insert_round h t key v = Inr (Done t')" by simp
    have "ExtendibleHashTable_Insert h t key v = Some (Inr t')"
      by (subst ExtendibleHashTable_Insert.simps) (simp add: r)
    with Insert_round_Done[OF inv r] show ?thesis by simp
  next
    case (Again t1)
    with x have r: "Insert_round h t key v = Inr (Again t1)" by simp
    have unf: "ExtendibleHashTable_Insert h t key v = ExtendibleHashTable_Insert h t1 key v"
      by (subst ExtendibleHashTable_Insert.simps) (simp add: r)
    note again = Insert_round_Again[OF inv r]
    show ?thesis
    proof (cases "global_depth t1 < 31")
      case False
      then have "ExtendibleHashTable_Insert h t1 key v = Some (Inl ShiftOverflow)"
        by (intro Insert_overflow) simp
      with unf show ?thesis by simp
    next
      case True
      with again(1) have inv1: "ht_inv h t1" by (simp add: ht_inv_def)
      from inv have "global_depth t < 31" by (simp add: ht_inv_def)
      with again(3,4) have "31 - target_depth h t1 key < 31 - target_depth h t key" by simp
      from less.hyps[OF this inv1]
      show ?thesis
      proof
        assume "ExtendibleHashTable_Insert h t1 key v = Some (Inl ShiftOverflow)"
        with unf show ?thesis by simp
      next
        assume "\<exists>t'. ExtendibleHashTable_Insert h t1 key v = Some (Inr t') \<and> ht_inv h t' \<and>
               ExtendibleHashTable_Find h t' key = Inr (Some v) \<and>
               (\<forall>k. k \<noteq> key \<longrightarrow>
                  ExtendibleHashTable_Find h t' k = ExtendibleHashTable_Find h t1 k) \<and>
               bucket_size t' = bucket_size t1 \<and> global_depth t1 \<le> global_depth t'"
        then obtain t' where t': "ExtendibleHashTable_Insert h t1 key v = Some (Inr t')"
          "ht_inv h t'" "ExtendibleHashTable_Find h t' key = Inr (Some v)"
          "\<forall>k. k \<noteq> key \<longrightarrow> ExtendibleHashTable_Find h t' k = ExtendibleHashTable_Find h t1 k"
          "bucket_size t' = bucket_size t1" "global_depth t1 \<le> global_depth t'" by blast
        have "\<forall>k. k \<noteq> key \<longrightarrow> ExtendibleHashTable_Find h t' k = ExtendibleHashTable_Find h t k"
          using t'(4) again(2)[OF True] by simp
        moreover have "bucket_size t' = bucket_size t" using t'(5) again(5) by simp
        moreover have "global_depth t \<le> global_depth t'" using t'(6) again(6) by simp
        ultimately show ?thesis using unf t'(1,2,3) by simp
      qed
    qed
  qed
qed

lemma Insert_success:
  assumes "ht_inv h t" "ExtendibleHashTable_Insert h t key v = Some (Inr t')"
  shows "ht_inv h t'" "ExtendibleHashTable_Find h t' key = Inr (Some v)"
    "k \<noteq> key \<Longrightarrow> ExtendibleHashTable_Find h t' k = ExtendibleHashTable_Find h t k"
    "bucket_size t' = bucket_size t" "global_depth t \<le> global_depth t'"
  using Insert_total[OF assms(1), of key v] assms(2) by auto

lemma insert_all_finds:
  assumes "ht_inv h t" "distinct (map fst kvs)" "insert_all h t kvs = Some (Inr t')"
  shows "ht_inv h t' \<and> list_all (\<lambda>(k, v). ExtendibleHashTable_Find h t' k = Inr (Some v)) kvs \<and>
         (\<forall>k. k \<notin> fst ` set kvs \<longrightarrow>
            ExtendibleHashTable_Find h t' k = ExtendibleHashTable_Find h t k) \<and>
         global_depth t \<le> global_depth t'"
  using assms
proof (induction kvs arbitrary: t)
  case Nil
  then show ?case by simp
next
  case (Cons p kvs)
  obtain k v where p: "p = (k, v)" by (cases p)
  from Cons.prems(3) p obtain t1 where
    t1: "ExtendibleHashTable_Insert h t k v = Some (Inr t1)" and rest: "insert_all h t1 kvs = Some (Inr t')"
    by (auto split: option.splits sum.splits)
  note s = Insert_success[OF Cons.prems(1) t1]
  from Cons.prems(2) p have d: "distinct (map fst kvs)" and kn: "k \<notin> fst ` set kvs" by auto
  from Cons.IH[OF s(1) d rest] have
    ih: "ht_inv h t'" "list_all (\<lambda>(k, v). ExtendibleHashTable_Find h t' k = Inr (Some v)) kvs"
      "\<forall>k. k \<notin> fst ` set kvs \<longrightarrow> ExtendibleHashTable_Find h t' k = ExtendibleHashTable_Find h t1 k"
      "global_depth t1 \<le> global_depth t'"
    by simp_all
  have "ExtendibleHashTable_Find h t' k = Inr (Some v)" using ih(3) kn s(2) by simp
  moreover have "\<forall>k'. k' \<notin> fst ` set (p # kvs) \<longrightarrow>
            ExtendibleHashTable_Find h t' k' = ExtendibleHashTable_Find h t k'"
    using ih(3) s(3) p by auto
  moreover have "global_depth t \<le> global_depth t'" using ih(4) s(5) by simp
  ultimately show ?case using ih(1,2) p by simp
qed

lemma remove_first_subset: "set (remove_first key l) \<subseteq> set l"
proof (induction l)
  case Nil then show ?case by simp
next
  case (Cons p l)
  then show ?case by (cases p) (auto split: if_splits)
qed

lemma remove_first_props:
  "length (remove_first key l) \<le> length l"
  "set (remove_first key l) \<subseteq> set l"
  "distinct (map fst l) \<Longrightarrow> distinct (map fst (remove_first key l))"
proof -
  show "length (remove_first key l) \<le> length l" by (induction l) auto
  show "set (remove_first key l) \<subseteq> set l" by (rule remove_first_subset)
  show "distinct (map fst l) \<Longrightarrow> distinct (map fst (remove_first key l))"
  proof (induction l)
    case Nil then show ?case by simp
  next
    case (Cons p l)
    with remove_first_subset[of key l] show ?case by (cases p) (auto simp: image_iff)
  qed
qed

lemma Remove_inv_total:
  assumes inv: "ht_inv h t"
  shows "\<exists>found t'. ExtendibleHashTable_Remove h t key = Inr (found, t') \<and> ht_inv h t'"
proof -
  from inv have wf: "ht_wf h t" and g: "global_depth t < 31" by (simp_all add: ht_inv_def)
  from wf_key_slot[OF wf, of key] obtain a b where
    a: "dir t ! (h key mod 2 ^ global_depth t) = Some a" "bucket_store t a = Some b"
    and ok: "slot_ok h t a b"
    and at: "bucket_at t (h key mod 2 ^ global_depth t) = Inr (a, b)" by blast
  obtain found b' where br: "Bucket_Remove b key = (found, b')" by (cases "Bucket_Remove b key")
  have rm: "ExtendibleHashTable_Remove h t key =
      Inr (found, t\<lparr>bucket_store := (bucket_store t)(a := Some b')\<rparr>)"
    using g at br by (simp add: ExtendibleHashTable_Remove_def IndexOf_mod)
  have b': "b' = b \<or> b' = b\<lparr>bucket_list := remove_first key (bucket_list b)\<rparr>"
    using br by (auto simp: Bucket_Remove_def split: option.splits)
  have "slot_ok h t a b'"
  proof -
    from b' show ?thesis
    proof
      assume "b' = b" with ok show ?thesis by simp
    next
      assume e: "b' = b\<lparr>bucket_list := remove_first key (bucket_list b)\<rparr>"
      have "list_all (\<lambda>(k, v). dir t ! (h k mod 2 ^ global_depth t) = Some a)
              (remove_first key (bucket_list b))"
        using ok remove_first_props(2)[of key "bucket_list b"]
        by (auto simp: slot_ok_def list_all_iff)
      then show ?thesis
        using ok remove_first_props(1)[of key "bucket_list b"]
          remove_first_props(3)[of "bucket_list b" key]
        by (simp add: slot_ok_def e)
    qed
  qed
  from wf_bucket_update[OF wf a(2) this] g
  have "ht_inv h (t\<lparr>bucket_store := (bucket_store t)(a := Some b')\<rparr>)"
    by (simp add: ht_inv_def)
  with rm show ?thesis by blast
qed

text \<open>The states of a table: the constructor's, and those that the operations return.\<close>

inductive ht_reachable ::
    "('k \<Rightarrow> nat) \<Rightarrow> nat \<Rightarrow> ('k, 'v) ExtendibleHashTable \<Rightarrow> bool" for h bsize where
  reach_new: "ht_reachable h bsize (new_ExtendibleHashTable bsize)"
| reach_Insert: "ht_reachable h bsize t \<Longrightarrow>
     ExtendibleHashTable_Insert h t key v = Some (Inr t') \<Longrightarrow> ht_reachable h bsize t'"
| reach_Remove: "ht_reachable h bsize t \<Longrightarrow>
     ExtendibleHashTable_Remove h t key = Inr (found, t') \<Longrightarrow> ht_reachable h bsize t'"

lemma reachable_inv: "ht_reachable h bsize t \<Longrightarrow> ht_inv h t"
proof (induction rule: ht_reachable.induct)
  case reach_new
  show ?case by (rule new_table_inv)
next
  case (reach_Insert t key v t')
  from Insert_success(1)[OF reach_Insert.IH reach_Insert.hyps(2)] show ?case .
next
  case (reach_Remove t key found t')
  from Remove_inv_total[OF reach_Remove.IH, of key] reach_Remove.hyps(2)
  show ?case by auto
qed

subsection \<open>Upsert\<close>

lemma Find_SomeD:
  assumes "ExtendibleHashTable_Find h t key = Inr (Some old)"
  shows "\<exists>a b. global_depth t < 31 \<and> h key mod 2 ^ global_depth t < length (dir t) \<and>
           dir t ! (h key mod 2 ^ global_depth t) = Some a \<and> bucket_store t a = Some b \<and>
           map_of (bucket_list b) key = Some old"
  using assms
  by (auto simp: ExtendibleHashTable_Find_def IndexOf_mod bucket_at_def Bucket_Find_def
      split: if_splits option.splits sum.splits)

lemma Find_store_update_other:
  assumes "bucket_store t a = Some b" "map_of (bucket_list b') k = map_of (bucket_list b) k"
  shows "ExtendibleHashTable_Find h (t\<lparr>bucket_store := (bucket_store t)(a := Some b')\<rparr>) k =
         ExtendibleHashTable_Find h t k"
  using assms
  by (auto simp: ExtendibleHashTable_Find_def IndexOf_mod bucket_at_def Bucket_Find_def
      split: if_splits option.splits sum.splits)

lemma Insert_existing:
  assumes "ExtendibleHashTable_Find h t key = Inr (Some old)"
  shows "\<exists>a b. dir t ! (h key mod 2 ^ global_depth t) = Some a \<and> bucket_store t a = Some b \<and>
           ExtendibleHashTable_Insert h t key v =
             Some (Inr (t\<lparr>bucket_store := (bucket_store t)
                            (a := Some (b\<lparr>bucket_list := AList.update key v (bucket_list b)\<rparr>))\<rparr>)) \<and>
           map fst (AList.update key v (bucket_list b)) = map fst (bucket_list b)"
proof -
  from Find_SomeD[OF assms] obtain a b where
    g: "global_depth t < 31" and lt: "h key mod 2 ^ global_depth t < length (dir t)"
    and a: "dir t ! (h key mod 2 ^ global_depth t) = Some a" "bucket_store t a = Some b"
    and m: "map_of (bucket_list b) key = Some old" by blast
  let ?b' = "b\<lparr>bucket_list := AList.update key v (bucket_list b)\<rparr>"
  have bi: "Bucket_Insert b key v = (True, ?b')" using m by (simp add: Bucket_Insert_def)
  have "Insert_round h t key v = Inr (Done (t\<lparr>bucket_store := (bucket_store t)(a := Some ?b')\<rparr>))"
    using g lt a bi by (simp add: Insert_round_def IndexOf_mod bucket_at_def)
  then have "ExtendibleHashTable_Insert h t key v =
      Some (Inr (t\<lparr>bucket_store := (bucket_store t)(a := Some ?b')\<rparr>))"
    by (subst ExtendibleHashTable_Insert.simps) simp
  moreover have "key \<in> fst ` set (bucket_list b)"
    using map_of_SomeD[OF m] by (force simp: image_iff)
  then have "map fst (AList.update key v (bucket_list b)) = map fst (bucket_list b)"
    by (simp add: update_keys)
  ultimately show ?thesis using a by blast
qed

text \<open>
  Claim C7.  In every state of the table, if \<open>Find\<close> returns a value for \<open>key\<close>, then
  \<open>Insert\<close> of \<open>key\<close> finishes in the first round of its loop without a split: the
  global depth, the number of buckets and the directory are unchanged, the pair is
  overwritten at its position in the bucket's list (whatever the fill of the bucket),
  \<open>Find\<close> then returns the new value, and \<open>Find\<close> of every other key returns what it
  returned before.
\<close>

theorem Insert_existing_key_overwrites:
  assumes "ExtendibleHashTable_Find h t key = Inr (Some old)"
  shows "\<exists>t'. ExtendibleHashTable_Insert h t key v = Some (Inr t') \<and>
           global_depth t' = global_depth t \<and> num_buckets t' = num_buckets t \<and>
           dir t' = dir t \<and> bucket_size t' = bucket_size t \<and>
           (\<exists>a b. bucket_at t (h key mod 2 ^ global_depth t) = Inr (a, b) \<and>
                  bucket_at t' (h key mod 2 ^ global_depth t) =
                    Inr (a, b\<lparr>bucket_list := AList.update key v (bucket_list b)\<rparr>) \<and>
                  map fst (AList.update key v (bucket_list b)) = map fst (bucket_list b)) \<and>
           ExtendibleHashTable_Find h t' key = Inr (Some v) \<and>
           (\<forall>k. k \<noteq> key \<longrightarrow>
              ExtendibleHashTable_Find h t' k = ExtendibleHashTable_Find h t k)"
proof -
  from Insert_existing[OF assms, of v] obtain a b where
    a: "dir t ! (h key mod 2 ^ global_depth t) = Some a" "bucket_store t a = Some b"
    and ins: "ExtendibleHashTable_Insert h t key v =
             Some (Inr (t\<lparr>bucket_store := (bucket_store t)
                            (a := Some (b\<lparr>bucket_list := AList.update key v (bucket_list b)\<rparr>))\<rparr>))"
    and keys: "map fst (AList.update key v (bucket_list b)) = map fst (bucket_list b)" by blast
  let ?b' = "b\<lparr>bucket_list := AList.update key v (bucket_list b)\<rparr>"
  let ?t' = "t\<lparr>bucket_store := (bucket_store t)(a := Some ?b')\<rparr>"
  from Find_SomeD[OF assms] have g: "global_depth t < 31"
    and lt: "h key mod 2 ^ global_depth t < length (dir t)" by auto
  have at: "bucket_at t (h key mod 2 ^ global_depth t) = Inr (a, b)"
    "bucket_at ?t' (h key mod 2 ^ global_depth t) = Inr (a, ?b')"
    using a lt by (simp_all add: bucket_at_def)
  have f: "ExtendibleHashTable_Find h ?t' key = Inr (Some v)"
    using g at(2) by (simp add: ExtendibleHashTable_Find_def IndexOf_mod Bucket_Find_def update_conv')
  have o: "\<forall>k. k \<noteq> key \<longrightarrow>
              ExtendibleHashTable_Find h ?t' k = ExtendibleHashTable_Find h t k"
  proof (intro allI impI)
    fix k assume "k \<noteq> key"
    then have "map_of (bucket_list ?b') k = map_of (bucket_list b) k" by (simp add: update_conv')
    from Find_store_update_other[OF a(2) this]
    show "ExtendibleHashTable_Find h ?t' k = ExtendibleHashTable_Find h t k" .
  qed
  show ?thesis
    using ins at keys f o by (intro exI[of _ ?t']) auto
qed

text \<open>
  Witness for C7: bucket size 2, after \<open>(1,a)\<close> and \<open>(5,b)\<close> the only bucket is full;
  inserting \<open>(1,z)\<close> overwrites.
\<close>

definition full_bucket_table :: "(int, string) ExtendibleHashTable" where
  "full_bucket_table =
     \<lparr>global_depth = 0, bucket_size = 2, num_buckets = 1, dir = [Some 0],
      bucket_store = (\<lambda>a. None)(0 := Some \<lparr>bucket_cap = 2, bucket_depth = 0,
                                           bucket_list = [(1, ''a''), (5, ''b'')]\<rparr>),
      next_ref = 1\<rparr>"

lemma full_bucket_table_built:
  "insert_all std_hash_int (new_ExtendibleHashTable 2) [(1, ''a''), (5, ''b'')] =
     Some (Inr full_bucket_table)"
  by (simp add: ExtendibleHashTable_Insert.simps Insert_round_def IndexOf_mod bucket_at_def
      new_ExtendibleHashTable_def new_Bucket_def Bucket_Insert_def Bucket_IsFull_def
      full_bucket_table_def)

theorem Insert_existing_key_overwrites_witness:
  "ExtendibleHashTable_Find std_hash_int full_bucket_table 1 = Inr (Some ''a'') \<and>
   (\<exists>a b. bucket_at full_bucket_table 0 = Inr (a, b) \<and> Bucket_IsFull b) \<and>
   (\<exists>t'. ExtendibleHashTable_Insert std_hash_int full_bucket_table 1 ''z'' = Some (Inr t') \<and>
         global_depth t' = 0 \<and> num_buckets t' = 1 \<and> dir t' = [Some 0] \<and>
         ExtendibleHashTable_Find std_hash_int t' 1 = Inr (Some ''z'') \<and>
         ExtendibleHashTable_Find std_hash_int t' 5 = Inr (Some ''b''))"
proof -
  have f: "ExtendibleHashTable_Find std_hash_int full_bucket_table 1 = Inr (Some ''a'')"
    by (simp add: ExtendibleHashTable_Find_def IndexOf_mod bucket_at_def Bucket_Find_def
        full_bucket_table_def)
  have f5: "ExtendibleHashTable_Find std_hash_int full_bucket_table 5 = Inr (Some ''b'')"
    by (simp add: ExtendibleHashTable_Find_def IndexOf_mod bucket_at_def Bucket_Find_def
        full_bucket_table_def)
  have full: "\<exists>a b. bucket_at full_bucket_table 0 = Inr (a, b) \<and> Bucket_IsFull b"
    by (simp add: bucket_at_def full_bucket_table_def Bucket_IsFull_def)
  have g: "global_depth full_bucket_table = 0" "num_buckets full_bucket_table = 1"
    "dir full_bucket_table = [Some 0]" by (simp_all add: full_bucket_table_def)
  from Insert_existing_key_overwrites[OF f, of "''z''"] obtain t' where
    "ExtendibleHashTable_Insert std_hash_int full_bucket_table 1 ''z'' = Some (Inr t')"
    "global_depth t' = global_depth full_bucket_table"
    "num_buckets t' = num_buckets full_bucket_table" "dir t' = dir full_bucket_table"
    "ExtendibleHashTable_Find std_hash_int t' 1 = Inr (Some ''z'')"
    "\<forall>k. k \<noteq> 1 \<longrightarrow> ExtendibleHashTable_Find std_hash_int t' k =
        ExtendibleHashTable_Find std_hash_int full_bucket_table k" by blast
  then show ?thesis using f f5 full g by auto
qed

subsection \<open>No key is lost across splits\<close>

lemma scenario_D_eval:
  "(case scenario_D of
      Some (Inr t) \<Rightarrow>
        global_depth t = 3 \<and>
        ExtendibleHashTable_Find std_hash_int t 1 = Inr (Some ''a'') \<and>
        ExtendibleHashTable_Find std_hash_int t 5 = Inr (Some ''b'') \<and>
        ExtendibleHashTable_Find std_hash_int t 9 = Inr (Some ''c'')
    | _ \<Rightarrow> False)"
  unfolding scenario_D_def
  by (simp add: ExtendibleHashTable_Insert.simps Insert_round_def IndexOf_mod bucket_at_def
      new_ExtendibleHashTable_def new_Bucket_def Bucket_Insert_def Bucket_IsFull_def
      ExtendibleHashTable_Find_def Bucket_Find_def repoint_def route_bit_def
      std_hash_int_def size_cast_def Let_def enumerate_eq_zip and_one_eq drop_bit_eq_div)


lemma scenario_D_table:
  "\<exists>t. scenario_D = Some (Inr t) \<and> global_depth t = 3 \<and>
        ExtendibleHashTable_Find std_hash_int t 1 = Inr (Some ''a'') \<and>
        ExtendibleHashTable_Find std_hash_int t 5 = Inr (Some ''b'') \<and>
        ExtendibleHashTable_Find std_hash_int t 9 = Inr (Some ''c'')"
  using scenario_D_eval by (auto split: option.splits sum.splits)

text \<open>
  Claim C8.  After any sequence of inserts with distinct keys into a new table, each of
  which returns (the model's \<open>Insert\<close> returns an error instead when a chain of
  splits drives the global depth to 31, where the shift in \<open>IndexOf\<close> overflows),
  \<open>Find\<close> returns the inserted value for every inserted key, whatever the hash function
  and however many doublings and splits occurred.  In particular, with bucket size 2 and
  the identity hash, after inserting \<open>(1,a), (5,b), (9,c)\<close> the global depth is at least
  1 (it is 3) and each key is found with its value.
\<close>

theorem no_inserted_key_lost:
  "(\<forall>h bsize kvs t.
      distinct (map fst kvs) \<and> insert_all h (new_ExtendibleHashTable bsize) kvs = Some (Inr t) \<longrightarrow>
      list_all (\<lambda>(k, v). ExtendibleHashTable_Find h t k = Inr (Some v)) kvs) \<and>
   (\<exists>t. scenario_D = Some (Inr t) \<and> 1 \<le> global_depth t \<and>
        ExtendibleHashTable_Find std_hash_int t 1 = Inr (Some ''a'') \<and>
        ExtendibleHashTable_Find std_hash_int t 5 = Inr (Some ''b'') \<and>
        ExtendibleHashTable_Find std_hash_int t 9 = Inr (Some ''c''))"
proof (intro conjI allI impI)
  fix h :: "'a \<Rightarrow> nat" and bsize and kvs :: "('a \<times> 'b) list" and t
  assume "distinct (map fst kvs) \<and> insert_all h (new_ExtendibleHashTable bsize) kvs = Some (Inr t)"
  then have d: "distinct (map fst kvs)"
    and i: "insert_all h (new_ExtendibleHashTable bsize) kvs = Some (Inr t)" by simp_all
  from insert_all_finds[OF new_table_inv d i]
  show "list_all (\<lambda>(k, v). ExtendibleHashTable_Find h t k = Inr (Some v)) kvs" by simp
next
  from scenario_D_table obtain t where "scenario_D = Some (Inr t)" "global_depth t = 3"
    "ExtendibleHashTable_Find std_hash_int t 1 = Inr (Some ''a'')"
    "ExtendibleHashTable_Find std_hash_int t 5 = Inr (Some ''b'')"
    "ExtendibleHashTable_Find std_hash_int t 9 = Inr (Some ''c'')" by blast
  then show "\<exists>t. scenario_D = Some (Inr t) \<and> 1 \<le> global_depth t \<and>
        ExtendibleHashTable_Find std_hash_int t 1 = Inr (Some ''a'') \<and>
        ExtendibleHashTable_Find std_hash_int t 5 = Inr (Some ''b'') \<and>
        ExtendibleHashTable_Find std_hash_int t 9 = Inr (Some ''c'')"
    by (intro exI[of _ t]) simp
qed

text \<open>
  Witness for C8: bucket size 1, keys 2, 3 and 6.  Keys 2 and 6 agree in their two low
  bits, so the inserts split twice and double the directory up to depth 3.
\<close>

definition split_example :: "(ht_error + (int, string) ExtendibleHashTable) option" where
  "split_example =
     insert_all std_hash_int (new_ExtendibleHashTable 1) [(2, ''x''), (3, ''y''), (6, ''z'')]"

lemma split_example_eval:
  "(case split_example of Some (Inr t) \<Rightarrow> global_depth t = 3 \<and> num_buckets t = 4 | _ \<Rightarrow> False)"
  unfolding split_example_def
  by (simp add: ExtendibleHashTable_Insert.simps Insert_round_def IndexOf_mod bucket_at_def
      new_ExtendibleHashTable_def new_Bucket_def Bucket_Insert_def Bucket_IsFull_def
      repoint_def route_bit_def
      std_hash_int_def size_cast_def Let_def enumerate_eq_zip and_one_eq drop_bit_eq_div)

theorem no_inserted_key_lost_witness:
  "distinct (map fst [(2::int, ''x''), (3, ''y''), (6, ''z'')]) \<and>
   (\<exists>t. insert_all std_hash_int (new_ExtendibleHashTable 1) [(2, ''x''), (3, ''y''), (6, ''z'')] =
           Some (Inr t) \<and> global_depth t = 3 \<and>
        list_all (\<lambda>(k, v). ExtendibleHashTable_Find std_hash_int t k = Inr (Some v))
          [(2, ''x''), (3, ''y''), (6, ''z'')])"
proof -
  have d: "distinct (map fst [(2::int, ''x''), (3, ''y''), (6, ''z'')])" by simp
  from split_example_eval obtain t where
    t: "insert_all std_hash_int (new_ExtendibleHashTable 1) [(2, ''x''), (3, ''y''), (6, ''z'')] =
           Some (Inr t)" and g: "global_depth t = 3"
    unfolding split_example_def by (auto split: option.splits sum.splits)
  from no_inserted_key_lost d t
  have "list_all (\<lambda>(k, v). ExtendibleHashTable_Find std_hash_int t k = Inr (Some v))
          [(2, ''x''), (3, ''y''), (6, ''z'')]" by blast
  with d t g show ?thesis by blast
qed

subsection \<open>The directory is never indexed out of range\<close>

lemma inv_safe:
  assumes inv: "ht_inv h t"
  shows "length (dir t) = 2 ^ global_depth t \<and>
         list_all (\<lambda>ref. case ref of None \<Rightarrow> False | Some a \<Rightarrow> bucket_store t a \<noteq> None) (dir t) \<and>
         (\<exists>i. IndexOf h t key = Inr i \<and> i < length (dir t)) \<and>
         (\<exists>r. ExtendibleHashTable_Find h t key = Inr r) \<and>
         (\<exists>r. ExtendibleHashTable_Remove h t key = Inr r) \<and>
         (\<exists>r. ExtendibleHashTable_Insert h t key v = Some r \<and>
              r \<noteq> Inl DirOutOfRange \<and> r \<noteq> Inl NullBucket)"
proof -
  from inv have wf: "ht_wf h t" and g: "global_depth t < 31" by (simp_all add: ht_inv_def)
  from wf have len: "length (dir t) = 2 ^ global_depth t" by (simp add: ht_wf_def)
  have nonnull: "list_all (\<lambda>ref. case ref of None \<Rightarrow> False | Some a \<Rightarrow> bucket_store t a \<noteq> None) (dir t)"
    unfolding list_all_length
  proof (intro allI impI)
    fix i assume "i < length (dir t)"
    from wf_slot[OF wf this]
    show "case dir t ! i of None \<Rightarrow> False | Some a \<Rightarrow> bucket_store t a \<noteq> None" by auto
  qed
  have idx: "\<exists>i. IndexOf h t key = Inr i \<and> i < length (dir t)"
    using g len by (simp add: IndexOf_mod)
  from wf_key_slot[OF wf, of key] obtain a b where
    a: "dir t ! (h key mod 2 ^ global_depth t) = Some a" "bucket_store t a = Some b" by blast
  have find: "\<exists>r. ExtendibleHashTable_Find h t key = Inr r"
    using inv_Find[OF inv a] by simp
  have rm: "\<exists>r. ExtendibleHashTable_Remove h t key = Inr r"
    using Remove_inv_total[OF inv, of key] by auto
  have ins: "\<exists>r. ExtendibleHashTable_Insert h t key v = Some r \<and>
              r \<noteq> Inl DirOutOfRange \<and> r \<noteq> Inl NullBucket"
    using Insert_total[OF inv, of key v] by auto
  from len nonnull idx find rm ins show ?thesis by blast
qed

text \<open>
  Claim C10.  In every state of the table that the constructor, \<open>Insert\<close> and \<open>Remove\<close>
  produce, the directory has exactly \<open>2 ^ global_depth\<close> slots and every slot points to
  a bucket.  So for every key \<open>IndexOf\<close> is a valid index of the directory; \<open>Find\<close>
  and \<open>Remove\<close> return without an error; and \<open>Insert\<close> returns, never out of the
  directory's range and never through a null pointer.
\<close>

theorem reachable_directory_access_in_range:
  assumes "ht_reachable h bsize t"
  shows "length (dir t) = 2 ^ global_depth t \<and>
         list_all (\<lambda>ref. case ref of None \<Rightarrow> False | Some a \<Rightarrow> bucket_store t a \<noteq> None) (dir t) \<and>
         (\<exists>i. IndexOf h t key = Inr i \<and> i < length (dir t)) \<and>
         (\<exists>r. ExtendibleHashTable_Find h t key = Inr r) \<and>
         (\<exists>r. ExtendibleHashTable_Remove h t key = Inr r) \<and>
         (\<exists>r. ExtendibleHashTable_Insert h t key v = Some r \<and>
              r \<noteq> Inl DirOutOfRange \<and> r \<noteq> Inl NullBucket)"
  using inv_safe[OF reachable_inv[OF assms]] .

text \<open>Witness for C10: the freshly constructed table with bucket size 2, key 1.\<close>

theorem reachable_directory_access_in_range_witness:
  "ht_reachable std_hash_int 2 (new_ExtendibleHashTable 2 :: (int, string) ExtendibleHashTable) \<and>
   length (dir (new_ExtendibleHashTable 2 :: (int, string) ExtendibleHashTable)) = 1 \<and>
   IndexOf std_hash_int (new_ExtendibleHashTable 2 :: (int, string) ExtendibleHashTable) 1 = Inr 0 \<and>
   ExtendibleHashTable_Find std_hash_int
     (new_ExtendibleHashTable 2 :: (int, string) ExtendibleHashTable) 1 = Inr None \<and>
   (\<exists>r. ExtendibleHashTable_Remove std_hash_int
          (new_ExtendibleHashTable 2 :: (int, string) ExtendibleHashTable) 1 = Inr r) \<and>
   (\<exists>r. ExtendibleHashTable_Insert std_hash_int
          (new_ExtendibleHashTable 2 :: (int, string) ExtendibleHashTable) 1 ''a'' = Some r \<and>
        r \<noteq> Inl DirOutOfRange \<and> r \<noteq> Inl NullBucket)"
proof -
  let ?t = "new_ExtendibleHashTable 2 :: (int, string) ExtendibleHashTable"
  have r: "ht_reachable std_hash_int 2 ?t" by (rule reach_new)
  have e: "length (dir ?t) = 1" "IndexOf std_hash_int ?t 1 = Inr 0"
    "ExtendibleHashTable_Find std_hash_int ?t 1 = Inr None"
    by (simp_all add: new_ExtendibleHashTable_def IndexOf_mod ExtendibleHashTable_Find_def
        bucket_at_def Bucket_Find_def new_Bucket_def)
  from reachable_directory_access_in_range[OF r, of 1 "''a''"] r e show ?thesis by blast
qed


section \<open>Buffer pool manager (src/buffer/buffer\_pool\_manager\_instance.cpp)\<close>

text \<open>
  A page of the pool: its bytes and its metadata.  The bytes are a value of any type
  with a zero, the image that \<open>ResetMemory\<close> leaves (a byte array read as a number in
  base 256 is one such type).
\<close>

record 'd Page =
  page_data :: 'd
  page_id :: page_id_t
  pin_count :: int
  is_dirty :: bool

definition INVALID_PAGE_ID :: page_id_t where
  "INVALID_PAGE_ID = - 1"

text \<open>
  The disk manager is outside the repository's core.  It is modelled by the contents of
  the stable storage and by the log of the calls it observes, oldest first.
\<close>

datatype 'd disk_call = WritePage page_id_t 'd | ReadPage page_id_t

record 'd BufferPoolManagerInstance =
  pool_size :: nat
  pages :: "'d Page list"
  page_table :: "(page_id_t, frame_id_t) ExtendibleHashTable"
  replacer :: LRUKReplacer
  free_list :: "frame_id_t list"
  next_page_id :: page_id_t
  disk :: "page_id_t \<Rightarrow> 'd"
  disk_log :: "'d disk_call list"

datatype bpm_error = HashTableError ht_error | ReplacerError replacer_error | FrameOutOfRange

definition new_Page :: "'d::zero Page" where
  "new_Page = \<lparr>page_data = 0, page_id = INVALID_PAGE_ID, pin_count = 0, is_dirty = False\<rparr>"

text \<open>
  The constructor.  \<open>bucket_size_\<close> is a constant of the header, which is not among the
  sources; it is the parameter \<open>bsize\<close>.
\<close>

definition new_BufferPoolManagerInstance ::
    "nat \<Rightarrow> nat \<Rightarrow> nat \<Rightarrow> (page_id_t \<Rightarrow> 'd) \<Rightarrow> 'd::zero BufferPoolManagerInstance" where
  "new_BufferPoolManagerInstance psize replacer_k bsize stored =
     \<lparr>pool_size = psize,
      pages = replicate psize new_Page,
      page_table = new_ExtendibleHashTable bsize,
      replacer = new_LRUKReplacer psize replacer_k,
      free_list = map int [0..<psize],
      next_page_id = 0,
      disk = stored,
      disk_log = []\<rparr>"

definition disk_WritePage ::
    "'d BufferPoolManagerInstance \<Rightarrow> page_id_t \<Rightarrow> 'd \<Rightarrow> 'd BufferPoolManagerInstance" where
  "disk_WritePage bpm pid bytes =
     bpm\<lparr>disk := (disk bpm)(pid := bytes), disk_log := disk_log bpm @ [WritePage pid bytes]\<rparr>"

text \<open>\<open>pages_[frame_id]\<close>: an index outside the array is an error of the model.\<close>

definition frame_in_range :: "'d BufferPoolManagerInstance \<Rightarrow> frame_id_t \<Rightarrow> bool" where
  "frame_in_range bpm f \<longleftrightarrow> 0 \<le> f \<and> nat f < length (pages bpm)"

definition set_frame ::
    "'d BufferPoolManagerInstance \<Rightarrow> frame_id_t \<Rightarrow> 'd Page \<Rightarrow> 'd BufferPoolManagerInstance" where
  "set_frame bpm f p = bpm\<lparr>pages := (pages bpm)[nat f := p]\<rparr>"

text \<open>
  The block that \<open>NewPgImp\<close> and \<open>FetchPgImp\<close> share word for word: take a frame from
  the free list, else evict one, write its page out if it is dirty, and remove that page
  from the page table.  The result is \<open>None\<close> when no frame is available.
\<close>

definition obtain_frame ::
    "'d BufferPoolManagerInstance \<Rightarrow>
     bpm_error + frame_id_t option \<times> 'd BufferPoolManagerInstance" where
  "obtain_frame bpm =
     (case free_list bpm of
        f # rest \<Rightarrow> Inr (Some f, bpm\<lparr>free_list := rest\<rparr>)
      | [] \<Rightarrow>
          (case LRUKReplacer_Evict (replacer bpm) of
             Inl e \<Rightarrow> Inl (ReplacerError e)
           | Inr (None, r) \<Rightarrow> Inr (None, bpm\<lparr>replacer := r\<rparr>)
           | Inr (Some f, r) \<Rightarrow>
               if \<not> frame_in_range bpm f then Inl FrameOutOfRange
               else
                 let victim = pages bpm ! nat f;
                     bpm1 = bpm\<lparr>replacer := r\<rparr>;
                     bpm2 = (if is_dirty victim
                             then disk_WritePage bpm1 (page_id victim) (page_data victim)
                             else bpm1)
                 in (case ExtendibleHashTable_Remove std_hash_int (page_table bpm2) (page_id victim) of
                       Inl e \<Rightarrow> Inl (HashTableError e)
                     | Inr (found, pt) \<Rightarrow> Inr (Some f, bpm2\<lparr>page_table := pt\<rparr>))))"

text \<open>
  \<open>NewPgImp\<close>.  The outer \<open>option\<close> is \<open>None\<close> when the loop of the page table's
  \<open>Insert\<close> does not return; \<open>Inr (None, _)\<close> is the null pointer the source returns
  when no frame is available; \<open>Inr (Some (pid, f), _)\<close> is the new page id and the frame
  of the returned page.
\<close>

definition NewPgImp ::
    "'d::zero BufferPoolManagerInstance \<Rightarrow>
     (bpm_error + (page_id_t \<times> frame_id_t) option \<times> 'd BufferPoolManagerInstance) option" where
  "NewPgImp bpm =
     (case obtain_frame bpm of
        Inl e \<Rightarrow> Some (Inl e)
      | Inr (None, bpm1) \<Rightarrow> Some (Inr (None, bpm1))
      | Inr (Some f, bpm1) \<Rightarrow>
          if \<not> frame_in_range bpm1 f then Some (Inl FrameOutOfRange)
          else
            let pid = next_page_id bpm1;
                bpm2 = bpm1\<lparr>next_page_id := pid + 1\<rparr>;
                bpm3 = set_frame bpm2 f
                         \<lparr>page_data = 0, page_id = pid, pin_count = 1, is_dirty = False\<rparr>
            in (case ExtendibleHashTable_Insert std_hash_int (page_table bpm3) pid f of
                  None \<Rightarrow> None
                | Some (Inl e) \<Rightarrow> Some (Inl (HashTableError e))
                | Some (Inr pt) \<Rightarrow>
                    Some (Inr (Some (pid, f),
                      bpm3\<lparr>page_table := pt,
                           replacer := LRUKReplacer_SetEvictable
                                         (LRUKReplacer_RecordAccess (replacer bpm3) f) f False\<rparr>))))"

definition FetchPgImp ::
    "'d::zero BufferPoolManagerInstance \<Rightarrow> page_id_t \<Rightarrow>
     (bpm_error + frame_id_t option \<times> 'd BufferPoolManagerInstance) option" where
  "FetchPgImp bpm pid =
     (case ExtendibleHashTable_Find std_hash_int (page_table bpm) pid of
        Inl e \<Rightarrow> Some (Inl (HashTableError e))
      | Inr (Some f) \<Rightarrow>
          if \<not> frame_in_range bpm f then Some (Inl FrameOutOfRange)
          else
            let p = pages bpm ! nat f;
                bpm1 = set_frame bpm f (p\<lparr>pin_count := pin_count p + 1\<rparr>)
            in Some (Inr (Some f,
                 bpm1\<lparr>replacer := LRUKReplacer_SetEvictable
                                     (LRUKReplacer_RecordAccess (replacer bpm1) f) f False\<rparr>))
      | Inr None \<Rightarrow>
          (case obtain_frame bpm of
             Inl e \<Rightarrow> Some (Inl e)
           | Inr (None, bpm1) \<Rightarrow> Some (Inr (None, bpm1))
           | Inr (Some f, bpm1) \<Rightarrow>
               if \<not> frame_in_range bpm1 f then Some (Inl FrameOutOfRange)
               else
                 let bpm2 = set_frame bpm1 f
                              \<lparr>page_data = disk bpm1 pid, page_id = pid, pin_count = 1,
                               is_dirty = False\<rparr>;
                     bpm3 = bpm2\<lparr>disk_log := disk_log bpm2 @ [ReadPage pid]\<rparr>
                 in (case ExtendibleHashTable_Insert std_hash_int (page_table bpm3) pid f of
                       None \<Rightarrow> None
                     | Some (Inl e) \<Rightarrow> Some (Inl (HashTableError e))
                     | Some (Inr pt) \<Rightarrow>
                         Some (Inr (Some f,
                           bpm3\<lparr>page_table := pt,
                                replacer := LRUKReplacer_SetEvictable
                                              (LRUKReplacer_RecordAccess (replacer bpm3) f) f False\<rparr>)))))"

definition UnpinPgImp ::
    "'d BufferPoolManagerInstance \<Rightarrow> page_id_t \<Rightarrow> bool \<Rightarrow>
     bpm_error + bool \<times> 'd BufferPoolManagerInstance" where
  "UnpinPgImp bpm pid dirty =
     (case ExtendibleHashTable_Find std_hash_int (page_table bpm) pid of
        Inl e \<Rightarrow> Inl (HashTableError e)
      | Inr None \<Rightarrow> Inr (False, bpm)
      | Inr (Some f) \<Rightarrow>
          if \<not> frame_in_range bpm f then Inl FrameOutOfRange
          else
            let p = pages bpm ! nat f
            in if pin_count p \<le> 0 then Inr (False, bpm)
               else
                 let p1 = p\<lparr>pin_count := pin_count p - 1\<rparr>;
                     p2 = (if dirty then p1\<lparr>is_dirty := True\<rparr> else p1);
                     bpm1 = set_frame bpm f p2
                 in Inr (True,
                      if pin_count p2 = 0
                      then bpm1\<lparr>replacer := LRUKReplacer_SetEvictable (replacer bpm1) f True\<rparr>
                      else bpm1))"

definition FlushPgImp ::
    "'d BufferPoolManagerInstance \<Rightarrow> page_id_t \<Rightarrow>
     bpm_error + bool \<times> 'd BufferPoolManagerInstance" where
  "FlushPgImp bpm pid =
     (case ExtendibleHashTable_Find std_hash_int (page_table bpm) pid of
        Inl e \<Rightarrow> Inl (HashTableError e)
      | Inr None \<Rightarrow> Inr (False, bpm)
      | Inr (Some f) \<Rightarrow>
          if \<not> frame_in_range bpm f then Inl FrameOutOfRange
          else
            let p = pages bpm ! nat f;
                bpm1 = disk_WritePage bpm pid (page_data p)
            in Inr (True, set_frame bpm1 f (p\<lparr>is_dirty := False\<rparr>)))"

fun flush_frames ::
    "'d BufferPoolManagerInstance \<Rightarrow> nat list \<Rightarrow> 'd BufferPoolManagerInstance" where
  "flush_frames bpm [] = bpm"
| "flush_frames bpm (i # rest) =
     (let p = pages bpm ! i
      in if page_id p \<noteq> INVALID_PAGE_ID \<and> is_dirty p
         then flush_frames
                (set_frame (disk_WritePage bpm (page_id p) (page_data p)) (int i)
                   (p\<lparr>is_dirty := False\<rparr>)) rest
         else flush_frames bpm rest)"

definition FlushAllPgsImp :: "'d BufferPoolManagerInstance \<Rightarrow> 'd BufferPoolManagerInstance" where
  "FlushAllPgsImp bpm = flush_frames bpm [0..<min (pool_size bpm) (length (pages bpm))]"

definition DeletePgImp ::
    "'d::zero BufferPoolManagerInstance \<Rightarrow> page_id_t \<Rightarrow>
     bpm_error + bool \<times> 'd BufferPoolManagerInstance" where
  "DeletePgImp bpm pid =
     (case ExtendibleHashTable_Find std_hash_int (page_table bpm) pid of
        Inl e \<Rightarrow> Inl (HashTableError e)
      | Inr None \<Rightarrow> Inr (True, bpm)
      | Inr (Some f) \<Rightarrow>
          if \<not> frame_in_range bpm f then Inl FrameOutOfRange
          else if pin_count (pages bpm ! nat f) > 0 then Inr (False, bpm)
          else
            (case ExtendibleHashTable_Remove std_hash_int (page_table bpm) pid of
               Inl e \<Rightarrow> Inl (HashTableError e)
             | Inr (found, pt) \<Rightarrow>
                 let bpm1 = bpm\<lparr>page_table := pt,
                                replacer := LRUKReplacer_Remove (replacer bpm) f\<rparr>;
                     bpm2 = set_frame bpm1 f new_Page
                 in Inr (True, bpm2\<lparr>free_list := free_list bpm2 @ [f]\<rparr>)))"

text \<open>
  A caller that holds a pinned page writes to its bytes through the returned pointer.
\<close>

definition write_page_data ::
    "'d BufferPoolManagerInstance \<Rightarrow> frame_id_t \<Rightarrow> 'd \<Rightarrow> 'd BufferPoolManagerInstance" where
  "write_page_data bpm f bytes = set_frame bpm f ((pages bpm ! nat f)\<lparr>page_data := bytes\<rparr>)"

text \<open>
  Scenario C: pool size 1 (K = 2, bucket size 4, an empty disk); \<open>NewPgImp\<close> gives
  \<open>p0\<close>; the caller writes \<open>bytes\<close> to it and unpins it dirty; \<open>NewPgImp\<close> again.
\<close>

definition scenario_C ::
    "'d::zero \<Rightarrow> (bpm_error + (page_id_t \<times> frame_id_t) option \<times> 'd BufferPoolManagerInstance) option" where
  "scenario_C bytes =
     (case NewPgImp (new_BufferPoolManagerInstance 1 2 4 (\<lambda>p. 0)) of
        Some (Inr (Some (p0, f0), bpm1)) \<Rightarrow>
          (case UnpinPgImp (write_page_data bpm1 f0 bytes) p0 True of
             Inr (True, bpm2) \<Rightarrow> NewPgImp bpm2
           | _ \<Rightarrow> None)
      | _ \<Rightarrow> None)"

lemma obtain_frame_evict:
  assumes fl: "free_list bpm = []"
    and ev: "LRUKReplacer_Evict (replacer bpm) = Inr (Some f, r)"
    and ob: "obtain_frame bpm = Inr (res, bpm1)"
  shows "res = Some f \<and> frame_in_range bpm f \<and> pages bpm1 = pages bpm \<and>
         next_page_id bpm1 = next_page_id bpm \<and>
         disk_log bpm1 = disk_log bpm @
           (if is_dirty (pages bpm ! nat f)
            then [WritePage (page_id (pages bpm ! nat f)) (page_data (pages bpm ! nat f))]
            else []) \<and>
         disk bpm1 = (if is_dirty (pages bpm ! nat f)
                      then (disk bpm)(page_id (pages bpm ! nat f) := page_data (pages bpm ! nat f))
                      else disk bpm)"
  using ob unfolding obtain_frame_def fl ev
  by (auto simp: Let_def disk_WritePage_def split: if_splits sum.splits prod.splits)

lemma NewPgImp_evict:
  assumes fl: "free_list bpm = []"
    and ev: "LRUKReplacer_Evict (replacer bpm) = Inr (Some f, r)"
    and np: "NewPgImp bpm = Some (Inr (Some (pid, g), bpm'))"
  shows "g = f \<and> pid = next_page_id bpm \<and>
         disk_log bpm' = disk_log bpm @
           (if is_dirty (pages bpm ! nat f)
            then [WritePage (page_id (pages bpm ! nat f)) (page_data (pages bpm ! nat f))]
            else []) \<and>
         pages bpm' ! nat f = \<lparr>page_data = 0, page_id = pid, pin_count = 1, is_dirty = False\<rparr>"
proof -
  from np obtain res bpm1 where ob: "obtain_frame bpm = Inr (res, bpm1)"
    by (auto simp: NewPgImp_def split: sum.splits)
  note o = obtain_frame_evict[OF fl ev ob]
  from o have res: "res = Some f" and inr: "frame_in_range bpm f" and pg: "pages bpm1 = pages bpm" by simp_all
  then have inr1: "frame_in_range bpm1 f" by (simp add: frame_in_range_def)
  then have lt: "nat f < length (pages bpm1)" by (simp add: frame_in_range_def)
  from np ob res inr1 lt o show ?thesis
    by (auto simp: NewPgImp_def Let_def set_frame_def split: option.splits sum.splits)
qed

lemma FetchPgImp_evict:
  assumes fl: "free_list bpm = []"
    and ev: "LRUKReplacer_Evict (replacer bpm) = Inr (Some f, r)"
    and nf: "ExtendibleHashTable_Find std_hash_int (page_table bpm) pid = Inr None"
    and fp: "FetchPgImp bpm pid = Some (Inr (Some g, bpm'))"
  shows "g = f \<and>
         disk_log bpm' = disk_log bpm @
           (if is_dirty (pages bpm ! nat f)
            then [WritePage (page_id (pages bpm ! nat f)) (page_data (pages bpm ! nat f))]
            else []) @ [ReadPage pid] \<and>
         page_id (pages bpm' ! nat f) = pid \<and> pin_count (pages bpm' ! nat f) = 1 \<and>
         \<not> is_dirty (pages bpm' ! nat f)"
proof -
  from fp nf obtain res bpm1 where ob: "obtain_frame bpm = Inr (res, bpm1)"
    by (auto simp: FetchPgImp_def split: sum.splits)
  note o = obtain_frame_evict[OF fl ev ob]
  from o have res: "res = Some f" and inr: "frame_in_range bpm f" and pg: "pages bpm1 = pages bpm" by simp_all
  then have inr1: "frame_in_range bpm1 f" by (simp add: frame_in_range_def)
  then have lt: "nat f < length (pages bpm1)" by (simp add: frame_in_range_def)
  from fp nf ob res inr1 lt o show ?thesis
    by (auto simp: FetchPgImp_def Let_def set_frame_def split: option.splits sum.splits)
qed

lemma scenario_C_eval:
  "case scenario_C bytes of
     Some (Inr (Some (p1, f1), bpm)) \<Rightarrow>
       p1 = 1 \<and> f1 = 0 \<and> disk_log bpm = [WritePage 0 bytes] \<and>
       pages bpm = [\<lparr>page_data = 0, page_id = 1, pin_count = 1, is_dirty = False\<rparr>]
   | _ \<Rightarrow> False"
  unfolding scenario_C_def
  by (simp add: NewPgImp_def new_BufferPoolManagerInstance_def obtain_frame_def frame_in_range_def
      new_Page_def set_frame_def Let_def write_page_data_def UnpinPgImp_def disk_WritePage_def
      ExtendibleHashTable_Insert.simps Insert_round_def IndexOf_mod bucket_at_def
      new_ExtendibleHashTable_def new_Bucket_def Bucket_Insert_def Bucket_IsFull_def
      ExtendibleHashTable_Find_def Bucket_Find_def ExtendibleHashTable_Remove_def Bucket_Remove_def
      std_hash_int_def size_cast_def
      new_LRUKReplacer_def LRUKReplacer_RecordAccess_def LRUKReplacer_SetEvictable_def
      LRUKReplacer_Evict_def new_FrameInfo_def size_inc_def size_dec_def SIZE_MAX_def size_sub_def)

lemma scenario_C_log:
  "\<exists>bpm. scenario_C bytes = Some (Inr (Some (1, 0), bpm)) \<and>
         disk_log bpm = [WritePage 0 bytes] \<and>
         pages bpm = [\<lparr>page_data = 0, page_id = 1, pin_count = 1, is_dirty = False\<rparr>]"
  using scenario_C_eval[of bytes] by (auto split: option.splits sum.splits prod.splits)

text \<open>
  Claim C6.  Whenever \<open>NewPgImp\<close> or \<open>FetchPgImp\<close> returns a page whose frame came from
  the replacer (the free list is empty and \<open>Evict\<close> names frame \<open>f\<close>), the calls the disk
  manager has observed grow by exactly: \<open>WritePage\<close> of the victim's page id and of the
  bytes the frame held before the call, if the victim was dirty, and no write if it was
  clean; for \<open>FetchPgImp\<close> then the \<open>ReadPage\<close> of the fetched page.  The frame holds
  the new page afterwards.  The written bytes are those of the victim, so the write
  is issued before the frame is reset for its new page.  In particular, with pool size 1,
  after \<open>NewPgImp\<close> (page 0), writing \<open>bytes\<close>, unpinning dirty, and \<open>NewPgImp\<close> again
  (page 1), the disk has observed \<open>WritePage 0 bytes\<close> and frame 0 holds page 1.
\<close>

theorem dirty_victim_written_before_frame_reuse:
  "(\<forall>bpm f r pid g bpm'.
      free_list bpm = [] \<and> LRUKReplacer_Evict (replacer bpm) = Inr (Some f, r) \<and>
      NewPgImp bpm = Some (Inr (Some (pid, g), bpm')) \<longrightarrow>
      g = f \<and>
      disk_log bpm' = disk_log bpm @
        (if is_dirty (pages bpm ! nat f)
         then [WritePage (page_id (pages bpm ! nat f)) (page_data (pages bpm ! nat f))]
         else []) \<and>
      pages bpm' ! nat f = \<lparr>page_data = 0, page_id = pid, pin_count = 1, is_dirty = False\<rparr>) \<and>
   (\<forall>bpm f r pid g bpm'.
      free_list bpm = [] \<and> LRUKReplacer_Evict (replacer bpm) = Inr (Some f, r) \<and>
      ExtendibleHashTable_Find std_hash_int (page_table bpm) pid = Inr None \<and>
      FetchPgImp bpm pid = Some (Inr (Some g, bpm')) \<longrightarrow>
      g = f \<and>
      disk_log bpm' = disk_log bpm @
        (if is_dirty (pages bpm ! nat f)
         then [WritePage (page_id (pages bpm ! nat f)) (page_data (pages bpm ! nat f))]
         else []) @ [ReadPage pid] \<and>
      page_id (pages bpm' ! nat f) = pid) \<and>
   (\<forall>bytes. \<exists>bpm. scenario_C bytes = Some (Inr (Some (1, 0), bpm)) \<and>
         disk_log bpm = [WritePage 0 bytes] \<and>
         pages bpm = [\<lparr>page_data = 0, page_id = 1, pin_count = 1, is_dirty = False\<rparr>])"
proof (intro conjI allI impI)
  fix bpm :: "'a::zero BufferPoolManagerInstance" and f r pid g bpm'
  assume "free_list bpm = [] \<and> LRUKReplacer_Evict (replacer bpm) = Inr (Some f, r) \<and>
      NewPgImp bpm = Some (Inr (Some (pid, g), bpm'))"
  then have a: "free_list bpm = []" "LRUKReplacer_Evict (replacer bpm) = Inr (Some f, r)"
    "NewPgImp bpm = Some (Inr (Some (pid, g), bpm'))" by simp_all
  from NewPgImp_evict[OF a] show "g = f"
    "disk_log bpm' = disk_log bpm @
        (if is_dirty (pages bpm ! nat f)
         then [WritePage (page_id (pages bpm ! nat f)) (page_data (pages bpm ! nat f))]
         else [])"
    "pages bpm' ! nat f = \<lparr>page_data = 0, page_id = pid, pin_count = 1, is_dirty = False\<rparr>"
    by simp_all
next
  fix bpm :: "'b::zero BufferPoolManagerInstance" and f r pid g bpm'
  assume "free_list bpm = [] \<and> LRUKReplacer_Evict (replacer bpm) = Inr (Some f, r) \<and>
      ExtendibleHashTable_Find std_hash_int (page_table bpm) pid = Inr None \<and>
      FetchPgImp bpm pid = Some (Inr (Some g, bpm'))"
  then have a: "free_list bpm = []" "LRUKReplacer_Evict (replacer bpm) = Inr (Some f, r)"
    "ExtendibleHashTable_Find std_hash_int (page_table bpm) pid = Inr None"
    "FetchPgImp bpm pid = Some (Inr (Some g, bpm'))" by simp_all
  from FetchPgImp_evict[OF a] show "g = f"
    "disk_log bpm' = disk_log bpm @
        (if is_dirty (pages bpm ! nat f)
         then [WritePage (page_id (pages bpm ! nat f)) (page_data (pages bpm ! nat f))]
         else []) @ [ReadPage pid]"
    "page_id (pages bpm' ! nat f) = pid"
    by simp_all
next
  fix bytes :: "'c::zero"
  show "\<exists>bpm. scenario_C bytes = Some (Inr (Some (1, 0), bpm)) \<and>
         disk_log bpm = [WritePage 0 bytes] \<and>
         pages bpm = [\<lparr>page_data = 0, page_id = 1, pin_count = 1, is_dirty = False\<rparr>]"
    by (rule scenario_C_log)
qed

text \<open>
  Witness for C6: a pool of two frames whose pages 0 and 1 were both unpinned, page 0
  dirty with bytes 7 and page 1 clean; \<open>FetchPgImp\<close> of page 5 evicts frame 0 and writes
  page 0 first.
\<close>

definition two_frame_pool :: "nat BufferPoolManagerInstance" where
  "two_frame_pool =
     (case NewPgImp (new_BufferPoolManagerInstance 2 2 4 (\<lambda>p. 0)) of
        Some (Inr (Some (p0, f0), bpm1)) \<Rightarrow>
          (case NewPgImp bpm1 of
             Some (Inr (Some (p1, f1), bpm2)) \<Rightarrow>
               (case UnpinPgImp (write_page_data bpm2 f0 7) p0 True of
                  Inr (u0, bpm3) \<Rightarrow>
                    (case UnpinPgImp bpm3 p1 False of
                       Inr (u1, bpm4) \<Rightarrow> bpm4
                     | _ \<Rightarrow> bpm3)
                | _ \<Rightarrow> bpm2)
           | _ \<Rightarrow> bpm1)
      | _ \<Rightarrow> new_BufferPoolManagerInstance 2 2 4 (\<lambda>p. 0))"

lemmas bpm_eval =
  NewPgImp_def FetchPgImp_def new_BufferPoolManagerInstance_def obtain_frame_def frame_in_range_def
  new_Page_def set_frame_def Let_def write_page_data_def UnpinPgImp_def disk_WritePage_def
  ExtendibleHashTable_Insert.simps Insert_round_def IndexOf_mod bucket_at_def
  new_ExtendibleHashTable_def new_Bucket_def Bucket_Insert_def Bucket_IsFull_def
  ExtendibleHashTable_Find_def Bucket_Find_def ExtendibleHashTable_Remove_def Bucket_Remove_def
  std_hash_int_def size_cast_def
  new_LRUKReplacer_def LRUKReplacer_RecordAccess_def LRUKReplacer_SetEvictable_def
  LRUKReplacer_Evict_def new_FrameInfo_def size_inc_def size_dec_def SIZE_MAX_def size_sub_def

lemma upt_0_2: "[0..<2] = [0, 1]"
  by (simp add: numeral_2_eq_2)

lemma replicate_2: "replicate 2 x = [x, x]"
  by (simp add: numeral_2_eq_2)

lemma two_frame_pool_facts:
  "free_list two_frame_pool = []"
  "\<exists>r. LRUKReplacer_Evict (replacer two_frame_pool) = Inr (Some 0, r)"
  "pages two_frame_pool = [\<lparr>page_data = 7, page_id = 0, pin_count = 0, is_dirty = True\<rparr>,
                            \<lparr>page_data = 0, page_id = 1, pin_count = 0, is_dirty = False\<rparr>]"
  "disk_log two_frame_pool = []"
  "ExtendibleHashTable_Find std_hash_int (page_table two_frame_pool) 5 = Inr None"
  "\<exists>bpm'. FetchPgImp two_frame_pool 5 = Some (Inr (Some 0, bpm'))"
  unfolding two_frame_pool_def
  by (simp_all add: bpm_eval upt_0_2 replicate_2)

theorem dirty_victim_written_before_frame_reuse_witness:
  "free_list two_frame_pool = [] \<and>
   (\<exists>r. LRUKReplacer_Evict (replacer two_frame_pool) = Inr (Some 0, r)) \<and>
   ExtendibleHashTable_Find std_hash_int (page_table two_frame_pool) 5 = Inr None \<and>
   is_dirty (pages two_frame_pool ! 0) \<and>
   (\<exists>bpm'. FetchPgImp two_frame_pool 5 = Some (Inr (Some 0, bpm')) \<and>
      disk_log bpm' = [WritePage 0 7, ReadPage 5] \<and> page_id (pages bpm' ! 0) = 5)"
proof -
  note f = two_frame_pool_facts
  from f(2) obtain r where r: "LRUKReplacer_Evict (replacer two_frame_pool) = Inr (Some 0, r)" by blast
  from f(6) obtain bpm' where b: "FetchPgImp two_frame_pool 5 = Some (Inr (Some 0, bpm'))" by blast
  from dirty_victim_written_before_frame_reuse f(1) r f(5) b
  have "disk_log bpm' = disk_log two_frame_pool @
        (if is_dirty (pages two_frame_pool ! nat 0)
         then [WritePage (page_id (pages two_frame_pool ! nat 0)) (page_data (pages two_frame_pool ! nat 0))]
         else []) @ [ReadPage 5] \<and>
      page_id (pages bpm' ! nat 0) = 5"
    by blast
  then have "disk_log bpm' = [WritePage 0 7, ReadPage 5] \<and> page_id (pages bpm' ! 0) = 5"
    by (simp add: f(3,4))
  with f r b show ?thesis by (auto simp: f(3))
qed

text \<open>Scenario B: a clean page is evicted without a disk write.\<close>

lemma clean_victim_not_written:
  "case NewPgImp (new_BufferPoolManagerInstance 1 2 4 (\<lambda>p. 0 :: nat)) of
     Some (Inr (Some (p0, f0), bpm1)) \<Rightarrow>
       (case NewPgImp bpm1 of
          Some (Inr (None, bpm2)) \<Rightarrow>
            (case UnpinPgImp bpm2 p0 False of
               Inr (True, bpm3) \<Rightarrow>
                 (case NewPgImp bpm3 of
                    Some (Inr (Some (p1, f1), bpm4)) \<Rightarrow> p1 = 1 \<and> f1 = 0 \<and> disk_log bpm4 = []
                  | _ \<Rightarrow> False)
             | _ \<Rightarrow> False)
        | _ \<Rightarrow> False)
   | _ \<Rightarrow> False"
  by (simp add: bpm_eval)


section \<open>B+tree pages (src/storage/page/b\_plus\_tree\_leaf\_page.cpp, b\_plus\_tree\_internal\_page.cpp)\<close>

text \<open>
  Keys are compared by the comparator as integers; they are modelled by \<open>int\<close>, and the
  default key \<open>KeyType()\<close> by 0.  A record id is a page id and a slot number.
\<close>

type_synonym KeyType = int

datatype RID = RID page_id_t int

text \<open>
  A tree page: the header fields and the entry array, whose length is the \<open>size_\<close> of
  the header.  A leaf also has the id of the next leaf.  Reading an array at an index
  outside \<open>[0, size)\<close> reads stale or foreign memory in C++ and is an error here.
\<close>

datatype tree_node =
    LeafNode "(KeyType \<times> RID) list" page_id_t
  | InternalNode "(KeyType \<times> page_id_t) list"

record tree_page =
  tp_page_id :: page_id_t
  parent_page_id :: page_id_t
  max_size :: int
  node :: tree_node

datatype tree_error =
    PageNotResident page_id_t
  | NotATreePage page_id_t
  | NotALeafPage
  | NotAnInternalPage
  | ArrayIndexOutOfRange
  | NullPointer

definition bindE :: "'e + 'a \<Rightarrow> ('a \<Rightarrow> 'e + 'b) \<Rightarrow> 'e + 'b" where
  "bindE m f = (case m of Inl e \<Rightarrow> Inl e | Inr a \<Rightarrow> f a)"

definition bindO :: "('e + 'a) option \<Rightarrow> ('a \<Rightarrow> ('e + 'b) option) \<Rightarrow> ('e + 'b) option" where
  "bindO m f = Option.bind m (\<lambda>r. case r of Inl e \<Rightarrow> Some (Inl e) | Inr a \<Rightarrow> f a)"

lemma bindO_mono [partial_function_mono]:
  assumes mf: "mono_option B" and mg: "\<And>y. mono_option (\<lambda>f. C y f)"
  shows "mono_option (\<lambda>f. bindO (B f) (\<lambda>y. C y f))"
  unfolding bindO_def
proof (rule bind_mono[OF mf])
  fix y
  show "mono_option (\<lambda>f. case y of Inl e \<Rightarrow> Some (Inl e) | Inr a \<Rightarrow> C a f)"
  proof (cases y)
    case (Inl e)
    then show ?thesis by (simp add: option.const_mono)
  next
    case (Inr a)
    then show ?thesis using mg[of a] by simp
  qed
qed

definition array_get :: "'a list \<Rightarrow> int \<Rightarrow> tree_error + 'a" where
  "array_get arr i = (if 0 \<le> i \<and> i < int (length arr) then Inr (arr ! nat i)
                      else Inl ArrayIndexOutOfRange)"

definition GetSize :: "tree_page \<Rightarrow> int" where
  "GetSize tp = (case node tp of LeafNode arr nxt \<Rightarrow> int (length arr)
                 | InternalNode arr \<Rightarrow> int (length arr))"

definition IsLeafPage :: "tree_page \<Rightarrow> bool" where
  "IsLeafPage tp = (case node tp of LeafNode arr nxt \<Rightarrow> True | InternalNode arr \<Rightarrow> False)"

definition IsRootPage :: "tree_page \<Rightarrow> bool" where
  "IsRootPage tp \<longleftrightarrow> parent_page_id tp = INVALID_PAGE_ID"

text \<open>
  Modelled from the spec: \<open>GetMinSize\<close> belongs to b\_plus\_tree\_page.cpp, which is not
  among the sources.  A non-root leaf has at least \<open>\<lceil>(max - 1) / 2\<rceil>\<close> entries and a
  non-root internal page at least \<open>\<lceil>max / 2\<rceil>\<close> children.
\<close>

definition GetMinSize :: "tree_page \<Rightarrow> int" where
  "GetMinSize tp = (if IsLeafPage tp then max_size tp div 2 else (max_size tp + 1) div 2)"

definition as_leaf :: "tree_page \<Rightarrow> tree_error + (KeyType \<times> RID) list \<times> page_id_t" where
  "as_leaf tp = (case node tp of LeafNode arr nxt \<Rightarrow> Inr (arr, nxt)
                 | InternalNode arr \<Rightarrow> Inl NotALeafPage)"

definition as_internal :: "tree_page \<Rightarrow> tree_error + (KeyType \<times> page_id_t) list" where
  "as_internal tp = (case node tp of LeafNode arr nxt \<Rightarrow> Inl NotAnInternalPage
                     | InternalNode arr \<Rightarrow> Inr arr)"

definition Leaf_Init :: "page_id_t \<Rightarrow> page_id_t \<Rightarrow> int \<Rightarrow> tree_page" where
  "Leaf_Init pid parent_id msize =
     \<lparr>tp_page_id = pid, parent_page_id = parent_id, max_size = msize,
      node = LeafNode [] INVALID_PAGE_ID\<rparr>"

definition Internal_Init :: "page_id_t \<Rightarrow> page_id_t \<Rightarrow> int \<Rightarrow> tree_page" where
  "Internal_Init pid parent_id msize =
     \<lparr>tp_page_id = pid, parent_page_id = parent_id, max_size = msize, node = InternalNode []\<rparr>"

text \<open>The binary search of \<open>FindKeyIndex\<close>: \<open>-1\<close> if the key is there, else its position.\<close>

function leaf_search :: "(KeyType \<times> RID) list \<Rightarrow> KeyType \<Rightarrow> int \<Rightarrow> int \<Rightarrow> tree_error + int" where
  "leaf_search arr key left right =
     (if left \<le> right then
        let mid = left + (right - left) div 2
        in (case array_get arr mid of
              Inl e \<Rightarrow> Inl e
            | Inr (k, v) \<Rightarrow>
                if k = key then Inr (- 1)
                else if k < key then leaf_search arr key (mid + 1) right
                else leaf_search arr key left (mid - 1))
      else Inr left)"
  by pat_completeness auto
termination
  by (relation "measure (\<lambda>(arr, key, left, right). nat (right - left + 1))") auto

definition Leaf_FindKeyIndex :: "(KeyType \<times> RID) list \<Rightarrow> KeyType \<Rightarrow> tree_error + int" where
  "Leaf_FindKeyIndex arr key = leaf_search arr key 0 (int (length arr) - 1)"

text \<open>\<open>Insert\<close> of a leaf page; the boolean is the return value.\<close>

definition Leaf_Insert :: "tree_page \<Rightarrow> KeyType \<Rightarrow> RID \<Rightarrow> tree_error + bool \<times> tree_page" where
  "Leaf_Insert tp key value =
     bindE (as_leaf tp) (\<lambda>(arr, nxt).
       if GetSize tp \<ge> max_size tp then Inr (False, tp)
       else bindE (Leaf_FindKeyIndex arr key) (\<lambda>insert_index.
         if insert_index = - 1 then Inr (False, tp)
         else Inr (True, tp\<lparr>node := LeafNode (take (nat insert_index) arr @ [(key, value)] @
                                                drop (nat insert_index) arr) nxt\<rparr>)))"

text \<open>\<open>FindKey\<close> of a leaf page: the linear scan also used by \<open>GetValue\<close> and \<open>Remove\<close>.\<close>

fun find_key_from :: "(KeyType \<times> 'v) list \<Rightarrow> KeyType \<Rightarrow> int \<Rightarrow> int" where
  "find_key_from [] key i = - 1"
| "find_key_from ((k, v) # rest) key i = (if k = key then i else find_key_from rest key (i + 1))"

definition Leaf_FindKey :: "(KeyType \<times> RID) list \<Rightarrow> KeyType \<Rightarrow> int" where
  "Leaf_FindKey arr key = find_key_from arr key 0"

definition RemoveAt :: "'a list \<Rightarrow> int \<Rightarrow> 'a list" where
  "RemoveAt arr index =
     (if index < 0 \<or> index \<ge> int (length arr) then arr
      else take (nat index) arr @ drop (nat index + 1) arr)"

text \<open>
  \<open>MoveHalfTo\<close> of a leaf page, for a recipient that has just been initialised (size 0),
  as in \<open>Split\<close>: the split key, the entries that stay and the entries that move.
\<close>

definition Leaf_MoveHalfTo ::
    "(KeyType \<times> RID) list \<Rightarrow> tree_error + KeyType \<times> (KeyType \<times> RID) list \<times> (KeyType \<times> RID) list" where
  "Leaf_MoveHalfTo arr =
     (let start_index = int (length arr) div 2
      in bindE (array_get arr start_index) (\<lambda>(split_key, v).
           Inr (split_key, take (nat start_index) arr, drop (nat start_index) arr)))"

text \<open>The loop of the internal page's \<open>Insert\<close> that looks for the position, from index 1.\<close>

definition Internal_insert_index :: "(KeyType \<times> page_id_t) list \<Rightarrow> KeyType \<Rightarrow> int" where
  "Internal_insert_index arr key = 1 + int (length (takeWhile (\<lambda>(k, c). k < key) (drop 1 arr)))"

definition Internal_Insert ::
    "tree_page \<Rightarrow> KeyType \<Rightarrow> page_id_t \<Rightarrow> tree_error + bool \<times> tree_page" where
  "Internal_Insert tp key value =
     bindE (as_internal tp) (\<lambda>arr.
       if GetSize tp \<ge> max_size tp then Inr (False, tp)
       else if GetSize tp = 0 then Inr (True, tp\<lparr>node := InternalNode [(0, value)]\<rparr>)
       else
         let insert_index = Internal_insert_index arr key
         in if insert_index < GetSize tp \<and> fst (arr ! nat insert_index) = key then Inr (False, tp)
            else Inr (True, tp\<lparr>node := InternalNode (take (nat insert_index) arr @ [(key, value)] @
                                                       drop (nat insert_index) arr)\<rparr>))"

text \<open>\<open>FindValue\<close>, and the same loop inside \<open>InsertNodeAfter\<close> and \<open>FindIndexInParent\<close>.\<close>

fun find_value_from :: "(KeyType \<times> page_id_t) list \<Rightarrow> page_id_t \<Rightarrow> int \<Rightarrow> int" where
  "find_value_from [] value i = - 1"
| "find_value_from ((k, c) # rest) value i =
     (if c = value then i else find_value_from rest value (i + 1))"

definition Internal_FindValue :: "(KeyType \<times> page_id_t) list \<Rightarrow> page_id_t \<Rightarrow> int" where
  "Internal_FindValue arr value = find_value_from arr value 0"

definition Internal_InsertNodeAfter ::
    "(KeyType \<times> page_id_t) list \<Rightarrow> page_id_t \<Rightarrow> KeyType \<Rightarrow> page_id_t \<Rightarrow>
     (KeyType \<times> page_id_t) list" where
  "Internal_InsertNodeAfter arr old_value new_key new_value =
     (let old_index = Internal_FindValue arr old_value
      in if old_index = - 1 then arr
         else take (nat (old_index + 1)) arr @ [(new_key, new_value)] @
              drop (nat (old_index + 1)) arr)"

text \<open>
  \<open>MoveHalfTo\<close> of an internal page, for a recipient that has just been initialised:
  the split key, the entries that stay, and the entries of the recipient, whose first key
  is reset to the default key.
\<close>

definition Internal_MoveHalfTo ::
    "(KeyType \<times> page_id_t) list \<Rightarrow>
     tree_error + KeyType \<times> (KeyType \<times> page_id_t) list \<times> (KeyType \<times> page_id_t) list" where
  "Internal_MoveHalfTo arr =
     (let start_index = max 1 (int (length arr) div 2)
      in bindE (array_get arr start_index) (\<lambda>(split_key, c).
           Inr (split_key, take (nat start_index) arr,
                (0, c) # drop (nat start_index + 1) arr)))"

definition Internal_PopulateNewRoot ::
    "page_id_t \<Rightarrow> KeyType \<Rightarrow> page_id_t \<Rightarrow> (KeyType \<times> page_id_t) list" where
  "Internal_PopulateNewRoot left_value key right_value = [(0, left_value), (key, right_value)]"

definition Internal_SetKeyAt ::
    "(KeyType \<times> page_id_t) list \<Rightarrow> int \<Rightarrow> KeyType \<Rightarrow> tree_error + (KeyType \<times> page_id_t) list" where
  "Internal_SetKeyAt arr index key =
     bindE (array_get arr index) (\<lambda>(k, c). Inr (arr[nat index := (key, c)]))"

section \<open>The buffer pool as the tree uses it\<close>

text \<open>
  The tree reaches the pool through \<open>NewPage\<close>, \<open>FetchPage\<close>, \<open>UnpinPage\<close> and
  \<open>DeletePage\<close>.  The claims about the tree are for a pool large enough that no fetch
  or allocation fails, so no page is ever evicted: every page that was allocated and not
  deleted is resident.  Under this condition \<open>BufferPoolManagerInstance\<close> behaves, as
  far as the tree can see, like a table from page ids to pages with a pin count and a
  dirty flag, which is the model here.  A pointer to a page is modelled by its page id.
  Fetching a page that is not resident (it was deleted, or never allocated) makes the
  real pool read whatever the disk holds under that id; the model returns an error.
  The calls of \<open>DeletePage\<close> are logged with their results.
\<close>

datatype page_content =
    Blank
  | HeaderContent "(string \<times> page_id_t) list"
  | TreeContent tree_page

record pool_page =
  content :: page_content
  pins :: int
  dirty :: bool

record BufferPool =
  resident :: "(page_id_t \<times> pool_page) list"
  pool_next_page_id :: page_id_t
  delete_calls :: "(page_id_t \<times> bool) list"

definition HEADER_PAGE_ID :: page_id_t where
  "HEADER_PAGE_ID = 0"

definition pool_NewPage :: "BufferPool \<Rightarrow> page_id_t \<times> BufferPool" where
  "pool_NewPage p =
     (pool_next_page_id p,
      p\<lparr>resident := AList.update (pool_next_page_id p)
                        \<lparr>content = Blank, pins = 1, dirty = False\<rparr> (resident p),
        pool_next_page_id := pool_next_page_id p + 1\<rparr>)"

definition pool_FetchPage :: "BufferPool \<Rightarrow> page_id_t \<Rightarrow> tree_error + BufferPool" where
  "pool_FetchPage p pid =
     (case map_of (resident p) pid of
        None \<Rightarrow> Inl (PageNotResident pid)
      | Some pg \<Rightarrow> Inr (p\<lparr>resident := AList.update pid (pg\<lparr>pins := pins pg + 1\<rparr>) (resident p)\<rparr>))"

definition pool_UnpinPage :: "BufferPool \<Rightarrow> page_id_t \<Rightarrow> bool \<Rightarrow> bool \<times> BufferPool" where
  "pool_UnpinPage p pid dirty_flag =
     (case map_of (resident p) pid of
        None \<Rightarrow> (False, p)
      | Some pg \<Rightarrow>
          if pins pg \<le> 0 then (False, p)
          else (True, p\<lparr>resident := AList.update pid
                          (pg\<lparr>pins := pins pg - 1, dirty := dirty pg \<or> dirty_flag\<rparr>) (resident p)\<rparr>))"

definition pool_DeletePage :: "BufferPool \<Rightarrow> page_id_t \<Rightarrow> bool \<times> BufferPool" where
  "pool_DeletePage p pid =
     (case map_of (resident p) pid of
        None \<Rightarrow> (True, p\<lparr>delete_calls := delete_calls p @ [(pid, True)]\<rparr>)
      | Some pg \<Rightarrow>
          if pins pg > 0 then (False, p\<lparr>delete_calls := delete_calls p @ [(pid, False)]\<rparr>)
          else (True, p\<lparr>resident := AList.delete pid (resident p),
                         delete_calls := delete_calls p @ [(pid, True)]\<rparr>))"

section \<open>B+tree (src/storage/index/b\_plus\_tree.cpp)\<close>

record BPlusTree =
  index_name :: string
  root_page_id :: page_id_t
  leaf_max_size :: int
  internal_max_size :: int
  bpm :: BufferPool

definition new_BPlusTree :: "string \<Rightarrow> BufferPool \<Rightarrow> int \<Rightarrow> int \<Rightarrow> BPlusTree" where
  "new_BPlusTree name pool leaf_max internal_max =
     \<lparr>index_name = name, root_page_id = INVALID_PAGE_ID, leaf_max_size = leaf_max,
      internal_max_size = internal_max, bpm = pool\<rparr>"

text \<open>
  The pool the test harness hands to the tree: the header page has been allocated as
  page 0 and unpinned.
\<close>

definition pool_with_header :: BufferPool where
  "pool_with_header =
     \<lparr>resident = [(HEADER_PAGE_ID, \<lparr>content = HeaderContent [], pins = 0, dirty = True\<rparr>)],
      pool_next_page_id = 1, delete_calls = []\<rparr>"

definition IsEmpty :: "BPlusTree \<Rightarrow> bool" where
  "IsEmpty t \<longleftrightarrow> root_page_id t = INVALID_PAGE_ID"

text \<open>State-passing forms of the pool's calls and of access through a page pointer.\<close>

definition FetchPage :: "BPlusTree \<Rightarrow> page_id_t \<Rightarrow> tree_error + BPlusTree" where
  "FetchPage t pid = bindE (pool_FetchPage (bpm t) pid) (\<lambda>p. Inr (t\<lparr>bpm := p\<rparr>))"

definition NewPage :: "BPlusTree \<Rightarrow> page_id_t \<times> BPlusTree" where
  "NewPage t = (case pool_NewPage (bpm t) of (pid, p) \<Rightarrow> (pid, t\<lparr>bpm := p\<rparr>))"

definition UnpinPage :: "BPlusTree \<Rightarrow> page_id_t \<Rightarrow> bool \<Rightarrow> BPlusTree" where
  "UnpinPage t pid dirty_flag = t\<lparr>bpm := snd (pool_UnpinPage (bpm t) pid dirty_flag)\<rparr>"

definition DeletePage :: "BPlusTree \<Rightarrow> page_id_t \<Rightarrow> BPlusTree" where
  "DeletePage t pid = t\<lparr>bpm := snd (pool_DeletePage (bpm t) pid)\<rparr>"

definition read_page :: "BPlusTree \<Rightarrow> page_id_t \<Rightarrow> tree_error + tree_page" where
  "read_page t pid =
     (case map_of (resident (bpm t)) pid of
        None \<Rightarrow> Inl (PageNotResident pid)
      | Some pg \<Rightarrow> (case content pg of TreeContent tp \<Rightarrow> Inr tp | _ \<Rightarrow> Inl (NotATreePage pid)))"

definition write_page :: "BPlusTree \<Rightarrow> page_id_t \<Rightarrow> tree_page \<Rightarrow> BPlusTree" where
  "write_page t pid tp =
     (case map_of (resident (bpm t)) pid of
        None \<Rightarrow> t
      | Some pg \<Rightarrow>
          t\<lparr>bpm := (bpm t)\<lparr>resident := AList.update pid (pg\<lparr>content := TreeContent tp\<rparr>)
                                          (resident (bpm t))\<rparr>\<rparr>)"

definition SetParentPageId :: "BPlusTree \<Rightarrow> page_id_t \<Rightarrow> page_id_t \<Rightarrow> tree_error + BPlusTree" where
  "SetParentPageId t pid parent_id =
     bindE (read_page t pid) (\<lambda>tp. Inr (write_page t pid (tp\<lparr>parent_page_id := parent_id\<rparr>)))"

text \<open>
  Modelled from the spec: the header page (header\_page.cpp is not among the sources)
  holds a mapping from index names to root page ids, with \<open>InsertRecord\<close> and
  \<open>UpdateRecord\<close>.
\<close>

definition HeaderPage_InsertRecord ::
    "(string \<times> page_id_t) list \<Rightarrow> string \<Rightarrow> page_id_t \<Rightarrow> (string \<times> page_id_t) list" where
  "HeaderPage_InsertRecord records name root_id =
     (case map_of records name of None \<Rightarrow> records @ [(name, root_id)] | Some r \<Rightarrow> records)"

definition HeaderPage_UpdateRecord ::
    "(string \<times> page_id_t) list \<Rightarrow> string \<Rightarrow> page_id_t \<Rightarrow> (string \<times> page_id_t) list" where
  "HeaderPage_UpdateRecord records name root_id =
     (case map_of records name of None \<Rightarrow> records | Some r \<Rightarrow> AList.update name root_id records)"

definition UpdateRootPageId :: "BPlusTree \<Rightarrow> int \<Rightarrow> tree_error + BPlusTree" where
  "UpdateRootPageId t insert_record =
     bindE (FetchPage t HEADER_PAGE_ID) (\<lambda>t1.
       case map_of (resident (bpm t1)) HEADER_PAGE_ID of
         None \<Rightarrow> Inl (PageNotResident HEADER_PAGE_ID)
       | Some pg \<Rightarrow>
           (case content pg of
              HeaderContent records \<Rightarrow>
                let records' = (if insert_record \<noteq> 0
                                then HeaderPage_InsertRecord records (index_name t1) (root_page_id t1)
                                else HeaderPage_UpdateRecord records (index_name t1) (root_page_id t1));
                    t2 = t1\<lparr>bpm := (bpm t1)\<lparr>resident :=
                            AList.update HEADER_PAGE_ID (pg\<lparr>content := HeaderContent records'\<rparr>)
                              (resident (bpm t1))\<rparr>\<rparr>
                in Inr (UnpinPage t2 HEADER_PAGE_ID True)
            | _ \<Rightarrow> Inl (NotATreePage HEADER_PAGE_ID)))"

subsection \<open>Search\<close>

text \<open>
  The inner loop of \<open>FindLeafPage\<close>: \<open>index\<close> starts at 1 and advances while the key at
  \<open>index\<close> is at most the search key.
\<close>

definition child_index :: "(KeyType \<times> page_id_t) list \<Rightarrow> KeyType \<Rightarrow> int" where
  "child_index arr key = 1 + int (length (takeWhile (\<lambda>(k, c). k \<le> key) (drop 1 arr)))"

text \<open>
  The outer loop of \<open>FindLeafPage\<close>, from a pinned page down to a leaf.  It returns the
  id of the leaf, which stays pinned.  The result is \<open>None\<close> when the loop does not end.
\<close>

partial_function (option) FindLeafPage_loop ::
    "BPlusTree \<Rightarrow> page_id_t \<Rightarrow> KeyType \<Rightarrow> (tree_error + page_id_t \<times> BPlusTree) option" where
  "FindLeafPage_loop t page key =
     bindO (Some (read_page t page)) (\<lambda>tp.
       case node tp of
         LeafNode arr nxt \<Rightarrow> Some (Inr (page, t))
       | InternalNode arr \<Rightarrow>
           bindO (Some (array_get arr (child_index arr key - 1))) (\<lambda>(k, child_page_id).
           bindO (Some (FetchPage t child_page_id)) (\<lambda>t1.
             FindLeafPage_loop (UnpinPage t1 page False) child_page_id key)))"

declare FindLeafPage_loop.simps [code]

definition FindLeafPage ::
    "BPlusTree \<Rightarrow> KeyType \<Rightarrow> (tree_error + page_id_t option \<times> BPlusTree) option" where
  "FindLeafPage t key =
     (if IsEmpty t then Some (Inr (None, t))
      else bindO (Some (FetchPage t (root_page_id t))) (\<lambda>t1.
           bindO (FindLeafPage_loop t1 (root_page_id t) key) (\<lambda>(leaf, t2).
             Some (Inr (Some leaf, t2)))))"

definition GetValue ::
    "BPlusTree \<Rightarrow> KeyType \<Rightarrow> (tree_error + RID option \<times> BPlusTree) option" where
  "GetValue t key =
     (if IsEmpty t then Some (Inr (None, t))
      else bindO (FindLeafPage t key) (\<lambda>(leaf_page, t1).
        case leaf_page of
          None \<Rightarrow> Some (Inr (None, t1))
        | Some leaf \<Rightarrow>
            bindO (Some (bindE (read_page t1 leaf) as_leaf)) (\<lambda>(arr, nxt).
              Some (Inr (map_of arr key, UnpinPage t1 leaf False)))))"

subsection \<open>Insertion\<close>

definition StartNewTree :: "BPlusTree \<Rightarrow> KeyType \<Rightarrow> RID \<Rightarrow> tree_error + bool \<times> BPlusTree" where
  "StartNewTree t key value =
     (case NewPage t of
        (new_page_id, t1) \<Rightarrow>
          let init = Leaf_Init new_page_id INVALID_PAGE_ID (leaf_max_size t1)
          in bindE (Leaf_Insert init key value) (\<lambda>(success, root_node).
               if \<not> success
               then Inr (False, DeletePage (UnpinPage (write_page t1 new_page_id init)
                                              new_page_id False) new_page_id)
               else
                 let t2 = (write_page t1 new_page_id root_node)\<lparr>root_page_id := new_page_id\<rparr>
                 in bindE (UpdateRootPageId t2 1) (\<lambda>t3.
                      Inr (True, UnpinPage t3 new_page_id True))))"

text \<open>
  The loop of \<open>Split\<close> and of \<open>Coalesce\<close> that sets the parent pointer of each moved
  child.
\<close>

fun reparent_children :: "BPlusTree \<Rightarrow> page_id_t list \<Rightarrow> page_id_t \<Rightarrow> tree_error + BPlusTree" where
  "reparent_children t [] new_parent = Inr t"
| "reparent_children t (child_page_id # rest) new_parent =
     bindE (FetchPage t child_page_id) (\<lambda>t1.
     bindE (SetParentPageId t1 child_page_id new_parent) (\<lambda>t2.
       reparent_children (UnpinPage t2 child_page_id True) rest new_parent))"

text \<open>\<open>Split\<close>: the new page's id (it stays pinned) and the split key.\<close>

definition Split :: "BPlusTree \<Rightarrow> page_id_t \<Rightarrow> tree_error + (page_id_t \<times> KeyType) \<times> BPlusTree" where
  "Split t node_id =
     (case NewPage t of
        (new_page_id, t1) \<Rightarrow>
          bindE (read_page t1 node_id) (\<lambda>tp.
            case node tp of
              LeafNode arr nxt \<Rightarrow>
                bindE (Leaf_MoveHalfTo arr) (\<lambda>(split_key, keep, moved).
                  let new_leaf = (Leaf_Init new_page_id (parent_page_id tp) (leaf_max_size t1))
                                   \<lparr>node := LeafNode moved nxt\<rparr>;
                      t2 = write_page t1 new_page_id new_leaf;
                      t3 = write_page t2 node_id (tp\<lparr>node := LeafNode keep new_page_id\<rparr>)
                  in Inr ((new_page_id, split_key), t3))
            | InternalNode arr \<Rightarrow>
                bindE (Internal_MoveHalfTo arr) (\<lambda>(split_key, keep, moved).
                  let new_internal =
                        (Internal_Init new_page_id (parent_page_id tp) (internal_max_size t1))
                          \<lparr>node := InternalNode moved\<rparr>;
                      t2 = write_page t1 new_page_id new_internal;
                      t3 = write_page t2 node_id (tp\<lparr>node := InternalNode keep\<rparr>)
                  in bindE (reparent_children t3 (map snd moved) new_page_id) (\<lambda>t4.
                       Inr ((new_page_id, split_key), t4)))))"

partial_function (option) InsertIntoParent ::
    "BPlusTree \<Rightarrow> page_id_t \<Rightarrow> KeyType \<Rightarrow> page_id_t \<Rightarrow> (tree_error + BPlusTree) option" where
  "InsertIntoParent t old_node key new_node =
     bindO (Some (read_page t old_node)) (\<lambda>old_tp.
     if IsRootPage old_tp then
       (case NewPage t of
          (new_root_id, t1) \<Rightarrow>
            bindO (Some (read_page t1 new_node)) (\<lambda>new_tp.
              let new_root = (Internal_Init new_root_id INVALID_PAGE_ID (internal_max_size t1))
                    \<lparr>node := InternalNode (Internal_PopulateNewRoot (tp_page_id old_tp) key
                                             (tp_page_id new_tp))\<rparr>;
                  t2 = write_page t1 new_root_id new_root
              in bindO (Some (SetParentPageId t2 old_node new_root_id)) (\<lambda>t3.
                 bindO (Some (SetParentPageId t3 new_node new_root_id)) (\<lambda>t4.
                 bindO (Some (UpdateRootPageId (t4\<lparr>root_page_id := new_root_id\<rparr>) 1)) (\<lambda>t5.
                   Some (Inr (UnpinPage t5 new_root_id True)))))))
     else
       let parent_id = parent_page_id old_tp
       in bindO (Some (FetchPage t parent_id)) (\<lambda>t1.
          bindO (Some (read_page t1 parent_id)) (\<lambda>parent.
          bindO (Some (as_internal parent)) (\<lambda>arr.
          bindO (Some (read_page t1 new_node)) (\<lambda>new_tp.
            let arr' = Internal_InsertNodeAfter arr (tp_page_id old_tp) key (tp_page_id new_tp);
                t2 = write_page t1 parent_id (parent\<lparr>node := InternalNode arr'\<rparr>)
            in bindO (Some (SetParentPageId t2 new_node parent_id)) (\<lambda>t3.
               if int (length arr') \<ge> internal_max_size t3 then
                 bindO (Some (Split t3 parent_id)) (\<lambda>((new_parent, split_key), t4).
                 bindO (InsertIntoParent t4 parent_id split_key new_parent) (\<lambda>t5.
                 bindO (Some (read_page t5 new_parent)) (\<lambda>new_parent_tp.
                   Some (Inr (UnpinPage (UnpinPage t5 (tp_page_id new_parent_tp) True)
                                parent_id True)))))
               else Some (Inr (UnpinPage t3 parent_id True))))))))"

declare InsertIntoParent.simps [code]

definition InsertIntoLeaf ::
    "BPlusTree \<Rightarrow> KeyType \<Rightarrow> RID \<Rightarrow> (tree_error + bool \<times> BPlusTree) option" where
  "InsertIntoLeaf t key value =
     bindO (FindLeafPage t key) (\<lambda>(leaf_page, t1).
       case leaf_page of
         None \<Rightarrow> Some (Inr (False, t1))
       | Some leaf \<Rightarrow>
           bindO (Some (read_page t1 leaf)) (\<lambda>leaf_node.
           bindO (Some (as_leaf leaf_node)) (\<lambda>(arr, nxt).
             if map_of arr key \<noteq> None then Some (Inr (False, UnpinPage t1 leaf False))
             else
               bindO (Some (Leaf_Insert leaf_node key value)) (\<lambda>(success, leaf_node').
                 if \<not> success then Some (Inr (False, UnpinPage t1 leaf False))
                 else
                   let t2 = write_page t1 leaf leaf_node'
                   in if GetSize leaf_node' \<ge> leaf_max_size t2 then
                        bindO (Some (Split t2 leaf)) (\<lambda>((new_leaf, split_key), t3).
                        bindO (InsertIntoParent t3 leaf split_key new_leaf) (\<lambda>t4.
                        bindO (Some (read_page t4 new_leaf)) (\<lambda>new_leaf_tp.
                          Some (Inr (True, UnpinPage (UnpinPage t4 (tp_page_id new_leaf_tp) True)
                                             leaf True)))))
                      else Some (Inr (True, UnpinPage t2 leaf True))))))"

definition Insert :: "BPlusTree \<Rightarrow> KeyType \<Rightarrow> RID \<Rightarrow> (tree_error + bool \<times> BPlusTree) option" where
  "Insert t key value =
     (if IsEmpty t then Some (StartNewTree t key value) else InsertIntoLeaf t key value)"

text \<open>A sequence of inserts; it stops at the first error.\<close>

fun insert_keys :: "BPlusTree \<Rightarrow> (KeyType \<times> RID) list \<Rightarrow> (tree_error + BPlusTree) option" where
  "insert_keys t [] = Some (Inr t)"
| "insert_keys t ((k, v) # rest) =
     bindO (Insert t k v) (\<lambda>(ok, t1). insert_keys t1 rest)"

text \<open>A sequence of inserts followed by one lookup: what the lookup returns.\<close>

definition get_value_after ::
    "BPlusTree \<Rightarrow> (KeyType \<times> RID) list \<Rightarrow> KeyType \<Rightarrow> (tree_error + RID option) option" where
  "get_value_after t kvs key =
     bindO (insert_keys t kvs) (\<lambda>t1. bindO (GetValue t1 key) (\<lambda>(r, t2). Some (Inr r)))"

definition scenario_E :: "(tree_error + BPlusTree) option" where
  "scenario_E = insert_keys (new_BPlusTree ''index'' pool_with_header 3 3)
                  (map (\<lambda>k. (k, RID 0 k)) [1, 2, 3, 4, 5, 6, 7, 8, 9, 10])"

subsection \<open>Removal\<close>

text \<open>
  \<open>FindIndexInParent\<close>: the index of the node among its parent's children, or \<open>-1\<close>.
  The parent is fetched and unpinned again.
\<close>

definition FindIndexInParent :: "BPlusTree \<Rightarrow> page_id_t \<Rightarrow> tree_error + int \<times> BPlusTree" where
  "FindIndexInParent t node_id =
     bindE (read_page t node_id) (\<lambda>tp.
     bindE (FetchPage t (parent_page_id tp)) (\<lambda>t1.
     bindE (read_page t1 (parent_page_id tp)) (\<lambda>parent.
     bindE (as_internal parent) (\<lambda>arr.
       Inr (Internal_FindValue arr (tp_page_id tp),
            UnpinPage t1 (tp_page_id parent) False)))))"

text \<open>
  \<open>FindSibling\<close>: \<open>Some (sibling, is_prev)\<close> when it returns true; the sibling stays
  pinned.
\<close>

definition FindSibling ::
    "BPlusTree \<Rightarrow> page_id_t \<Rightarrow> tree_error + (page_id_t \<times> bool) option \<times> BPlusTree" where
  "FindSibling t node_id =
     bindE (read_page t node_id) (\<lambda>tp.
     let parent_id = parent_page_id tp
     in bindE (FetchPage t parent_id) (\<lambda>t1.
        bindE (read_page t1 parent_id) (\<lambda>parent.
        bindE (as_internal parent) (\<lambda>arr.
        bindE (FindIndexInParent t1 node_id) (\<lambda>(index, t2).
          if index = - 1 then Inr (None, UnpinPage t2 parent_id False)
          else if index > 0 then
            bindE (array_get arr (index - 1)) (\<lambda>(k, sibling_id).
            bindE (FetchPage t2 sibling_id) (\<lambda>t3.
              Inr (Some (sibling_id, True), UnpinPage t3 parent_id False)))
          else if index < int (length arr) - 1 then
            bindE (array_get arr (index + 1)) (\<lambda>(k, sibling_id).
            bindE (FetchPage t2 sibling_id) (\<lambda>t3.
              Inr (Some (sibling_id, False), UnpinPage t3 parent_id False)))
          else Inr (None, UnpinPage t2 parent_id False))))))"

definition AdjustRoot :: "BPlusTree \<Rightarrow> page_id_t \<Rightarrow> tree_error + BPlusTree" where
  "AdjustRoot t old_root_node =
     bindE (read_page t old_root_node) (\<lambda>tp.
       if IsLeafPage tp \<and> GetSize tp = 0 then
         bindE (UpdateRootPageId (t\<lparr>root_page_id := INVALID_PAGE_ID\<rparr>) 0) (\<lambda>t1.
           Inr (DeletePage t1 (tp_page_id tp)))
       else if \<not> IsLeafPage tp \<and> GetSize tp = 1 then
         bindE (as_internal tp) (\<lambda>arr.
         bindE (array_get arr 0) (\<lambda>(k, child).
         let t1 = t\<lparr>root_page_id := child\<rparr>
         in bindE (FetchPage t1 child) (\<lambda>t2.
            bindE (SetParentPageId t2 child INVALID_PAGE_ID) (\<lambda>t3.
            bindE (UpdateRootPageId t3 0) (\<lambda>t4.
            bindE (read_page t4 old_root_node) (\<lambda>tp'.
              Inr (DeletePage (UnpinPage t4 (root_page_id t4) True) (tp_page_id tp'))))))))
       else Inr t)"

text \<open>
  \<open>Redistribute\<close>: one entry moves from the neighbour to the node, for leaves only.
\<close>

definition borrow_into ::
    "BPlusTree \<Rightarrow> page_id_t \<Rightarrow> KeyType \<Rightarrow> RID \<Rightarrow> tree_error + BPlusTree" where
  "borrow_into t node_id borrowed_key borrowed_value =
     bindE (read_page t node_id) (\<lambda>tp.
     bindE (Leaf_Insert tp borrowed_key borrowed_value) (\<lambda>(ok, tp').
       Inr (write_page t node_id tp')))"

definition first_leaf_key :: "BPlusTree \<Rightarrow> page_id_t \<Rightarrow> tree_error + KeyType" where
  "first_leaf_key t leaf =
     bindE (read_page t leaf) (\<lambda>tp.
     bindE (as_leaf tp) (\<lambda>(arr, nxt).
     bindE (array_get arr 0) (\<lambda>(k, v). Inr k)))"

definition set_parent_key ::
    "BPlusTree \<Rightarrow> page_id_t \<Rightarrow> int \<Rightarrow> KeyType \<Rightarrow> tree_error + BPlusTree" where
  "set_parent_key t parent_id index key =
     bindE (read_page t parent_id) (\<lambda>parent.
     bindE (as_internal parent) (\<lambda>parr.
     bindE (Internal_SetKeyAt parr index key) (\<lambda>parr'.
       Inr (write_page t parent_id (parent\<lparr>node := InternalNode parr'\<rparr>)))))"

definition Redistribute ::
    "BPlusTree \<Rightarrow> page_id_t \<Rightarrow> page_id_t \<Rightarrow> page_id_t \<Rightarrow> int \<Rightarrow> tree_error + BPlusTree" where
  "Redistribute t neighbor_node node_id parent_id index =
     bindE (read_page t node_id) (\<lambda>tp.
       if \<not> IsLeafPage tp then Inr t
       else
         bindE (read_page t neighbor_node) (\<lambda>ntp.
         bindE (as_leaf ntp) (\<lambda>(narr, nnxt).
           if index > 0 then
             let last_index = int (length narr) - 1
             in bindE (array_get narr last_index) (\<lambda>(borrowed_key, borrowed_value).
                let t1 = write_page t neighbor_node
                           (ntp\<lparr>node := LeafNode (RemoveAt narr last_index) nnxt\<rparr>)
                in bindE (borrow_into t1 node_id borrowed_key borrowed_value) (\<lambda>t2.
                   bindE (first_leaf_key t2 node_id) (\<lambda>first_key.
                     set_parent_key t2 parent_id index first_key)))
           else
             bindE (array_get narr 0) (\<lambda>(borrowed_key, borrowed_value).
             let t1 = write_page t neighbor_node (ntp\<lparr>node := LeafNode (RemoveAt narr 0) nnxt\<rparr>)
             in bindE (borrow_into t1 node_id borrowed_key borrowed_value) (\<lambda>t2.
                bindE (first_leaf_key t2 neighbor_node) (\<lambda>first_key.
                  set_parent_key t2 parent_id (index + 1) first_key))))))"

text \<open>The two loops of \<open>Coalesce\<close> that insert the node's entries into the neighbour.\<close>

fun move_leaf_entries ::
    "BPlusTree \<Rightarrow> page_id_t \<Rightarrow> (KeyType \<times> RID) list \<Rightarrow> tree_error + BPlusTree" where
  "move_leaf_entries t neighbor [] = Inr t"
| "move_leaf_entries t neighbor ((k, v) # rest) =
     bindE (read_page t neighbor) (\<lambda>ntp.
     bindE (Leaf_Insert ntp k v) (\<lambda>(ok, ntp').
       move_leaf_entries (write_page t neighbor ntp') neighbor rest))"

fun move_internal_entries ::
    "BPlusTree \<Rightarrow> page_id_t \<Rightarrow> (KeyType \<times> page_id_t) list \<Rightarrow> tree_error + BPlusTree" where
  "move_internal_entries t neighbor [] = Inr t"
| "move_internal_entries t neighbor ((k, c) # rest) =
     bindE (read_page t neighbor) (\<lambda>ntp.
     bindE (Internal_Insert ntp k c) (\<lambda>(ok, ntp').
       move_internal_entries (write_page t neighbor ntp') neighbor rest))"

text \<open>
  The part of \<open>Coalesce\<close> before its recursive call: the node's entries move to the
  neighbour and the parent's entry at \<open>index\<close> is removed.
\<close>

definition Coalesce_merge ::
    "BPlusTree \<Rightarrow> page_id_t \<Rightarrow> page_id_t \<Rightarrow> page_id_t \<Rightarrow> int \<Rightarrow> tree_error + BPlusTree" where
  "Coalesce_merge t neighbor_node node_id parent_id index =
     bindE (read_page t node_id) (\<lambda>tp.
     bindE
       (case node tp of
          LeafNode arr nxt \<Rightarrow>
            bindE (move_leaf_entries t neighbor_node arr) (\<lambda>t1.
            bindE (read_page t1 neighbor_node) (\<lambda>ntp.
            bindE (as_leaf ntp) (\<lambda>(narr, nnxt).
            bindE (read_page t1 node_id) (\<lambda>tp1.
            bindE (as_leaf tp1) (\<lambda>(arr1, nxt1).
              Inr (write_page t1 neighbor_node (ntp\<lparr>node := LeafNode narr nxt1\<rparr>)))))))
        | InternalNode arr \<Rightarrow>
            bindE (read_page t parent_id) (\<lambda>parent.
            bindE (as_internal parent) (\<lambda>parr.
            bindE (array_get parr index) (\<lambda>(parent_key, c).
            bindE (array_get arr 0) (\<lambda>(k0, c0).
            bindE (read_page t neighbor_node) (\<lambda>ntp0.
            bindE (as_internal ntp0) (\<lambda>narr0.
            bindE (move_internal_entries t neighbor_node ((parent_key, c0) # drop 1 arr)) (\<lambda>t1.
            bindE (read_page t1 node_id) (\<lambda>tp1.
            bindE (as_internal tp1) (\<lambda>arr1.
            bindE (read_page t1 neighbor_node) (\<lambda>ntp.
              reparent_children t1 (map snd arr1) (tp_page_id ntp))))))))))))
       (\<lambda>t2.
          bindE (read_page t2 parent_id) (\<lambda>parent.
          bindE (as_internal parent) (\<lambda>parr.
            Inr (write_page t2 parent_id (parent\<lparr>node := InternalNode (RemoveAt parr index)\<rparr>))))))"

text \<open>
  \<open>CoalesceOrRedistribute\<close>, with \<open>Coalesce\<close> written in place (the two call each
  other): \<open>Coalesce_merge\<close>, the recursive call on the parent, then the unpin and the
  deletion of the merged page.
\<close>

partial_function (option) CoalesceOrRedistribute ::
    "BPlusTree \<Rightarrow> page_id_t \<Rightarrow> (tree_error + BPlusTree) option" where
  "CoalesceOrRedistribute t node_id =
     bindO (Some (read_page t node_id)) (\<lambda>tp.
     if IsRootPage tp then Some (AdjustRoot t node_id)
     else
       bindO (Some (FindSibling t node_id)) (\<lambda>(found, t1).
       case found of
         None \<Rightarrow> Some (Inr t1)
       | Some (sibling, is_prev) \<Rightarrow>
           bindO (Some (read_page t1 node_id)) (\<lambda>tp1.
           let parent_id = parent_page_id tp1
           in bindO (Some (FetchPage t1 parent_id)) (\<lambda>t2.
              bindO (Some (FindIndexInParent t2 node_id)) (\<lambda>(node_index, t3).
                if node_index = - 1 then Some (Inr (UnpinPage t3 parent_id False))
                else
                  bindO (Some (read_page t3 node_id)) (\<lambda>tp3.
                  bindO (Some (read_page t3 sibling)) (\<lambda>stp.
                    if GetSize tp3 + GetSize stp \<le>
                         (if IsLeafPage tp3 then leaf_max_size t3 else internal_max_size t3)
                    then
                      let neighbor = (if is_prev then sibling else node_id);
                          merged = (if is_prev then node_id else sibling);
                          index = (if is_prev then node_index else node_index - 1)
                      in bindO (Some (Coalesce_merge t3 neighbor merged parent_id index)) (\<lambda>t4.
                         bindO (Some (read_page t4 parent_id)) (\<lambda>parent.
                         bindO (if GetSize parent < GetMinSize parent \<and> \<not> IsRootPage parent
                                then CoalesceOrRedistribute t4 parent_id
                                else Some (Inr t4)) (\<lambda>t5.
                         bindO (Some (read_page t5 merged)) (\<lambda>mtp.
                           Some (Inr (DeletePage (UnpinPage t5 (tp_page_id mtp) True)
                                        (tp_page_id mtp)))))))
                    else
                      bindO (Some (Redistribute t3 sibling node_id parent_id node_index)) (\<lambda>t4.
                        Some (Inr (UnpinPage t4 parent_id True))))))))))"

declare CoalesceOrRedistribute.simps [code]

definition Remove :: "BPlusTree \<Rightarrow> KeyType \<Rightarrow> (tree_error + BPlusTree) option" where
  "Remove t key =
     (if IsEmpty t then Some (Inr t)
      else bindO (FindLeafPage t key) (\<lambda>(leaf_page, t1).
        case leaf_page of
          None \<Rightarrow> Some (Inr t1)
        | Some leaf \<Rightarrow>
            bindO (Some (read_page t1 leaf)) (\<lambda>leaf_node.
            bindO (Some (as_leaf leaf_node)) (\<lambda>(arr, nxt).
              let index = Leaf_FindKey arr key
              in if index = - 1 then Some (Inr (UnpinPage t1 leaf False))
                 else
                   let leaf_node' = leaf_node\<lparr>node := LeafNode (RemoveAt arr index) nxt\<rparr>;
                       t2 = write_page t1 leaf leaf_node'
                   in if GetSize leaf_node' < GetMinSize leaf_node'
                      then CoalesceOrRedistribute t2 leaf
                      else Some (Inr (UnpinPage t2 leaf True))))))"

fun remove_keys :: "BPlusTree \<Rightarrow> KeyType list \<Rightarrow> (tree_error + BPlusTree) option" where
  "remove_keys t [] = Some (Inr t)"
| "remove_keys t (k # rest) = bindO (Remove t k) (\<lambda>t1. remove_keys t1 rest)"


text \<open>Leaf and internal maximum size 4: the keys 1 to 4 inserted in order, then key 1 removed.\<close>

definition tree_after_remove_1 :: "(tree_error + BPlusTree) option" where
  "tree_after_remove_1 =
     bindO (insert_keys (new_BPlusTree ''index'' pool_with_header 4 4)
              (map (\<lambda>k. (k, RID 0 k)) [1, 2, 3, 4]))
       (\<lambda>t. Remove t 1)"

subsection \<open>Scenario E: leaf and internal maximum size 3, keys 1 to 10 inserted in order\<close>

definition header_pg :: "(string \<times> page_id_t) list \<Rightarrow> page_id_t \<times> pool_page" where
  "header_pg records = (HEADER_PAGE_ID, \<lparr>content = HeaderContent records, pins = 0, dirty = True\<rparr>)"

definition leaf_pg ::
    "page_id_t \<Rightarrow> page_id_t \<Rightarrow> (KeyType \<times> RID) list \<Rightarrow> page_id_t \<Rightarrow> page_id_t \<times> pool_page" where
  "leaf_pg pid parent arr nxt =
     (pid, \<lparr>content = TreeContent \<lparr>tp_page_id = pid, parent_page_id = parent, max_size = 3,
                                   node = LeafNode arr nxt\<rparr>,
            pins = 0, dirty = True\<rparr>)"

definition internal_pg ::
    "page_id_t \<Rightarrow> page_id_t \<Rightarrow> (KeyType \<times> page_id_t) list \<Rightarrow> page_id_t \<times> pool_page" where
  "internal_pg pid parent arr =
     (pid, \<lparr>content = TreeContent \<lparr>tp_page_id = pid, parent_page_id = parent, max_size = 3,
                                   node = InternalNode arr\<rparr>,
            pins = 0, dirty = True\<rparr>)"

text \<open>
  The tree after the ten inserts: every insert from the fourth on splits each page on its
  path, so the tree has grown to nine levels of internal pages with one or two children.
\<close>

definition tree_after_E :: BPlusTree where
  "tree_after_E =
     \<lparr>index_name = ''index'', root_page_id = 45, leaf_max_size = 3, internal_max_size = 3,
      bpm = \<lparr>resident =
       [header_pg [(''index'', 1)],
        leaf_pg 1 3 [(1, RID 0 1)] 2,
        leaf_pg 2 5 [(2, RID 0 2)] 4,
        internal_pg 3 6 [(0, 1)],
        leaf_pg 4 8 [(3, RID 0 3)] 7,
        internal_pg 5 9 [(0, 2)],
        internal_pg 6 10 [(0, 3)],
        leaf_pg 7 12 [(4, RID 0 4)] 11,
        internal_pg 8 13 [(0, 4)],
        internal_pg 9 14 [(0, 5)],
        internal_pg 10 15 [(0, 6)],
        leaf_pg 11 17 [(5, RID 0 5)] 16,
        internal_pg 12 18 [(0, 7)],
        internal_pg 13 19 [(0, 8)],
        internal_pg 14 20 [(0, 9)],
        internal_pg 15 21 [(0, 10)],
        leaf_pg 16 23 [(6, RID 0 6)] 22,
        internal_pg 17 24 [(0, 11)],
        internal_pg 18 25 [(0, 12)],
        internal_pg 19 26 [(0, 13)],
        internal_pg 20 27 [(0, 14)],
        internal_pg 21 28 [(0, 15)],
        leaf_pg 22 30 [(7, RID 0 7)] 29,
        internal_pg 23 31 [(0, 16)],
        internal_pg 24 32 [(0, 17)],
        internal_pg 25 33 [(0, 18)],
        internal_pg 26 34 [(0, 19)],
        internal_pg 27 35 [(0, 20)],
        internal_pg 28 36 [(0, 21)],
        leaf_pg 29 38 [(8, RID 0 8)] 37,
        internal_pg 30 39 [(0, 22)],
        internal_pg 31 40 [(0, 23)],
        internal_pg 32 41 [(0, 24)],
        internal_pg 33 42 [(0, 25)],
        internal_pg 34 43 [(0, 26)],
        internal_pg 35 44 [(0, 27)],
        internal_pg 36 45 [(0, 28)],
        leaf_pg 37 38 [(9, RID 0 9), (10, RID 0 10)] (- 1),
        internal_pg 38 39 [(0, 29), (9, 37)],
        internal_pg 39 40 [(0, 30), (8, 38)],
        internal_pg 40 41 [(0, 31), (7, 39)],
        internal_pg 41 42 [(0, 32), (6, 40)],
        internal_pg 42 43 [(0, 33), (5, 41)],
        internal_pg 43 44 [(0, 34), (4, 42)],
        internal_pg 44 45 [(0, 35), (3, 43)],
        internal_pg 45 (- 1) [(0, 36), (2, 44)]],
       pool_next_page_id = 46, delete_calls = []\<rparr>\<rparr>"

lemma scenario_E_result: "scenario_E = Some (Inr tree_after_E)"
  by code_simp

subsection \<open>Scenario F: the keys 1 to 9 removed, in order, from the tree of scenario E\<close>

definition scenario_F :: "(tree_error + BPlusTree) option" where
  "scenario_F = bindO scenario_E (\<lambda>t. remove_keys t [1, 2, 3, 4, 5, 6, 7, 8, 9])"

lemma remove_1_to_8:
  "(case remove_keys tree_after_E [1, 2, 3, 4, 5, 6, 7, 8] of
      Some (Inr t) \<Rightarrow>
        root_page_id t = 45 \<and>
        map_of (resident (bpm t)) 45 =
          Some (snd (internal_pg 45 (- 1) [(0, 36), (2, 44)])) \<and>
        delete_calls (bpm t) = [(37, True)] \<and>
        map_of (resident (bpm t)) 37 = None \<and>
        map_option content (map_of (resident (bpm t)) 38) =
          Some (TreeContent \<lparr>tp_page_id = 38, parent_page_id = 39, max_size = 3,
                              node = InternalNode [(0, 29), (9, 37)]\<rparr>) \<and>
        map_option content (map_of (resident (bpm t)) 29) =
          Some (TreeContent \<lparr>tp_page_id = 29, parent_page_id = 38, max_size = 3,
                              node = LeafNode [(9, RID 0 9), (10, RID 0 10)] (- 1)\<rparr>) \<and>
        length (resident (bpm t)) = 45
    | _ \<Rightarrow> False)"
  by code_simp

lemma remove_1_to_9: "remove_keys tree_after_E [1, 2, 3, 4, 5, 6, 7, 8, 9] = Some (Inl (PageNotResident 37))"
  by code_simp

subsection \<open>Fetching and unpinning leave the pool as it was\<close>

lemma update_swap_present:
  "k \<noteq> k' \<Longrightarrow> k \<in> fst ` set al \<Longrightarrow> k' \<in> fst ` set al \<Longrightarrow>
   AList.update k v (AList.update k' v' al) = AList.update k' v' (AList.update k v al)"
  by (induction al) auto

text \<open>No page has a negative pin count, and the page \<open>page\<close> is pinned.\<close>

definition pins_nonneg :: "BPlusTree \<Rightarrow> bool" where
  "pins_nonneg t \<longleftrightarrow> list_all (\<lambda>(p, pg). 0 \<le> pins pg) (resident (bpm t))"

definition holds_pin :: "BPlusTree \<Rightarrow> page_id_t \<Rightarrow> bool" where
  "holds_pin t page \<longleftrightarrow>
     (case map_of (resident (bpm t)) page of None \<Rightarrow> False | Some pg \<Rightarrow> 0 < pins pg)"

lemma pins_nonneg_lookup:
  "pins_nonneg t \<Longrightarrow> map_of (resident (bpm t)) p = Some pg \<Longrightarrow> 0 \<le> pins pg"
  by (auto simp: pins_nonneg_def list_all_iff dest: map_of_SomeD)

lemma list_all_alist_update:
  "list_all P al \<Longrightarrow> P (k, v) \<Longrightarrow> list_all P (AList.update k v al)"
  by (induction al) auto

lemma Fetch_Unpin_same:
  assumes "FetchPage t c = Inr t1" "pins_nonneg t"
  shows "UnpinPage t1 c False = t"
proof -
  from assms(1) obtain pg where pg: "map_of (resident (bpm t)) c = Some pg"
    and t1: "t1 = t\<lparr>bpm := (bpm t)\<lparr>resident := AList.update c (pg\<lparr>pins := pins pg + 1\<rparr>) (resident (bpm t))\<rparr>\<rparr>"
    by (auto simp: FetchPage_def pool_FetchPage_def bindE_def split: option.splits)
  have nn: "0 \<le> pins pg" by (rule pins_nonneg_lookup[OF assms(2) pg])
  have "AList.update c pg (resident (bpm t)) = resident (bpm t)"
    by (rule update_triv[OF pg])
  then show ?thesis using nn
    by (simp add: t1 UnpinPage_def pool_UnpinPage_def update_conv')
qed

lemma Fetch_holds_pin:
  assumes "FetchPage t c = Inr t1" "pins_nonneg t"
  shows "holds_pin t1 c" "pins_nonneg t1"
proof -
  from assms(1) obtain pg where pg: "map_of (resident (bpm t)) c = Some pg"
    and t1: "t1 = t\<lparr>bpm := (bpm t)\<lparr>resident := AList.update c (pg\<lparr>pins := pins pg + 1\<rparr>) (resident (bpm t))\<rparr>\<rparr>"
    by (auto simp: FetchPage_def pool_FetchPage_def bindE_def split: option.splits)
  have nn: "0 \<le> pins pg" by (rule pins_nonneg_lookup[OF assms(2) pg])
  show "holds_pin t1 c" using nn by (simp add: holds_pin_def t1 update_conv')
  show "pins_nonneg t1" using assms(2) nn
    by (simp add: pins_nonneg_def t1 list_all_alist_update)
qed

lemma Unpin_pins_nonneg:
  assumes "pins_nonneg t"
  shows "pins_nonneg (UnpinPage t p d)"
proof (cases "map_of (resident (bpm t)) p")
  case None
  then show ?thesis using assms by (simp add: UnpinPage_def pool_UnpinPage_def)
next
  case (Some pg)
  then show ?thesis using assms
    by (auto simp: UnpinPage_def pool_UnpinPage_def pins_nonneg_def intro!: list_all_alist_update)
qed

lemma Unpin_other_holds_pin:
  assumes "holds_pin t c" "c \<noteq> p"
  shows "holds_pin (UnpinPage t p d) c"
  using assms
  by (auto simp: holds_pin_def UnpinPage_def pool_UnpinPage_def update_conv' split: option.splits)

lemma Unpin_Unpin_swap:
  assumes "c \<noteq> p"
  shows "UnpinPage (UnpinPage t p False) c False = UnpinPage (UnpinPage t c False) p False"
proof (cases "map_of (resident (bpm t)) p")
  case None
  then show ?thesis
    by (auto simp: UnpinPage_def pool_UnpinPage_def update_conv' assms split: option.splits)
next
  case p: (Some pg)
  show ?thesis
  proof (cases "map_of (resident (bpm t)) c")
    case None
    then show ?thesis using p assms
      by (auto simp: UnpinPage_def pool_UnpinPage_def update_conv' split: option.splits)
  next
    case c: (Some cg)
    have "p \<in> fst ` set (resident (bpm t))" "c \<in> fst ` set (resident (bpm t))"
      using p c by (force dest: map_of_SomeD simp: image_iff)+
    then show ?thesis using p c assms
      by (auto simp: UnpinPage_def pool_UnpinPage_def update_conv' update_swap_present[of c p])
  qed
qed

lemma Fetch_Unpin_swap:
  assumes "c \<noteq> p" "FetchPage t c = Inr t1"
  shows "FetchPage (UnpinPage t p False) c = Inr (UnpinPage t1 p False)"
proof -
  from assms(2) obtain cg where c: "map_of (resident (bpm t)) c = Some cg"
    and t1: "t1 = t\<lparr>bpm := (bpm t)\<lparr>resident := AList.update c (cg\<lparr>pins := pins cg + 1\<rparr>) (resident (bpm t))\<rparr>\<rparr>"
    by (auto simp: FetchPage_def pool_FetchPage_def bindE_def split: option.splits)
  have cm: "c \<in> fst ` set (resident (bpm t))" using c by (force dest: map_of_SomeD simp: image_iff)
  show ?thesis
  proof (cases "map_of (resident (bpm t)) p")
    case None
    then show ?thesis using c assms(1)
      by (simp add: t1 FetchPage_def pool_FetchPage_def bindE_def UnpinPage_def pool_UnpinPage_def
          update_conv')
  next
    case (Some pg)
    then have "p \<in> fst ` set (resident (bpm t))" by (force dest: map_of_SomeD simp: image_iff)
    then show ?thesis using c Some assms(1) cm
      by (simp add: t1 FetchPage_def pool_FetchPage_def bindE_def UnpinPage_def pool_UnpinPage_def
          update_conv' update_swap_present[of c p])
  qed
qed

lemma Fetch_child_Unpin_page:
  assumes f: "FetchPage t c = Inr t1" and nn: "pins_nonneg t" and hp: "holds_pin t page"
  shows "UnpinPage (UnpinPage t1 page False) c False = UnpinPage t page False"
    and "holds_pin (UnpinPage t1 page False) c" and "pins_nonneg (UnpinPage t1 page False)"
proof -
  show "pins_nonneg (UnpinPage t1 page False)"
    by (rule Unpin_pins_nonneg[OF Fetch_holds_pin(2)[OF f nn]])
  show "UnpinPage (UnpinPage t1 page False) c False = UnpinPage t page False"
  proof (cases "c = page")
    case False
    have "UnpinPage (UnpinPage t1 page False) c False = UnpinPage (UnpinPage t1 c False) page False"
      by (rule Unpin_Unpin_swap[OF False])
    also have "UnpinPage t1 c False = t" by (rule Fetch_Unpin_same[OF f nn])
    finally show ?thesis .
  next
    case True
    from hp obtain pg where pg: "map_of (resident (bpm t)) page = Some pg" and pos: "0 < pins pg"
      by (auto simp: holds_pin_def split: option.splits)
    from f True pg have t1: "t1 = t\<lparr>bpm := (bpm t)\<lparr>resident :=
        AList.update page (pg\<lparr>pins := pins pg + 1\<rparr>) (resident (bpm t))\<rparr>\<rparr>"
      by (auto simp: FetchPage_def pool_FetchPage_def bindE_def)
    show ?thesis using True pg pos
      by (simp add: t1 UnpinPage_def pool_UnpinPage_def update_conv')
  qed
  show "holds_pin (UnpinPage t1 page False) c"
  proof (cases "c = page")
    case False
    then show ?thesis using Fetch_holds_pin(1)[OF f nn] by (intro Unpin_other_holds_pin)
  next
    case True
    from hp obtain pg where pg: "map_of (resident (bpm t)) page = Some pg" and pos: "0 < pins pg"
      by (auto simp: holds_pin_def split: option.splits)
    from f True pg have t1: "t1 = t\<lparr>bpm := (bpm t)\<lparr>resident :=
        AList.update page (pg\<lparr>pins := pins pg + 1\<rparr>) (resident (bpm t))\<rparr>\<rparr>"
      by (auto simp: FetchPage_def pool_FetchPage_def bindE_def)
    show ?thesis using True pg pos
      by (simp add: t1 holds_pin_def UnpinPage_def pool_UnpinPage_def update_conv')
  qed
qed

lemma bindO_Some_Inr: "bindO (Some (Inr a)) f = f a"
  by (simp add: bindO_def)

lemma bindO_eq_Some_Inr:
  "bindO m f = Some (Inr r) \<longleftrightarrow> (\<exists>a. m = Some (Inr a) \<and> f a = Some (Inr r))"
  by (cases m) (auto simp: bindO_def split: sum.splits)

lemma FindLeafPage_loop_pins:
  assumes "FindLeafPage_loop t page key = Some (Inr (leaf, t'))"
    and "pins_nonneg t" and "holds_pin t page"
  shows "UnpinPage t' leaf False = UnpinPage t page False"
proof -
  have "\<forall>leaf t'. r = Inr (leaf, t') \<longrightarrow> pins_nonneg t \<longrightarrow> holds_pin t page \<longrightarrow>
           UnpinPage t' leaf False = UnpinPage t page False"
    if "FindLeafPage_loop t page key = Some r" for r
    using that
  proof (induct rule: FindLeafPage_loop.raw_induct[rotated 1, consumes 1])
    case (1 loop t page key r)
    show ?case
    proof (intro allI impI)
      fix leaf t'
      assume r: "r = Inr (leaf, t')" and nn: "pins_nonneg t" and hp: "holds_pin t page"
      from 1(2) r obtain tp where tp: "read_page t page = Inr tp"
        and body: "(case node tp of
           LeafNode arr nxt \<Rightarrow> Some (Inr (page, t))
         | InternalNode arr \<Rightarrow>
             bindO (Some (array_get arr (child_index arr key - 1))) (\<lambda>(k, child_page_id).
             bindO (Some (FetchPage t child_page_id)) (\<lambda>t1.
               loop (UnpinPage t1 page False) child_page_id key))) = Some (Inr (leaf, t'))"
        by (auto simp: bindO_eq_Some_Inr)
      show "UnpinPage t' leaf False = UnpinPage t page False"
      proof (cases "node tp")
        case (LeafNode arr nxt)
        with body show ?thesis by simp
      next
        case (InternalNode arr)
        with body obtain k c t1 where
          f: "FetchPage t c = Inr t1"
          and rec: "loop (UnpinPage t1 page False) c key = Some (Inr (leaf, t'))"
          by (auto simp: bindO_eq_Some_Inr)
        note step = Fetch_child_Unpin_page[OF f nn hp]
        from 1(1)[OF rec] step(2,3)
        have "UnpinPage t' leaf False = UnpinPage (UnpinPage t1 page False) c False" by blast
        with step(1) show ?thesis by simp
      qed
    qed
  qed
  with assms show ?thesis by blast
qed

lemma FindLeafPage_restores:
  assumes "FindLeafPage t key = Some (Inr (Some leaf, t'))" and "pins_nonneg t"
  shows "UnpinPage t' leaf False = t"
proof -
  from assms(1) obtain t1 where ne: "\<not> IsEmpty t"
    and f: "FetchPage t (root_page_id t) = Inr t1"
    and l: "FindLeafPage_loop t1 (root_page_id t) key = Some (Inr (leaf, t'))"
    by (auto simp: FindLeafPage_def bindO_eq_Some_Inr split: if_splits)
  note h = Fetch_holds_pin[OF f assms(2)]
  from FindLeafPage_loop_pins[OF l h(2) h(1)]
  have "UnpinPage t' leaf False = UnpinPage t1 (root_page_id t) False" .
  also have "\<dots> = t" by (rule Fetch_Unpin_same[OF f assms(2)])
  finally show ?thesis .
qed

lemma GetValue_present:
  assumes "GetValue t key = Some (Inr (Some v, t'))"
  shows "\<exists>leaf t1 tp arr nxt. \<not> IsEmpty t \<and> FindLeafPage t key = Some (Inr (Some leaf, t1)) \<and>
           read_page t1 leaf = Inr tp \<and> as_leaf tp = Inr (arr, nxt) \<and> map_of arr key = Some v \<and>
           t' = UnpinPage t1 leaf False"
proof -
  from assms have ne: "\<not> IsEmpty t" by (auto simp: GetValue_def split: if_splits)
  with assms obtain lp t1 where f: "FindLeafPage t key = Some (Inr (lp, t1))"
    and rest: "(case lp of None \<Rightarrow> Some (Inr (None, t1))
        | Some leaf \<Rightarrow>
            bindO (Some (bindE (read_page t1 leaf) as_leaf)) (\<lambda>(arr, nxt).
              Some (Inr (map_of arr key, UnpinPage t1 leaf False)))) = Some (Inr (Some v, t'))"
    by (auto simp: GetValue_def bindO_eq_Some_Inr)
  from rest obtain leaf where lp: "lp = Some leaf" by (cases lp) auto
  with rest obtain arr nxt where b: "bindE (read_page t1 leaf) as_leaf = Inr (arr, nxt)"
    and m: "map_of arr key = Some v" and t': "t' = UnpinPage t1 leaf False"
    by (auto simp: bindO_eq_Some_Inr)
  from b obtain tp where "read_page t1 leaf = Inr tp" "as_leaf tp = Inr (arr, nxt)"
    by (auto simp: bindE_def split: sum.splits)
  with ne f lp m t' show ?thesis by blast
qed

lemma Insert_duplicate:
  assumes g: "GetValue t key = Some (Inr (Some v, t'))" and nn: "pins_nonneg t"
  shows "Insert t key value = Some (Inr (False, t))" and "t' = t"
proof -
  from GetValue_present[OF g] obtain leaf t1 tp arr nxt where
    ne: "\<not> IsEmpty t" and f: "FindLeafPage t key = Some (Inr (Some leaf, t1))"
    and rd: "read_page t1 leaf = Inr tp" and al: "as_leaf tp = Inr (arr, nxt)"
    and m: "map_of arr key = Some v" and t': "t' = UnpinPage t1 leaf False" by blast
  have restored: "UnpinPage t1 leaf False = t" by (rule FindLeafPage_restores[OF f nn])
  show "t' = t" using t' restored by simp
  have "InsertIntoLeaf t key value = Some (Inr (False, UnpinPage t1 leaf False))"
    using f rd al m by (simp add: InsertIntoLeaf_def bindO_Some_Inr)
  then show "Insert t key value = Some (Inr (False, t))"
    using ne restored by (simp add: Insert_def)
qed

section \<open>The search-tree invariant of the B+tree\<close>

text \<open>The tree page stored under a page id, if there is one.\<close>

definition page_of :: "BPlusTree \<Rightarrow> page_id_t \<Rightarrow> tree_page option" where
  "page_of t p =
     (case map_of (resident (bpm t)) p of
        None \<Rightarrow> None
      | Some pg \<Rightarrow> (case content pg of TreeContent tp \<Rightarrow> Some tp | _ \<Rightarrow> None))"

definition is_resident :: "BPlusTree \<Rightarrow> page_id_t \<Rightarrow> bool" where
  "is_resident t p \<longleftrightarrow> map_of (resident (bpm t)) p \<noteq> None"

definition header_ok :: "BPlusTree \<Rightarrow> bool" where
  "header_ok t \<longleftrightarrow>
     (case map_of (resident (bpm t)) HEADER_PAGE_ID of
        None \<Rightarrow> False
      | Some pg \<Rightarrow> (case content pg of HeaderContent records \<Rightarrow> True | _ \<Rightarrow> False))"

lemma read_page_page_of: "read_page t p = (case page_of t p of Some tp \<Rightarrow> Inr tp
    | None \<Rightarrow> (if is_resident t p then Inl (NotATreePage p) else Inl (PageNotResident p)))"
  by (auto simp: read_page_def page_of_def is_resident_def split: option.splits page_content.splits)

lemma read_page_Some [simp]: "page_of t p = Some tp \<Longrightarrow> read_page t p = Inr tp"
  by (simp add: read_page_page_of)

lemma page_of_resident: "page_of t p = Some tp \<Longrightarrow> is_resident t p"
  by (auto simp: page_of_def is_resident_def split: option.splits)

subsection \<open>The effect of the pool's calls on the pages\<close>

lemma FetchPage_resident:
  "is_resident t p \<Longrightarrow> \<exists>t1. FetchPage t p = Inr t1 \<and> page_of t1 = page_of t \<and>
      (\<forall>q. is_resident t1 q = is_resident t q) \<and> header_ok t1 = header_ok t \<and>
      root_page_id t1 = root_page_id t \<and> leaf_max_size t1 = leaf_max_size t \<and>
      internal_max_size t1 = internal_max_size t \<and> index_name t1 = index_name t \<and>
      pool_next_page_id (bpm t1) = pool_next_page_id (bpm t)"
  by (auto simp: FetchPage_def pool_FetchPage_def bindE_def is_resident_def page_of_def
      header_ok_def update_conv' fun_eq_iff split: option.splits)

lemma UnpinPage_view [simp]:
  "page_of (UnpinPage t p d) = page_of t"
  "is_resident (UnpinPage t p d) q = is_resident t q"
  "header_ok (UnpinPage t p d) = header_ok t"
  "root_page_id (UnpinPage t p d) = root_page_id t"
  "leaf_max_size (UnpinPage t p d) = leaf_max_size t"
  "internal_max_size (UnpinPage t p d) = internal_max_size t"
  "index_name (UnpinPage t p d) = index_name t"
  "pool_next_page_id (bpm (UnpinPage t p d)) = pool_next_page_id (bpm t)"
  by (auto simp: UnpinPage_def pool_UnpinPage_def is_resident_def page_of_def
      header_ok_def update_conv' fun_eq_iff split: option.splits)

lemma write_page_view [simp]:
  "page_of (write_page t p tp) q = (if q = p \<and> is_resident t p then Some tp else page_of t q)"
  "is_resident (write_page t p tp) q = is_resident t q"
  "root_page_id (write_page t p tp) = root_page_id t"
  "leaf_max_size (write_page t p tp) = leaf_max_size t"
  "internal_max_size (write_page t p tp) = internal_max_size t"
  "index_name (write_page t p tp) = index_name t"
  "pool_next_page_id (bpm (write_page t p tp)) = pool_next_page_id (bpm t)"
  by (auto simp: write_page_def is_resident_def page_of_def update_conv' split: option.splits)

lemma write_page_header [simp]:
  "p \<noteq> HEADER_PAGE_ID \<Longrightarrow> header_ok (write_page t p tp) = header_ok t"
  by (auto simp: write_page_def header_ok_def update_conv' split: option.splits)

lemma root_update_view [simp]:
  "page_of (t\<lparr>root_page_id := r\<rparr>) = page_of t"
  "is_resident (t\<lparr>root_page_id := r\<rparr>) q = is_resident t q"
  "header_ok (t\<lparr>root_page_id := r\<rparr>) = header_ok t"
  by (auto simp: page_of_def is_resident_def header_ok_def fun_eq_iff)

lemma NewPage_view:
  assumes "NewPage t = (n, t1)"
  shows "n = pool_next_page_id (bpm t)"
    and "page_of t1 q = (if q = n then None else page_of t q)"
    and "is_resident t1 q \<longleftrightarrow> q = n \<or> is_resident t q"
    and "n \<noteq> HEADER_PAGE_ID \<Longrightarrow> header_ok t1 = header_ok t"
    and "root_page_id t1 = root_page_id t" and "leaf_max_size t1 = leaf_max_size t"
    and "internal_max_size t1 = internal_max_size t" and "index_name t1 = index_name t"
    and "pool_next_page_id (bpm t1) = n + 1"
  using assms
  by (auto simp: NewPage_def pool_NewPage_def page_of_def is_resident_def header_ok_def
      update_conv' split: option.splits)

lemma UpdateRootPageId_view:
  assumes "header_ok t"
  shows "\<exists>t1. UpdateRootPageId t ir = Inr t1 \<and> page_of t1 = page_of t \<and>
      (\<forall>q. is_resident t1 q = is_resident t q) \<and> header_ok t1 \<and>
      root_page_id t1 = root_page_id t \<and> leaf_max_size t1 = leaf_max_size t \<and>
      internal_max_size t1 = internal_max_size t \<and> index_name t1 = index_name t \<and>
      pool_next_page_id (bpm t1) = pool_next_page_id (bpm t)"
proof -
  from assms obtain pg records where pg: "map_of (resident (bpm t)) HEADER_PAGE_ID = Some pg"
    and c: "content pg = HeaderContent records"
    by (auto simp: header_ok_def split: option.splits page_content.splits)
  then have r: "is_resident t HEADER_PAGE_ID" by (simp add: is_resident_def)
  from FetchPage_resident[OF r] obtain t1 where f: "FetchPage t HEADER_PAGE_ID = Inr t1"
    and v: "page_of t1 = page_of t" "\<forall>q. is_resident t1 q = is_resident t q"
      "root_page_id t1 = root_page_id t" "leaf_max_size t1 = leaf_max_size t"
      "internal_max_size t1 = internal_max_size t" "index_name t1 = index_name t"
      "pool_next_page_id (bpm t1) = pool_next_page_id (bpm t)" by blast
  from f pg c have pg1: "map_of (resident (bpm t1)) HEADER_PAGE_ID = Some (pg\<lparr>pins := pins pg + 1\<rparr>)"
    by (auto simp: FetchPage_def pool_FetchPage_def bindE_def update_conv')
  define records' where "records' = (if ir \<noteq> 0
                                then HeaderPage_InsertRecord records (index_name t1) (root_page_id t1)
                                else HeaderPage_UpdateRecord records (index_name t1) (root_page_id t1))"
  define t2 where "t2 = t1\<lparr>bpm := (bpm t1)\<lparr>resident :=
                            AList.update HEADER_PAGE_ID (pg\<lparr>pins := pins pg + 1, content := HeaderContent records'\<rparr>)
                              (resident (bpm t1))\<rparr>\<rparr>"
  have u: "UpdateRootPageId t ir = Inr (UnpinPage t2 HEADER_PAGE_ID True)"
    using f pg1 c by (simp add: UpdateRootPageId_def bindE_def Let_def t2_def records'_def)
  have p2: "page_of t2 = page_of t1"
    using pg1 c by (auto simp: t2_def page_of_def update_conv' fun_eq_iff)
  have r2: "\<forall>q. is_resident t2 q = is_resident t1 q"
    using pg1 by (auto simp: t2_def is_resident_def update_conv')
  have h2: "header_ok t2" by (simp add: t2_def header_ok_def update_conv')
  have o2: "root_page_id t2 = root_page_id t1" "leaf_max_size t2 = leaf_max_size t1"
      "internal_max_size t2 = internal_max_size t1" "index_name t2 = index_name t1"
      "pool_next_page_id (bpm t2) = pool_next_page_id (bpm t1)" by (simp_all add: t2_def)
  show ?thesis using u p2 r2 h2 o2 v by (intro exI[of _ "UnpinPage t2 HEADER_PAGE_ID True"]) simp
qed

text \<open>
  Two states that differ at most in pin counts, dirty flags and the records of the header
  page.
\<close>

definition same_view :: "BPlusTree \<Rightarrow> BPlusTree \<Rightarrow> bool" where
  "same_view t t1 \<longleftrightarrow>
     page_of t1 = page_of t \<and> (\<forall>q. is_resident t1 q = is_resident t q) \<and>
     header_ok t1 = header_ok t \<and> root_page_id t1 = root_page_id t \<and>
     leaf_max_size t1 = leaf_max_size t \<and> internal_max_size t1 = internal_max_size t \<and>
     index_name t1 = index_name t \<and> pool_next_page_id (bpm t1) = pool_next_page_id (bpm t)"

lemma same_view_refl [simp]: "same_view t t"
  by (simp add: same_view_def)

lemma same_view_trans: "same_view t t1 \<Longrightarrow> same_view t1 t2 \<Longrightarrow> same_view t t2"
  by (simp add: same_view_def)

lemma same_view_Unpin [simp]: "same_view t (UnpinPage t1 p d) = same_view t t1"
  by (simp add: same_view_def)

lemma same_view_Fetch:
  assumes "same_view t t1" and "page_of t p = Some tp"
  shows "\<exists>t2. FetchPage t1 p = Inr t2 \<and> same_view t t2"
proof -
  from assms have "is_resident t1 p" by (auto simp: same_view_def dest: page_of_resident)
  from FetchPage_resident[OF this] show ?thesis using assms(1) by (auto simp: same_view_def)
qed

subsection \<open>Key ranges\<close>

text \<open>
  The shape of a tree, as far as the proof needs it: the ids of its pages, the height of
  each page above the leaves, and the half-open range of keys each page is responsible
  for (\<open>None\<close> is an unbounded end).
\<close>

record tree_shape =
  sh_pages :: "page_id_t set"
  sh_height :: "page_id_t \<Rightarrow> nat"
  sh_lo :: "page_id_t \<Rightarrow> KeyType option"
  sh_hi :: "page_id_t \<Rightarrow> KeyType option"

definition lt_bound :: "KeyType option \<Rightarrow> KeyType option \<Rightarrow> bool" where
  "lt_bound l u = (case l of None \<Rightarrow> True | Some a \<Rightarrow> (case u of None \<Rightarrow> True | Some b \<Rightarrow> a < b))"

definition in_range :: "KeyType option \<Rightarrow> KeyType option \<Rightarrow> KeyType \<Rightarrow> bool" where
  "in_range l u k = ((case l of None \<Rightarrow> True | Some a \<Rightarrow> a \<le> k) \<and>
                     (case u of None \<Rightarrow> True | Some b \<Rightarrow> k < b))"

text \<open>
  The children of an internal page divide its range: the first child starts where the
  page starts, every later child starts at its key, and each child ends where the next
  one starts.  The key of the first entry is not used.
\<close>

fun tiling :: "tree_shape \<Rightarrow> KeyType option \<Rightarrow> (KeyType \<times> page_id_t) list \<Rightarrow> KeyType option \<Rightarrow> bool" where
  "tiling g l [] u = False"
| "tiling g l [(k, c)] u = (sh_lo g c = l \<and> sh_hi g c = u \<and> lt_bound l u)"
| "tiling g l ((k, c) # (k', c') # rest) u =
     (sh_lo g c = l \<and> sh_hi g c = Some k' \<and> lt_bound l (Some k') \<and>
      tiling g (Some k') ((k', c') # rest) u)"

text \<open>
  A page agrees with the shape: it is stored under its own id; the keys of a leaf are
  strictly increasing and lie in the range of the leaf, and its \<open>max_size\<close> is the leaf
  maximum size of the tree; the children of an internal page are pages of the tree one
  level below it, have it as their parent, and divide its range.
\<close>

definition node_ok :: "BPlusTree \<Rightarrow> tree_shape \<Rightarrow> page_id_t \<Rightarrow> bool" where
  "node_ok t g p =
     (case page_of t p of
        None \<Rightarrow> False
      | Some tp \<Rightarrow>
          tp_page_id tp = p \<and>
          (case node tp of
             LeafNode arr nxt \<Rightarrow>
               sh_height g p = 0 \<and> sorted_wrt (<) (map fst arr) \<and>
               (\<forall>k\<in>fst ` set arr. in_range (sh_lo g p) (sh_hi g p) k) \<and>
               max_size tp = leaf_max_size t
           | InternalNode arr \<Rightarrow>
               tiling g (sh_lo g p) arr (sh_hi g p) \<and>
               (\<forall>c\<in>snd ` set arr. c \<in> sh_pages g \<and> Suc (sh_height g c) = sh_height g p \<and>
                   (\<exists>ctp. page_of t c = Some ctp \<and> parent_page_id ctp = p))))"

text \<open>Some internal page of the tree has the page among its children.\<close>

definition listed :: "BPlusTree \<Rightarrow> tree_shape \<Rightarrow> page_id_t \<Rightarrow> bool" where
  "listed t g p \<longleftrightarrow>
     (\<exists>q\<in>sh_pages g. \<exists>qtp arr. page_of t q = Some qtp \<and> node qtp = InternalNode arr \<and>
                                p \<in> snd ` set arr)"

text \<open>
  The search-tree invariant.  The header page is resident, the leaf maximum size is at
  least 2, the root is a page of the tree with no parent and an unbounded range, and every
  page of the tree has an allocated id other than the header's, is no higher than the
  root, agrees with the shape, and, unless it is the root, is the child of a page of the
  tree.
\<close>

definition tree_inv :: "BPlusTree \<Rightarrow> tree_shape \<Rightarrow> bool" where
  "tree_inv t g \<longleftrightarrow>
     header_ok t \<and> 2 \<le> leaf_max_size t \<and> root_page_id t \<in> sh_pages g \<and>
     sh_lo g (root_page_id t) = None \<and> sh_hi g (root_page_id t) = None \<and>
     (\<exists>rtp. page_of t (root_page_id t) = Some rtp \<and> parent_page_id rtp = INVALID_PAGE_ID) \<and>
     (\<forall>p\<in>sh_pages g. 0 < p \<and> p < pool_next_page_id (bpm t) \<and>
         sh_height g p \<le> sh_height g (root_page_id t) \<and> node_ok t g p \<and>
         (p \<noteq> root_page_id t \<longrightarrow> listed t g p))"

text \<open>The entries of a leaf page.\<close>

definition leaf_at :: "BPlusTree \<Rightarrow> page_id_t \<Rightarrow> (KeyType \<times> RID) list option" where
  "leaf_at t p =
     (case page_of t p of
        None \<Rightarrow> None
      | Some tp \<Rightarrow> (case node tp of LeafNode arr nxt \<Rightarrow> Some arr | InternalNode arr \<Rightarrow> None))"

text \<open>
  The pairs stored in the leaves of the tree, and the condition that every leaf, but for
  the leaves in \<open>X\<close>, has fewer entries than the leaf maximum size.
\<close>

definition entries :: "BPlusTree \<Rightarrow> tree_shape \<Rightarrow> (KeyType \<times> RID) set" where
  "entries t g = {(k, v). \<exists>p\<in>sh_pages g. \<exists>arr. leaf_at t p = Some arr \<and> (k, v) \<in> set arr}"

definition sizes_ok :: "BPlusTree \<Rightarrow> tree_shape \<Rightarrow> page_id_t set \<Rightarrow> bool" where
  "sizes_ok t g X \<longleftrightarrow>
     (\<forall>p\<in>sh_pages g - X. \<forall>arr. leaf_at t p = Some arr \<longrightarrow>
         int (length arr) < leaf_max_size t)"

lemma leaf_at_Some:
  "leaf_at t p = Some arr \<longleftrightarrow> (\<exists>tp nxt. page_of t p = Some tp \<and> node tp = LeafNode arr nxt)"
  by (auto simp: leaf_at_def split: option.splits tree_node.splits)

lemma same_view_node_ok:
  assumes "same_view t t1"
  shows "node_ok t1 g p = node_ok t g p"
  using assms
  by (simp add: same_view_def node_ok_def cong: option.case_cong tree_node.case_cong)

lemma same_view_inv:
  assumes "same_view t t1"
  shows "tree_inv t1 g = tree_inv t g" "entries t1 g = entries t g"
    "sizes_ok t1 g X = sizes_ok t g X"
  using assms same_view_node_ok[OF assms]
  by (simp_all add: same_view_def tree_inv_def entries_def sizes_ok_def listed_def leaf_at_def)

subsection \<open>Facts about a tiling\<close>

lemma tiling_nonempty: "tiling g l arr u \<Longrightarrow> arr \<noteq> []"
  by (cases arr) auto

lemma lt_bound_trans: "lt_bound l (Some k) \<Longrightarrow> lt_bound (Some k) u \<Longrightarrow> lt_bound l u"
  by (auto simp: lt_bound_def split: option.splits)

lemma tiling_lt: "tiling g l arr u \<Longrightarrow> lt_bound l u"
proof (induction g l arr u rule: tiling.induct)
  case (3 g l k c k' c' rest u)
  then show ?case using lt_bound_trans by auto
qed auto

lemma in_range_widen_hi: "in_range l (Some k) key \<Longrightarrow> lt_bound (Some k) u \<Longrightarrow> in_range l u key"
  by (auto simp: in_range_def lt_bound_def split: option.splits)

lemma in_range_widen_lo: "in_range (Some k) u key \<Longrightarrow> lt_bound l (Some k) \<Longrightarrow> in_range l u key"
  by (auto simp: in_range_def lt_bound_def split: option.splits)

text \<open>The range of a child lies inside the range of its parent.\<close>

lemma tiling_child_range:
  "tiling g l arr u \<Longrightarrow> c \<in> snd ` set arr \<Longrightarrow> in_range (sh_lo g c) (sh_hi g c) key \<Longrightarrow>
   in_range l u key"
proof (induction g l arr u rule: tiling.induct)
  case (3 g l k c0 k' c' rest u)
  from 3(2) have t: "tiling g (Some k') ((k', c') # rest) u" and lt: "lt_bound l (Some k')"
    and c0: "sh_lo g c0 = l" "sh_hi g c0 = Some k'" by auto
  show ?case
  proof (cases "c = c0")
    case True
    then show ?thesis using c0 3(4) tiling_lt[OF t] by (auto intro: in_range_widen_hi)
  next
    case False
    then have "c \<in> snd ` set ((k', c') # rest)" using 3(3) by auto
    from 3(1)[OF t this 3(4)] show ?thesis using lt by (rule in_range_widen_lo)
  qed
qed auto

text \<open>Two children whose ranges share a key are the same child.\<close>

lemma tiling_lo_ge:
  "tiling g l arr u \<Longrightarrow> c \<in> snd ` set arr \<Longrightarrow> in_range (sh_lo g c) (sh_hi g c) key \<Longrightarrow>
   in_range l None key"
  using tiling_child_range[of g l arr u c key] by (auto simp: in_range_def split: option.splits)

lemma tiling_disjoint:
  "tiling g l arr u \<Longrightarrow> c \<in> snd ` set arr \<Longrightarrow> d \<in> snd ` set arr \<Longrightarrow>
   in_range (sh_lo g c) (sh_hi g c) key \<Longrightarrow> in_range (sh_lo g d) (sh_hi g d) key \<Longrightarrow> c = d"
proof (induction g l arr u rule: tiling.induct)
  case (3 g l k c0 k' c' rest u)
  from 3(2) have t: "tiling g (Some k') ((k', c') # rest) u"
    and c0: "sh_lo g c0 = l" "sh_hi g c0 = Some k'" by auto
  have later: "x = c0" if "x \<in> snd ` set ((k', c') # rest)" "in_range (sh_lo g x) (sh_hi g x) key"
      "in_range (sh_lo g c0) (sh_hi g c0) key" for x
    using tiling_lo_ge[OF t that(1,2)] that(3) c0 by (auto simp: in_range_def)
  show ?case
  proof (cases "c = c0")
    case True
    show ?thesis
    proof (cases "d = c0")
      case False
      then have "d \<in> snd ` set ((k', c') # rest)" using 3(4) by auto
      from later[OF this 3(6)] 3(5) True show ?thesis by simp
    qed (use True in simp)
  next
    case False
    then have c: "c \<in> snd ` set ((k', c') # rest)" using 3(3) by auto
    show ?thesis
    proof (cases "d = c0")
      case True
      from later[OF c 3(5)] 3(6) True show ?thesis by simp
    next
      case False
      then have "d \<in> snd ` set ((k', c') # rest)" using 3(4) by auto
      from 3(1)[OF t c this 3(5,6)] show ?thesis .
    qed
  qed
qed auto

text \<open>The child that \<open>FindLeafPage\<close> descends into is the one whose range has the key.\<close>

lemma tiling_child_index:
  "tiling g l arr u \<Longrightarrow> in_range l u key \<Longrightarrow>
   \<exists>k c. array_get arr (child_index arr key - 1) = Inr (k, c) \<and> c \<in> snd ` set arr \<and>
         in_range (sh_lo g c) (sh_hi g c) key"
proof (induction g l arr u rule: tiling.induct)
  case (2 g l k c u)
  then show ?case by (simp add: child_index_def array_get_def)
next
  case (3 g l k c0 k' c' rest u)
  from 3(2) have t: "tiling g (Some k') ((k', c') # rest) u"
    and c0: "sh_lo g c0 = l" "sh_hi g c0 = Some k'" by auto
  show ?case
  proof (cases "k' \<le> key")
    case True
    then have "in_range (Some k') u key" using 3(3) by (auto simp: in_range_def)
    from 3(1)[OF t this] obtain ka ca where
      g: "array_get ((k', c') # rest) (child_index ((k', c') # rest) key - 1) = Inr (ka, ca)"
      and c: "ca \<in> snd ` set ((k', c') # rest)" "in_range (sh_lo g ca) (sh_hi g ca) key" by blast
    have ci: "child_index ((k, c0) # (k', c') # rest) key = 1 + child_index ((k', c') # rest) key"
      using True by (simp add: child_index_def)
    have pos: "1 \<le> child_index ((k', c') # rest) key" by (simp add: child_index_def)
    have "array_get ((k, c0) # (k', c') # rest) (child_index ((k, c0) # (k', c') # rest) key - 1)
          = Inr (ka, ca)"
      using g pos unfolding ci array_get_def
      by (auto split: if_splits simp: nth_Cons' nat_diff_distrib)
    then show ?thesis using c by auto
  next
    case False
    then have "child_index ((k, c0) # (k', c') # rest) key = 1" by (simp add: child_index_def)
    moreover have "in_range (sh_lo g c0) (sh_hi g c0) key" using c0 3(3) False
      by (auto simp: in_range_def)
    ultimately show ?thesis by (auto simp: array_get_def)
  qed
qed auto

subsection \<open>Reading the invariant\<close>

lemma node_okD:
  assumes "node_ok t g p"
  obtains tp where "page_of t p = Some tp" "tp_page_id tp = p"
  using assms by (auto simp: node_ok_def split: option.splits)

lemma node_ok_leafD:
  assumes "node_ok t g p" and "page_of t p = Some tp" and "node tp = LeafNode arr nxt"
  shows "sh_height g p = 0" "sorted_wrt (<) (map fst arr)"
    "\<And>k v. (k, v) \<in> set arr \<Longrightarrow> in_range (sh_lo g p) (sh_hi g p) k"
    "max_size tp = leaf_max_size t" "tp_page_id tp = p"
  using assms by (auto simp: node_ok_def)

lemma node_ok_internalD:
  assumes "node_ok t g p" and "page_of t p = Some tp" and "node tp = InternalNode arr"
  shows "tiling g (sh_lo g p) arr (sh_hi g p)"
    "\<And>c. c \<in> snd ` set arr \<Longrightarrow> c \<in> sh_pages g"
    "\<And>c. c \<in> snd ` set arr \<Longrightarrow> Suc (sh_height g c) = sh_height g p"
    "\<And>c. c \<in> snd ` set arr \<Longrightarrow> \<exists>ctp. page_of t c = Some ctp \<and> parent_page_id ctp = p"
    "tp_page_id tp = p"
  using assms by (auto simp: node_ok_def)

lemma tree_invD:
  assumes "tree_inv t g"
  shows "header_ok t" "2 \<le> leaf_max_size t" "root_page_id t \<in> sh_pages g"
    "sh_lo g (root_page_id t) = None" "sh_hi g (root_page_id t) = None"
    "\<exists>rtp. page_of t (root_page_id t) = Some rtp \<and> parent_page_id rtp = INVALID_PAGE_ID"
    "\<And>p. p \<in> sh_pages g \<Longrightarrow> 0 < p"
    "\<And>p. p \<in> sh_pages g \<Longrightarrow> p < pool_next_page_id (bpm t)"
    "\<And>p. p \<in> sh_pages g \<Longrightarrow> sh_height g p \<le> sh_height g (root_page_id t)"
    "\<And>p. p \<in> sh_pages g \<Longrightarrow> node_ok t g p"
    "\<And>p. p \<in> sh_pages g \<Longrightarrow> p \<noteq> root_page_id t \<Longrightarrow> listed t g p"
  using assms by (auto simp: tree_inv_def)

lemma tree_inv_page:
  assumes "tree_inv t g" and "p \<in> sh_pages g"
  obtains tp where "page_of t p = Some tp" "tp_page_id tp = p"
  using tree_invD(10)[OF assms] by (rule node_okD)

text \<open>A page that is not the root is a child of its parent, which is a page of the tree.\<close>

lemma tree_inv_parent:
  assumes inv: "tree_inv t g" and p: "p \<in> sh_pages g" and nr: "p \<noteq> root_page_id t"
    and tp: "page_of t p = Some tp"
  shows "\<exists>qtp arr. parent_page_id tp \<in> sh_pages g \<and> page_of t (parent_page_id tp) = Some qtp \<and>
           node qtp = InternalNode arr \<and> p \<in> snd ` set arr"
proof -
  from tree_invD(11)[OF inv p nr] obtain q qtp arr where q: "q \<in> sh_pages g"
    and qtp: "page_of t q = Some qtp" "node qtp = InternalNode arr" and c: "p \<in> snd ` set arr"
    by (auto simp: listed_def)
  from node_ok_internalD(4)[OF tree_invD(10)[OF inv q] qtp c] tp have "parent_page_id tp = q"
    by auto
  then show ?thesis using q qtp c by auto
qed

lemma tree_inv_not_root:
  assumes inv: "tree_inv t g" and p: "p \<in> sh_pages g" and tp: "page_of t p = Some tp"
  shows "IsRootPage tp \<longleftrightarrow> p = root_page_id t"
proof
  assume r: "IsRootPage tp"
  show "p = root_page_id t"
  proof (rule ccontr)
    assume "p \<noteq> root_page_id t"
    from tree_inv_parent[OF inv p this tp] have "parent_page_id tp \<in> sh_pages g" by auto
    from tree_invD(7)[OF inv this] r show False by (simp add: IsRootPage_def INVALID_PAGE_ID_def)
  qed
next
  assume "p = root_page_id t"
  then show "IsRootPage tp" using tree_invD(6)[OF inv] tp by (auto simp: IsRootPage_def)
qed

lemma tree_inv_nonempty:
  assumes inv: "tree_inv t g"
  shows "\<not> IsEmpty t"
  using tree_invD(7)[OF inv tree_invD(3)[OF inv]] by (simp add: IsEmpty_def INVALID_PAGE_ID_def)

subsection \<open>Search reaches the leaf whose range has the key\<close>

lemma FindLeafPage_loop_reaches:
  assumes inv: "tree_inv t g"
  shows "p \<in> sh_pages g \<Longrightarrow> in_range (sh_lo g p) (sh_hi g p) key \<Longrightarrow> same_view t t1 \<Longrightarrow>
     \<exists>leaf t2 tp arr nxt. FindLeafPage_loop t1 p key = Some (Inr (leaf, t2)) \<and> same_view t t2 \<and>
        leaf \<in> sh_pages g \<and> in_range (sh_lo g leaf) (sh_hi g leaf) key \<and>
        page_of t leaf = Some tp \<and> node tp = LeafNode arr nxt"
proof (induction "sh_height g p" arbitrary: p t1 rule: less_induct)
  case less
  from tree_inv_page[OF inv less(2)] obtain tp where tp: "page_of t p = Some tp" by blast
  from less(4) have tp1: "page_of t1 p = Some tp" using tp by (simp add: same_view_def)
  note ok = tree_invD(10)[OF inv less(2)]
  show ?case
  proof (cases "node tp")
    case (LeafNode arr nxt)
    then show ?thesis using tp tp1 less(2,3,4)
      by (subst FindLeafPage_loop.simps) (simp add: bindO_def)
  next
    case (InternalNode arr)
    note int = node_ok_internalD[OF ok tp InternalNode]
    from tiling_child_index[OF int(1) less(3)] obtain k c where
      ag: "array_get arr (child_index arr key - 1) = Inr (k, c)" and c: "c \<in> snd ` set arr"
      and cr: "in_range (sh_lo g c) (sh_hi g c) key" by blast
    from int(4)[OF c] obtain ctp where ctp: "page_of t c = Some ctp" by blast
    from same_view_Fetch[OF less(4) ctp] obtain t2 where
      f: "FetchPage t1 c = Inr t2" and sv: "same_view t t2" by blast
    have h: "sh_height g c < sh_height g p" using int(3)[OF c] by simp
    have sv': "same_view t (UnpinPage t2 p False)" using sv by simp
    from less(1)[OF h int(2)[OF c] cr sv'] obtain leaf t3 ltp larr lnxt where
      r: "FindLeafPage_loop (UnpinPage t2 p False) c key = Some (Inr (leaf, t3))"
        "same_view t t3" "leaf \<in> sh_pages g" "in_range (sh_lo g leaf) (sh_hi g leaf) key"
        "page_of t leaf = Some ltp" "node ltp = LeafNode larr lnxt" by blast
    have "FindLeafPage_loop t1 p key = Some (Inr (leaf, t3))"
      using tp1 InternalNode ag f r(1) by (subst FindLeafPage_loop.simps) (simp add: bindO_def)
    then show ?thesis using r by blast
  qed
qed

lemma in_range_None [simp]: "in_range None None key"
  by (simp add: in_range_def)

lemma FindLeafPage_reaches:
  assumes inv: "tree_inv t g"
  shows "\<exists>leaf t2 tp arr nxt. FindLeafPage t key = Some (Inr (Some leaf, t2)) \<and> same_view t t2 \<and>
        leaf \<in> sh_pages g \<and> in_range (sh_lo g leaf) (sh_hi g leaf) key \<and>
        page_of t leaf = Some tp \<and> node tp = LeafNode arr nxt"
proof -
  from tree_invD(6)[OF inv] obtain rtp where rtp: "page_of t (root_page_id t) = Some rtp" by blast
  from same_view_Fetch[OF same_view_refl rtp] obtain t1 where
    f: "FetchPage t (root_page_id t) = Inr t1" and sv: "same_view t t1" by blast
  note ne = tree_inv_nonempty[OF inv]
  have rng: "in_range (sh_lo g (root_page_id t)) (sh_hi g (root_page_id t)) key"
    using tree_invD(4,5)[OF inv] by simp
  from FindLeafPage_loop_reaches[OF inv tree_invD(3)[OF inv] rng sv]
  obtain leaf t2 tp arr nxt where
    r: "FindLeafPage_loop t1 (root_page_id t) key = Some (Inr (leaf, t2))" "same_view t t2"
      "leaf \<in> sh_pages g" "in_range (sh_lo g leaf) (sh_hi g leaf) key"
      "page_of t leaf = Some tp" "node tp = LeafNode arr nxt" by blast
  have "FindLeafPage t key = Some (Inr (Some leaf, t2))"
    using ne f r(1) by (simp add: FindLeafPage_def bindO_def)
  then show ?thesis using r by blast
qed

subsection \<open>Only one page of each height has a given key in its range\<close>

lemma range_unique:
  assumes inv: "tree_inv t g"
  shows "p \<in> sh_pages g \<Longrightarrow> q \<in> sh_pages g \<Longrightarrow> sh_height g p = sh_height g q \<Longrightarrow>
    in_range (sh_lo g p) (sh_hi g p) key \<Longrightarrow> in_range (sh_lo g q) (sh_hi g q) key \<Longrightarrow> p = q"
proof (induction "sh_height g (root_page_id t) - sh_height g p" arbitrary: p q rule: less_induct)
  case less
  have top: "x = root_page_id t"
    if "x \<in> sh_pages g" "sh_height g x = sh_height g (root_page_id t)" for x
  proof (rule ccontr)
    assume nr: "x \<noteq> root_page_id t"
    from tree_inv_page[OF inv that(1)] obtain xtp where xtp: "page_of t x = Some xtp" by blast
    from tree_inv_parent[OF inv that(1) nr xtp] obtain ptp arr where
      pp: "parent_page_id xtp \<in> sh_pages g" "page_of t (parent_page_id xtp) = Some ptp"
        "node ptp = InternalNode arr" "x \<in> snd ` set arr" by blast
    from node_ok_internalD(3)[OF tree_invD(10)[OF inv pp(1)] pp(2,3,4)]
      tree_invD(9)[OF inv pp(1)] that(2) show False by simp
  qed
  show ?case
  proof (cases "p = root_page_id t")
    case True
    then show ?thesis using top[OF less(3)] less(4) by simp
  next
    case False
    have qnr: "q \<noteq> root_page_id t" using top[OF less(2)] less(4) False by auto
    from tree_inv_page[OF inv less(2)] obtain ptp where ptp: "page_of t p = Some ptp" by blast
    from tree_inv_page[OF inv less(3)] obtain qtp where qtp: "page_of t q = Some qtp" by blast
    from tree_inv_parent[OF inv less(2) False ptp] obtain pptp parr where
      pp: "parent_page_id ptp \<in> sh_pages g" "page_of t (parent_page_id ptp) = Some pptp"
        "node pptp = InternalNode parr" "p \<in> snd ` set parr" by blast
    from tree_inv_parent[OF inv less(3) qnr qtp] obtain qptp qarr where
      qp: "parent_page_id qtp \<in> sh_pages g" "page_of t (parent_page_id qtp) = Some qptp"
        "node qptp = InternalNode qarr" "q \<in> snd ` set qarr" by blast
    note pint = node_ok_internalD[OF tree_invD(10)[OF inv pp(1)] pp(2,3)]
    note qint = node_ok_internalD[OF tree_invD(10)[OF inv qp(1)] qp(2,3)]
    have hp: "Suc (sh_height g p) = sh_height g (parent_page_id ptp)" using pint(3)[OF pp(4)] .
    have hq: "Suc (sh_height g q) = sh_height g (parent_page_id qtp)" using qint(3)[OF qp(4)] .
    have le: "sh_height g (parent_page_id ptp) \<le> sh_height g (root_page_id t)"
      using tree_invD(9)[OF inv pp(1)] .
    have m: "sh_height g (root_page_id t) - sh_height g (parent_page_id ptp)
              < sh_height g (root_page_id t) - sh_height g p" using hp le by arith
    have rp: "in_range (sh_lo g (parent_page_id ptp)) (sh_hi g (parent_page_id ptp)) key"
      using tiling_child_range[OF pint(1) pp(4) less(5)] .
    have rq: "in_range (sh_lo g (parent_page_id qtp)) (sh_hi g (parent_page_id qtp)) key"
      using tiling_child_range[OF qint(1) qp(4) less(6)] .
    have same: "parent_page_id ptp = parent_page_id qtp"
      using less(1)[OF m pp(1) qp(1) _ rp rq] hp hq less(4) by simp
    then have "q \<in> snd ` set parr" using qp pp by simp
    from tiling_disjoint[OF pint(1) pp(4) this less(5,6)] show ?thesis .
  qed
qed

subsection \<open>Lookup\<close>

text \<open>The tree holds the map \<open>M\<close>: its leaves hold exactly the pairs of \<open>M\<close>.\<close>

definition holds_map :: "BPlusTree \<Rightarrow> tree_shape \<Rightarrow> (KeyType \<rightharpoonup> RID) \<Rightarrow> bool" where
  "holds_map t g M \<longleftrightarrow> entries t g = {(k, v). M k = Some v}"

lemma sorted_map_of:
  "sorted_wrt (<) (map fst arr) \<Longrightarrow> (k::int, v) \<in> set arr \<Longrightarrow> map_of arr k = Some v"
  by (intro map_of_is_SomeI) (auto simp: strict_sorted_iff)

lemma leaf_lookup:
  assumes inv: "tree_inv t g" and hm: "holds_map t g M"
    and leaf: "leaf \<in> sh_pages g" "in_range (sh_lo g leaf) (sh_hi g leaf) key"
      "page_of t leaf = Some tp" "node tp = LeafNode arr nxt"
  shows "map_of arr key = M key"
proof (cases "M key")
  case None
  show ?thesis
  proof (cases "map_of arr key")
    case (Some v)
    then have "(key, v) \<in> set arr" by (rule map_of_SomeD)
    then have "(key, v) \<in> entries t g" using leaf by (auto simp: entries_def leaf_at_Some)
    then show ?thesis using hm None by (simp add: holds_map_def)
  qed (simp add: None)
next
  case (Some v)
  then have "(key, v) \<in> entries t g" using hm by (simp add: holds_map_def)
  then obtain p ptp parr pnxt where p: "p \<in> sh_pages g" "page_of t p = Some ptp"
    "node ptp = LeafNode parr pnxt" "(key, v) \<in> set parr"
    by (auto simp: entries_def leaf_at_Some)
  note pl = node_ok_leafD[OF tree_invD(10)[OF inv p(1)] p(2,3)]
  note ll = node_ok_leafD[OF tree_invD(10)[OF inv leaf(1)] leaf(3,4)]
  have "p = leaf"
    using range_unique[OF inv p(1) leaf(1) _ pl(3)[OF p(4)] leaf(2)] pl(1) ll(1) by simp
  then have "(key, v) \<in> set arr" using p leaf by simp
  from sorted_map_of[OF ll(2) this] Some show ?thesis by simp
qed

lemma GetValue_correct:
  assumes inv: "tree_inv t g" and hm: "holds_map t g M"
  shows "\<exists>t'. GetValue t key = Some (Inr (M key, t')) \<and> same_view t t'"
proof -
  from FindLeafPage_reaches[OF inv, of key] obtain leaf t2 tp arr nxt where
    r: "FindLeafPage t key = Some (Inr (Some leaf, t2))" "same_view t t2"
      "leaf \<in> sh_pages g" "in_range (sh_lo g leaf) (sh_hi g leaf) key"
      "page_of t leaf = Some tp" "node tp = LeafNode arr nxt" by blast
  note ne = tree_inv_nonempty[OF inv]
  have tp2: "page_of t2 leaf = Some tp" using r(2,5) by (simp add: same_view_def)
  have "GetValue t key = Some (Inr (map_of arr key, UnpinPage t2 leaf False))"
    using ne r(1) tp2 r(6) by (simp add: GetValue_def bindO_def bindE_def as_leaf_def)
  then show ?thesis using leaf_lookup[OF inv hm r(3,4,5,6)] r(2) by simp
qed

subsection \<open>Pages that an update does not touch\<close>

lemma tiling_cong:
  "(\<And>c. c \<in> snd ` set arr \<Longrightarrow> sh_lo g' c = sh_lo g c \<and> sh_hi g' c = sh_hi g c) \<Longrightarrow>
   tiling g' l arr u = tiling g l arr u"
  by (induction g l arr u rule: tiling.induct) auto

definition keeps_parent :: "BPlusTree \<Rightarrow> BPlusTree \<Rightarrow> page_id_t \<Rightarrow> bool" where
  "keeps_parent t t' c \<longleftrightarrow>
     (\<forall>ctp. page_of t c = Some ctp \<longrightarrow>
        (\<exists>ctp'. page_of t' c = Some ctp' \<and> parent_page_id ctp' = parent_page_id ctp))"

lemma keeps_parent_same: "page_of t' c = page_of t c \<Longrightarrow> keeps_parent t t' c"
  by (simp add: keeps_parent_def)

definition same_shape_at :: "tree_shape \<Rightarrow> tree_shape \<Rightarrow> page_id_t \<Rightarrow> bool" where
  "same_shape_at g g' c \<longleftrightarrow>
     sh_lo g' c = sh_lo g c \<and> sh_hi g' c = sh_hi g c \<and> sh_height g' c = sh_height g c"

text \<open>The page is the same but for its parent pointer.\<close>

definition same_node :: "BPlusTree \<Rightarrow> BPlusTree \<Rightarrow> page_id_t \<Rightarrow> bool" where
  "same_node t t' p \<longleftrightarrow>
     (\<forall>tp. page_of t p = Some tp \<longrightarrow>
        (\<exists>tp'. page_of t' p = Some tp' \<and> tp_page_id tp' = tp_page_id tp \<and> node tp' = node tp \<and>
               max_size tp' = max_size tp))"

lemma same_node_same: "page_of t' p = page_of t p \<Longrightarrow> same_node t t' p"
  by (simp add: same_node_def)

lemma same_node_leaf_at: "same_node t t' p \<Longrightarrow> page_of t p \<noteq> None \<Longrightarrow> leaf_at t' p = leaf_at t p"
  by (auto simp: same_node_def leaf_at_def)

lemma node_ok_frame:
  assumes ok: "node_ok t g p"
    and pg: "same_node t t' p" and lm: "leaf_max_size t' = leaf_max_size t"
    and self: "same_shape_at g g' p"
    and sub: "sh_pages g \<subseteq> sh_pages g'"
    and ch: "\<And>tp arr c. page_of t p = Some tp \<Longrightarrow> node tp = InternalNode arr \<Longrightarrow>
                c \<in> snd ` set arr \<Longrightarrow> same_shape_at g g' c \<and> keeps_parent t t' c"
  shows "node_ok t' g' p"
proof -
  from ok obtain tp where tp: "page_of t p = Some tp" and id: "tp_page_id tp = p"
    by (rule node_okD)
  from pg tp obtain tp' where tp': "page_of t' p = Some tp'" "tp_page_id tp' = tp_page_id tp"
    "node tp' = node tp" "max_size tp' = max_size tp" by (auto simp: same_node_def)
  show ?thesis
  proof (cases "node tp")
    case (LeafNode arr nxt)
    from node_ok_leafD[OF ok tp LeafNode] show ?thesis
      using tp' lm self LeafNode by (auto simp: node_ok_def same_shape_at_def)
  next
    case (InternalNode arr)
    note int = node_ok_internalD[OF ok tp InternalNode]
    have "tiling g' (sh_lo g p) arr (sh_hi g p) = tiling g (sh_lo g p) arr (sh_hi g p)"
      using ch[OF tp InternalNode] by (intro tiling_cong) (simp add: same_shape_at_def)
    then have til: "tiling g' (sh_lo g' p) arr (sh_hi g' p)"
      using int(1) self by (simp add: same_shape_at_def)
    have kids: "c \<in> sh_pages g' \<and> Suc (sh_height g' c) = sh_height g' p \<and>
                (\<exists>ctp. page_of t' c = Some ctp \<and> parent_page_id ctp = p)"
      if c: "c \<in> snd ` set arr" for c
    proof -
      from ch[OF tp InternalNode c] have s: "same_shape_at g g' c" and k: "keeps_parent t t' c"
        by auto
      from int(4)[OF c] k have "\<exists>ctp. page_of t' c = Some ctp \<and> parent_page_id ctp = p"
        by (auto simp: keeps_parent_def)
      then show ?thesis using int(2)[OF c] int(3)[OF c] s self sub
        by (auto simp: same_shape_at_def)
    qed
    show ?thesis using tp' id InternalNode til kids by (auto simp: node_ok_def)
  qed
qed

text \<open>A child has its parent's id as parent pointer, so no other page lists it.\<close>

lemma child_parent_pointer:
  assumes "node_ok t g p" and "page_of t p = Some tp" and "node tp = InternalNode arr"
    and "c \<in> snd ` set arr" and "page_of t c = Some ctp"
  shows "parent_page_id ctp = p"
  using node_ok_internalD(4)[OF assms(1,2,3,4)] assms(5) by auto

subsection \<open>The binary search of a leaf\<close>

lemma leaf_search_absent:
  fixes arr :: "(KeyType \<times> RID) list"
  shows "sorted_wrt (<) (map fst arr) \<Longrightarrow> key \<notin> fst ` set arr \<Longrightarrow>
     0 \<le> left \<Longrightarrow> left \<le> right + 1 \<Longrightarrow> right < int (length arr) \<Longrightarrow>
     (\<forall>j. j < nat left \<longrightarrow> fst (arr ! j) < key) \<Longrightarrow>
     (\<forall>j. nat (right + 1) \<le> j \<and> j < length arr \<longrightarrow> key < fst (arr ! j)) \<Longrightarrow>
     \<exists>i. leaf_search arr key left right = Inr (int i) \<and> i \<le> length arr \<and>
         (\<forall>j. j < i \<longrightarrow> fst (arr ! j) < key) \<and>
         (\<forall>j. i \<le> j \<and> j < length arr \<longrightarrow> key < fst (arr ! j))"
proof (induction "nat (right - left + 1)" arbitrary: left right rule: less_induct)
  case less
  note srt = less.prems(1) and absent = less.prems(2) and l0 = less.prems(3)
    and lr1 = less.prems(4) and rl = less.prems(5) and lower = less.prems(6)
    and upper = less.prems(7)
  show ?case
  proof (cases "left \<le> right")
    case False
    then have lr: "left = right + 1" using lr1 by simp
    have "leaf_search arr key left right = Inr (int (nat left))"
      using False l0 by (subst leaf_search.simps) simp
    moreover have "nat left \<le> length arr" using lr rl by simp
    ultimately show ?thesis using lower upper lr by (intro exI[of _ "nat left"]) simp
  next
    case True
    define mid where "mid = left + (right - left) div 2"
    have mid: "left \<le> mid" "mid \<le> right" using True by (simp_all add: mid_def)
    then have mr: "0 \<le> mid" "mid < int (length arr)" using l0 rl by simp_all
    obtain k v where kv: "arr ! nat mid = (k, v)" by (cases "arr ! nat mid")
    have ag: "array_get arr mid = Inr (k, v)" using mr kv by (simp add: array_get_def)
    have "(k, v) \<in> set arr" using mr kv by (metis nat_less_iff nth_mem)
    then have ne: "k \<noteq> key" using absent by force
    have mono: "fst (arr ! i) < fst (arr ! j)" if "i < j" "j < length arr" for i j
      using srt that by (simp add: sorted_wrt_iff_nth_less)
    show ?thesis
    proof (cases "k < key")
      case lt: True
      have below: "\<forall>j. j < nat (mid + 1) \<longrightarrow> fst (arr ! j) < key"
      proof (intro allI impI)
        fix j assume j: "j < nat (mid + 1)"
        show "fst (arr ! j) < key"
        proof (cases "j = nat mid")
          case True
          then show ?thesis using kv lt by simp
        next
          case False
          then have "j < nat mid" using j mr by linarith
          from mono[OF this] mr have "fst (arr ! j) < fst (arr ! nat mid)" by simp
          then show ?thesis using kv lt by simp
        qed
      qed
      have c1: "0 \<le> mid + 1" "mid + 1 \<le> right + 1" using mid mr by simp_all
      have "\<exists>i. leaf_search arr key (mid + 1) right = Inr (int i) \<and> i \<le> length arr \<and>
         (\<forall>j. j < i \<longrightarrow> fst (arr ! j) < key) \<and>
         (\<forall>j. i \<le> j \<and> j < length arr \<longrightarrow> key < fst (arr ! j))"
        using mid by (intro less.hyps[OF _ srt absent c1 rl below upper]) simp
      moreover have "leaf_search arr key left right = leaf_search arr key (mid + 1) right"
        using True ag ne lt by (subst leaf_search.simps) (simp add: mid_def Let_def)
      ultimately show ?thesis by simp
    next
      case ge: False
      then have gt: "key < k" using ne by simp
      have above: "\<forall>j. nat (mid - 1 + 1) \<le> j \<and> j < length arr \<longrightarrow> key < fst (arr ! j)"
      proof (intro allI impI)
        fix j assume j: "nat (mid - 1 + 1) \<le> j \<and> j < length arr"
        show "key < fst (arr ! j)"
        proof (cases "j = nat mid")
          case True
          then show ?thesis using kv gt by simp
        next
          case False
          then have "nat mid < j" using j by simp
          from mono[OF this] j have "fst (arr ! nat mid) < fst (arr ! j)" by simp
          then show ?thesis using kv gt by simp
        qed
      qed
      have c2: "left \<le> mid - 1 + 1" "mid - 1 < int (length arr)" using mid mr by simp_all
      have "\<exists>i. leaf_search arr key left (mid - 1) = Inr (int i) \<and> i \<le> length arr \<and>
         (\<forall>j. j < i \<longrightarrow> fst (arr ! j) < key) \<and>
         (\<forall>j. i \<le> j \<and> j < length arr \<longrightarrow> key < fst (arr ! j))"
        using mid by (intro less.hyps[OF _ srt absent l0 c2 lower above]) simp
      moreover have "leaf_search arr key left right = leaf_search arr key left (mid - 1)"
        using True ag ne ge by (subst leaf_search.simps) (simp add: mid_def Let_def)
      ultimately show ?thesis by simp
    qed
  qed
qed

text \<open>Inserting an absent key into a sorted leaf keeps it sorted and adds the pair.\<close>

lemma Leaf_Insert_absent:
  assumes srt: "sorted_wrt (<) (map fst arr)" and absent: "key \<notin> fst ` set arr"
    and nd: "node tp = LeafNode arr nxt" and room: "int (length arr) < max_size tp"
  shows "\<exists>arr'. Leaf_Insert tp key v = Inr (True, tp\<lparr>node := LeafNode arr' nxt\<rparr>) \<and>
           sorted_wrt (<) (map fst arr') \<and> set arr' = insert (key, v) (set arr) \<and>
           length arr' = Suc (length arr)"
proof -
  have "\<exists>i. leaf_search arr key 0 (int (length arr) - 1) = Inr (int i) \<and> i \<le> length arr \<and>
         (\<forall>j. j < i \<longrightarrow> fst (arr ! j) < key) \<and>
         (\<forall>j. i \<le> j \<and> j < length arr \<longrightarrow> key < fst (arr ! j))"
    by (rule leaf_search_absent[OF srt absent]) simp_all
  then obtain i where ls: "Leaf_FindKeyIndex arr key = Inr (int i)" and i: "i \<le> length arr"
    and lo: "\<And>j. j < i \<Longrightarrow> fst (arr ! j) < key"
    and hi: "\<And>j. i \<le> j \<Longrightarrow> j < length arr \<Longrightarrow> key < fst (arr ! j)"
    by (auto simp: Leaf_FindKeyIndex_def)
  define arr' where "arr' = take i arr @ [(key, v)] @ drop i arr"
  have ins: "Leaf_Insert tp key v = Inr (True, tp\<lparr>node := LeafNode arr' nxt\<rparr>)"
    using nd room ls by (simp add: Leaf_Insert_def as_leaf_def bindE_def GetSize_def arr'_def)
  have st: "sorted_wrt (<) (map fst (take i arr))" "sorted_wrt (<) (map fst (drop i arr))"
    using srt by (simp_all add: sorted_wrt_take sorted_wrt_drop flip: take_map drop_map)
  have below: "\<forall>x\<in>set (take i arr). fst x < key"
  proof
    fix x assume "x \<in> set (take i arr)"
    then obtain j where "j < length (take i arr)" "x = take i arr ! j"
      by (auto simp: in_set_conv_nth)
    then have "j < i" "x = arr ! j" by simp_all
    then show "fst x < key" using lo by simp
  qed
  have above: "\<forall>x\<in>set (drop i arr). key < fst x"
  proof
    fix x assume "x \<in> set (drop i arr)"
    then obtain j where "j < length (drop i arr)" "x = drop i arr ! j"
      by (auto simp: in_set_conv_nth)
    then have "i + j < length arr" "x = arr ! (i + j)" using i by simp_all
    then show "key < fst x" using hi[of "i + j"] by simp
  qed
  have cross: "fst x < fst y" if "x \<in> set (take i arr)" "y \<in> set (drop i arr)" for x y
    using below above that by (meson order.strict_trans)
  have "sorted_wrt (<) (map fst arr')"
    using st below above cross unfolding arr'_def
    by (fastforce simp: sorted_wrt_append)
  moreover have "set arr' = insert (key, v) (set arr)"
    unfolding arr'_def using set_append[of "take i arr" "drop i arr"] by auto
  moreover have "length arr' = Suc (length arr)" using i by (simp add: arr'_def)
  ultimately show ?thesis using ins by blast
qed

subsection \<open>Entry arrays of internal pages\<close>

fun ins_after :: "page_id_t \<Rightarrow> KeyType \<times> page_id_t \<Rightarrow> (KeyType \<times> page_id_t) list \<Rightarrow>
    (KeyType \<times> page_id_t) list" where
  "ins_after x e [] = []"
| "ins_after x e ((k, c) # rest) = (if c = x then (k, c) # e # rest else (k, c) # ins_after x e rest)"

lemma find_value_from_ins_after:
  "x \<in> snd ` set arr \<Longrightarrow>
   \<exists>n. find_value_from arr x i = i + int n \<and> n < length arr \<and>
       take (Suc n) arr @ [e] @ drop (Suc n) arr = ins_after x e arr"
proof (induction arr arbitrary: i)
  case Nil
  then show ?case by simp
next
  case (Cons a arr)
  obtain k c where a: "a = (k, c)" by (cases a)
  show ?case
  proof (cases "c = x")
    case True
    then show ?thesis using a by (intro exI[of _ 0]) simp
  next
    case False
    then have "x \<in> snd ` set arr" using Cons.prems a by auto
    from Cons.IH[OF this, of "i + 1"] obtain n where
      n: "find_value_from arr x (i + 1) = i + 1 + int n" "n < length arr"
        "take (Suc n) arr @ [e] @ drop (Suc n) arr = ins_after x e arr" by blast
    show ?thesis using False a n by (intro exI[of _ "Suc n"]) simp
  qed
qed

lemma InsertNodeAfter_ins_after:
  assumes "x \<in> snd ` set arr"
  shows "Internal_InsertNodeAfter arr x s x' = ins_after x (s, x') arr"
proof -
  from find_value_from_ins_after[OF assms, of 0 "(s, x')"] obtain n where
    n: "find_value_from arr x 0 = int n" "n < length arr"
      "take (Suc n) arr @ [(s, x')] @ drop (Suc n) arr = ins_after x (s, x') arr" by auto
  have "nat (int n + 1) = Suc n" by simp
  then show ?thesis using n
    by (simp add: Internal_InsertNodeAfter_def Internal_FindValue_def Let_def)
qed

lemma ins_after_children:
  "x \<in> snd ` set arr \<Longrightarrow> snd ` set (ins_after x (s, x') arr) = insert x' (snd ` set arr)"
proof (induction arr)
  case (Cons a arr)
  obtain k c where a: "a = (k, c)" by (cases a)
  show ?case
  proof (cases "c = x")
    case False
    then have "x \<in> snd ` set arr" using Cons.prems a by auto
    from Cons.IH[OF this] show ?thesis using False a by (simp add: insert_commute)
  qed (use a in \<open>simp add: insert_commute\<close>)
qed simp

lemma ins_after_length:
  "x \<in> snd ` set arr \<Longrightarrow> length (ins_after x e arr) = Suc (length arr)"
proof (induction arr)
  case (Cons a arr)
  obtain k c where a: "a = (k, c)" by (cases a)
  show ?case
  proof (cases "c = x")
    case False
    then have "x \<in> snd ` set arr" using Cons.prems a by auto
    from Cons.IH[OF this] show ?thesis using False a by simp
  qed (use a in simp)
qed simp

lemma tiling_first_key: "tiling g l ((k, c) # rest) u = tiling g l ((k0, c) # rest) u"
  by (cases rest) auto

lemma tiling_lo_later:
  "tiling g (Some a) arr u \<Longrightarrow> d \<in> snd ` set arr \<Longrightarrow> \<exists>b. sh_lo g d = Some b \<and> a \<le> b"
proof (induction g "Some a" arr u arbitrary: a rule: tiling.induct)
  case (3 g k c k' c' rest u)
  show ?case
  proof (cases "d = c")
    case True
    then show ?thesis using 3(2) by auto
  next
    case False
    then have "d \<in> snd ` set ((k', c') # rest)" using 3(3) by auto
    moreover have "tiling g (Some k') ((k', c') # rest) u" using 3(2) by simp
    ultimately obtain b where "sh_lo g d = Some b" "k' \<le> b" using 3(1) by blast
    moreover have "a < k'" using 3(2) by (simp add: lt_bound_def)
    ultimately show ?thesis by auto
  qed
qed auto

lemma tiling_distinct: "tiling g l arr u \<Longrightarrow> distinct (map snd arr)"
proof (induction g l arr u rule: tiling.induct)
  case (3 g l k c k' c' rest u)
  from 3(2) have t: "tiling g (Some k') ((k', c') # rest) u" and lt: "lt_bound l (Some k')"
    and lo: "sh_lo g c = l" by auto
  have "c \<notin> snd ` set ((k', c') # rest)"
  proof
    assume "c \<in> snd ` set ((k', c') # rest)"
    from tiling_lo_later[OF t this] obtain b where "sh_lo g c = Some b" "k' \<le> b" by blast
    then show False using lt lo by (auto simp: lt_bound_def)
  qed
  then show ?case using 3(1)[OF t] by auto
qed auto

text \<open>
  The shape in which the page \<open>x\<close> still ends where the page \<open>x'\<close>, split off it, ends.
\<close>

definition gap_shape :: "tree_shape \<Rightarrow> page_id_t \<Rightarrow> page_id_t \<Rightarrow> tree_shape" where
  "gap_shape g x x' = g\<lparr>sh_hi := (sh_hi g)(x := sh_hi g x')\<rparr>"

lemma gap_shape_simps [simp]:
  "sh_pages (gap_shape g x x') = sh_pages g"
  "sh_height (gap_shape g x x') = sh_height g"
  "sh_lo (gap_shape g x x') = sh_lo g"
  "sh_hi (gap_shape g x x') p = (if p = x then sh_hi g x' else sh_hi g p)"
  by (simp_all add: gap_shape_def)

lemma tiling_ins_after:
  assumes hx: "sh_hi g x = Some s" and lx': "sh_lo g x' = Some s"
    and lt1: "lt_bound (sh_lo g x) (Some s)" and lt2: "lt_bound (Some s) (sh_hi g x')"
  shows "tiling (gap_shape g x x') l arr u \<Longrightarrow> x \<in> snd ` set arr \<Longrightarrow>
         tiling g l (ins_after x (s, x') arr) u"
proof (induction arr arbitrary: l)
  case Nil
  then show ?case by simp
next
  case (Cons a arr)
  obtain k c where a: "a = (k, c)" by (cases a)
  note til = Cons.prems(1)[unfolded a]
  from tiling_distinct[OF til] have dist: "c \<notin> snd ` set arr" by auto
  show ?case
  proof (cases arr)
    case Nil
    then have cx: "c = x" using Cons.prems(2) a by simp
    then show ?thesis using til Nil a hx lx' lt1 lt2 by simp
  next
    case (Cons b rest)
    obtain k' c' where b: "b = (k', c')" by (cases b)
    from til Cons b have t': "tiling (gap_shape g x x') (Some k') ((k', c') # rest) u"
      and lo: "sh_lo g c = l" and hi: "sh_hi (gap_shape g x x') c = Some k'"
      and lt: "lt_bound l (Some k')" by simp_all
    show ?thesis
    proof (cases "c = x")
      case True
      then have "x \<notin> snd ` set ((k', c') # rest)" using dist Cons b by simp
      then have "tiling g (Some k') ((k', c') # rest) u = tiling (gap_shape g x x') (Some k') ((k', c') # rest) u"
        by (intro tiling_cong) auto
      then have "tiling g (Some k') ((k', c') # rest) u" using t' by simp
      moreover have "sh_hi g x' = Some k'" using hi True by simp
      ultimately show ?thesis using True a Cons b lo hx lx' lt1 lt2 by simp
    next
      case False
      then have "x \<in> snd ` set arr" using Cons.prems(2) a by auto
      from Cons.IH[OF _ this, of "Some k'"] t' \<open>arr = b # rest\<close> b
      have "tiling g (Some k') (ins_after x (s, x') ((k', c') # rest)) u" by simp
      moreover have "sh_hi g c = Some k'" using hi False by simp
      ultimately show ?thesis using False a \<open>arr = b # rest\<close> b lo lt by (simp split: if_splits)
    qed
  qed
qed

lemma tiling_split:
  "tiling g l (keep @ (s, c) # rest) u \<Longrightarrow> keep \<noteq> [] \<Longrightarrow>
   tiling g l keep (Some s) \<and> tiling g (Some s) ((k0, c) # rest) u"
proof (induction keep arbitrary: l)
  case Nil
  then show ?case by simp
next
  case (Cons a keep)
  obtain k d where a: "a = (k, d)" by (cases a)
  show ?case
  proof (cases keep)
    case Nil
    then show ?thesis using Cons.prems a tiling_first_key[of g "Some s" s c rest u k0]
      by (auto dest: tiling_lt)
  next
    case (Cons b keep')
    obtain k' d' where b: "b = (k', d')" by (cases b)
    from Cons.prems(1) a Cons b have t': "tiling g (Some k') (keep @ (s, c) # rest) u"
      and hd: "sh_lo g d = l" "sh_hi g d = Some k'" "lt_bound l (Some k')" by simp_all
    from Cons.IH[OF t'] Cons have "tiling g (Some k') keep (Some s)"
      "tiling g (Some s) ((k0, c) # rest) u" by simp_all
    then show ?thesis using a Cons b hd by simp
  qed
qed

lemma MoveHalfTo_internal:
  assumes "2 \<le> length arr"
  shows "\<exists>s c keep rest. Internal_MoveHalfTo arr = Inr (s, keep, (0, c) # rest) \<and>
           arr = keep @ (s, c) # rest \<and> keep \<noteq> []"
proof -
  define m where "m = nat (max 1 (int (length arr) div 2))"
  have m: "1 \<le> m" "m < length arr" using assms by (auto simp: m_def)
  obtain s c where sc: "arr ! m = (s, c)" by (cases "arr ! m")
  have "max 1 (int (length arr) div 2) = int m" by (simp add: m_def)
  then have "Internal_MoveHalfTo arr = Inr (s, take m arr, (0, c) # drop (m + 1) arr)"
    using m sc by (simp add: Internal_MoveHalfTo_def Let_def array_get_def bindE_def)
  moreover have "arr = take m arr @ (s, c) # drop (m + 1) arr"
    using id_take_nth_drop[OF m(2)] sc by simp
  moreover have "take m arr \<noteq> []" using m by auto
  ultimately show ?thesis by blast
qed

lemma MoveHalfTo_leaf:
  assumes "2 \<le> length arr"
  shows "\<exists>s v keep rest. Leaf_MoveHalfTo arr = Inr (s, keep, (s, v) # rest) \<and>
           arr = keep @ (s, v) # rest \<and> keep \<noteq> [] \<and> length keep = length arr div 2"
proof -
  define m where "m = length arr div 2"
  have m: "1 \<le> m" "m < length arr" using assms by (auto simp: m_def)
  obtain s v where sv: "arr ! m = (s, v)" by (cases "arr ! m")
  have e: "int (length arr) div 2 = int m" by (simp add: m_def zdiv_int)
  have d: "drop m arr = (s, v) # drop (Suc m) arr"
    using Cons_nth_drop_Suc[OF m(2)] sv by simp
  have "Leaf_MoveHalfTo arr = Inr (s, take m arr, (s, v) # drop (Suc m) arr)"
    using m sv d by (simp add: Leaf_MoveHalfTo_def Let_def array_get_def bindE_def e)
  moreover have "arr = take m arr @ (s, v) # drop (Suc m) arr"
    using id_take_nth_drop[OF m(2)] sv by simp
  moreover have "take m arr \<noteq> []" using m by auto
  moreover have "length (take m arr) = length arr div 2" using m by (simp add: m_def)
  ultimately show ?thesis by blast
qed

subsection \<open>A split page that its parent does not list yet\<close>

text \<open>
  Between \<open>Split\<close> and the update of the parent in \<open>InsertIntoParent\<close>, the page \<open>x\<close> has
  given the upper part of its range, from the key \<open>s\<close> on, to the new page \<open>x'\<close>, and no
  page lists \<open>x'\<close>.
\<close>

definition pending :: "BPlusTree \<Rightarrow> tree_shape \<Rightarrow> page_id_t \<Rightarrow> KeyType \<Rightarrow> page_id_t \<Rightarrow> bool" where
  "pending t g x s x' \<longleftrightarrow>
     header_ok t \<and> 2 \<le> leaf_max_size t \<and> root_page_id t \<in> sh_pages g \<and>
     x \<in> sh_pages g \<and> x' \<in> sh_pages g \<and> x' \<noteq> x \<and> x' \<noteq> root_page_id t \<and>
     sh_lo g (root_page_id t) = None \<and>
     sh_hi g (if x = root_page_id t then x' else root_page_id t) = None \<and>
     sh_lo g x' = Some s \<and> sh_hi g x = Some s \<and> sh_height g x' = sh_height g x \<and>
     lt_bound (sh_lo g x) (Some s) \<and> lt_bound (Some s) (sh_hi g x') \<and>
     (\<exists>rtp. page_of t (root_page_id t) = Some rtp \<and> parent_page_id rtp = INVALID_PAGE_ID) \<and>
     (\<exists>xtp xtp'. page_of t x = Some xtp \<and> page_of t x' = Some xtp' \<and>
                 parent_page_id xtp' = parent_page_id xtp) \<and>
     \<not> listed t g x' \<and>
     (\<forall>p\<in>sh_pages g. 0 < p \<and> p < pool_next_page_id (bpm t) \<and>
         sh_height g p \<le> sh_height g (root_page_id t) \<and>
         node_ok t (if p = x then g else gap_shape g x x') p \<and>
         (p \<noteq> root_page_id t \<and> p \<noteq> x' \<longrightarrow> listed t g p))"

lemma pendingD:
  assumes "pending t g x s x'"
  shows "header_ok t" "2 \<le> leaf_max_size t" "root_page_id t \<in> sh_pages g"
    "x \<in> sh_pages g" "x' \<in> sh_pages g" "x' \<noteq> x" "x' \<noteq> root_page_id t"
    "sh_lo g (root_page_id t) = None"
    "sh_hi g (if x = root_page_id t then x' else root_page_id t) = None"
    "sh_lo g x' = Some s" "sh_hi g x = Some s" "sh_height g x' = sh_height g x"
    "lt_bound (sh_lo g x) (Some s)" "lt_bound (Some s) (sh_hi g x')"
    "\<exists>rtp. page_of t (root_page_id t) = Some rtp \<and> parent_page_id rtp = INVALID_PAGE_ID"
    "\<exists>xtp xtp'. page_of t x = Some xtp \<and> page_of t x' = Some xtp' \<and>
                 parent_page_id xtp' = parent_page_id xtp"
    "\<not> listed t g x'"
    "\<And>p. p \<in> sh_pages g \<Longrightarrow> 0 < p"
    "\<And>p. p \<in> sh_pages g \<Longrightarrow> p < pool_next_page_id (bpm t)"
    "\<And>p. p \<in> sh_pages g \<Longrightarrow> sh_height g p \<le> sh_height g (root_page_id t)"
    "\<And>p. p \<in> sh_pages g \<Longrightarrow> node_ok t (if p = x then g else gap_shape g x x') p"
    "\<And>p. p \<in> sh_pages g \<Longrightarrow> p \<noteq> root_page_id t \<Longrightarrow> p \<noteq> x' \<Longrightarrow> listed t g p"
  using assms unfolding pending_def by blast+

lemma pending_lists:
  assumes pend: "pending t g x s x'" and q: "q \<in> sh_pages g"
    and qtp: "page_of t q = Some qtp" "node qtp = InternalNode arr" and c: "c \<in> snd ` set arr"
  shows "c \<in> sh_pages g" "Suc (sh_height g c) = sh_height g q"
    "\<exists>ctp. page_of t c = Some ctp \<and> parent_page_id ctp = q" "c \<noteq> x'" "c \<noteq> q"
proof -
  note ok = pendingD(21)[OF pend q]
  from node_ok_internalD(2)[OF ok qtp c] show "c \<in> sh_pages g" by (simp split: if_splits)
  from node_ok_internalD(3)[OF ok qtp c] show h: "Suc (sh_height g c) = sh_height g q"
    by (simp split: if_splits)
  from node_ok_internalD(4)[OF ok qtp c]
  show "\<exists>ctp. page_of t c = Some ctp \<and> parent_page_id ctp = q" .
  show "c \<noteq> x'" using pendingD(17)[OF pend] q qtp c by (auto simp: listed_def)
  show "c \<noteq> q" using h by auto
qed

lemma pending_parent:
  assumes pend: "pending t g x s x'" and nr: "x \<noteq> root_page_id t"
    and xtp: "page_of t x = Some xtp"
  shows "\<exists>ptp parr. parent_page_id xtp \<in> sh_pages g \<and>
           page_of t (parent_page_id xtp) = Some ptp \<and> node ptp = InternalNode parr \<and>
           x \<in> snd ` set parr \<and> x' \<notin> snd ` set parr \<and> parent_page_id xtp \<noteq> x \<and>
           parent_page_id xtp \<noteq> x' \<and> Suc (sh_height g x) = sh_height g (parent_page_id xtp)"
proof -
  from pendingD(22)[OF pend pendingD(4)[OF pend] nr pendingD(6)[OF pend, symmetric]]
  obtain q qtp arr where q: "q \<in> sh_pages g" and qtp: "page_of t q = Some qtp"
    "node qtp = InternalNode arr" and c: "x \<in> snd ` set arr" by (auto simp: listed_def)
  note l = pending_lists[OF pend q qtp]
  from l(3)[OF c] xtp have pq: "parent_page_id xtp = q" by auto
  have "x' \<notin> snd ` set arr" using l(4) by blast
  moreover have "q \<noteq> x'" using l(2)[OF c] pendingD(12)[OF pend] by auto
  moreover have "q \<noteq> x" using l(5)[OF c] by simp
  ultimately show ?thesis using q qtp c pq l(2)[OF c] by auto
qed

lemma pending_not_root:
  assumes pend: "pending t g x s x'" and xtp: "page_of t x = Some xtp"
  shows "IsRootPage xtp \<longleftrightarrow> x = root_page_id t"
proof
  assume r: "IsRootPage xtp"
  show "x = root_page_id t"
  proof (rule ccontr)
    assume "x \<noteq> root_page_id t"
    from pending_parent[OF pend this xtp] have "parent_page_id xtp \<in> sh_pages g" by auto
    from pendingD(18)[OF pend this] r show False by (simp add: IsRootPage_def INVALID_PAGE_ID_def)
  qed
next
  assume "x = root_page_id t"
  then show "IsRootPage xtp" using pendingD(15)[OF pend] xtp by (auto simp: IsRootPage_def)
qed

subsection \<open>The parent takes the new page\<close>

lemma link_parent:
  assumes pend: "pending t g x s x'" and nr: "x \<noteq> root_page_id t"
    and xtp: "page_of t x = Some xtp"
    and ptp: "page_of t (parent_page_id xtp) = Some ptp" and parr: "node ptp = InternalNode parr"
    and pg: "page_of t' = (page_of t)(parent_page_id xtp \<mapsto>
                 ptp\<lparr>node := InternalNode (ins_after x (s, x') parr)\<rparr>)"
    and rt: "root_page_id t' = root_page_id t"
    and nx: "pool_next_page_id (bpm t') = pool_next_page_id (bpm t)"
    and hd: "header_ok t'" and lm: "leaf_max_size t' = leaf_max_size t"
  shows "tree_inv t' g" "entries t' g = entries t g" "sizes_ok t' g X = sizes_ok t g X"
proof -
  define P where "P = parent_page_id xtp"
  note pg' = pg[folded P_def] and ptp' = ptp[folded P_def]
  from pending_parent[OF pend nr xtp] ptp parr
  have P: "P \<in> sh_pages g" and xin: "x \<in> snd ` set parr" and x'out: "x' \<notin> snd ` set parr"
    and Px: "P \<noteq> x" and Px': "P \<noteq> x'" and hP: "Suc (sh_height g x) = sh_height g P"
    by (auto simp: P_def)
  have kp: "keeps_parent t t' c" for c
    using pg' ptp' by (cases "c = P") (auto simp: keeps_parent_def)
  have same: "page_of t' p = page_of t p" if "p \<noteq> P" for p
    using pg' that by simp
  have newP: "page_of t' P = Some (ptp\<lparr>node := InternalNode (ins_after x (s, x') parr)\<rparr>)"
    using pg' by simp
  have okP: "node_ok t' g P"
  proof -
    have ok: "node_ok t (gap_shape g x x') P" using pendingD(21)[OF pend P] Px by simp
    note int = node_ok_internalD[OF ok ptp' parr]
    have til: "tiling g (sh_lo g P) (ins_after x (s, x') parr) (sh_hi g P)"
      using int(1) Px
      by (intro tiling_ins_after[OF pendingD(11,10,13,14)[OF pend] _ xin]) simp
    have kids: "c \<in> sh_pages g \<and> Suc (sh_height g c) = sh_height g P \<and>
                (\<exists>ctp. page_of t' c = Some ctp \<and> parent_page_id ctp = P)"
      if c: "c \<in> snd ` set (ins_after x (s, x') parr)" for c
    proof (cases "c = x'")
      case True
      from pendingD(16)[OF pend] xtp obtain xtp' where
        "page_of t x' = Some xtp'" "parent_page_id xtp' = P" by (auto simp: P_def)
      then show ?thesis using True pendingD(5,12)[OF pend] hP same[of x'] Px' by simp
    next
      case False
      then have c': "c \<in> snd ` set parr" using c ins_after_children[OF xin] by auto
      from int(4)[OF c'] kp[of c] have "\<exists>ctp. page_of t' c = Some ctp \<and> parent_page_id ctp = P"
        by (auto simp: keeps_parent_def)
      then show ?thesis using int(2)[OF c'] int(3)[OF c'] by simp
    qed
    show ?thesis using newP int(5) til kids by (auto simp: node_ok_def)
  qed
  have ok: "node_ok t' g p" if p: "p \<in> sh_pages g" for p
  proof (cases "p = P")
    case True
    then show ?thesis using okP by simp
  next
    case False
    note okp = pendingD(21)[OF pend p]
    show ?thesis
    proof (rule node_ok_frame[OF okp same_node_same[OF same[OF False]] lm])
      show "same_shape_at (if p = x then g else gap_shape g x x') g p"
        by (simp add: same_shape_at_def)
      show "sh_pages (if p = x then g else gap_shape g x x') \<subseteq> sh_pages g" by simp
      fix tp arr c
      assume tp: "page_of t p = Some tp" "node tp = InternalNode arr" and c: "c \<in> snd ` set arr"
      have "c \<noteq> x"
      proof
        assume "c = x"
        from pending_lists(3)[OF pend p tp c] this xtp have "p = P" by (simp add: P_def)
        then show False using False by simp
      qed
      then show "same_shape_at (if p = x then g else gap_shape g x x') g c \<and> keeps_parent t t' c"
        using kp by (simp add: same_shape_at_def)
    qed
  qed
  have lst: "listed t' g p" if p: "p \<in> sh_pages g" and pr: "p \<noteq> root_page_id t" for p
  proof (cases "p = x'")
    case True
    have "x' \<in> snd ` set (ins_after x (s, x') parr)" using ins_after_children[OF xin] by simp
    then show ?thesis using True P newP unfolding listed_def by force
  next
    case False
    from pendingD(22)[OF pend p pr False] obtain q qtp arr where
      q: "q \<in> sh_pages g" "page_of t q = Some qtp" "node qtp = InternalNode arr"
        "p \<in> snd ` set arr" by (auto simp: listed_def)
    show ?thesis
    proof (cases "q = P")
      case True
      then have "p \<in> snd ` set (ins_after x (s, x') parr)"
        using q ptp' parr ins_after_children[OF xin] by simp
      then show ?thesis using P newP unfolding listed_def by force
    next
      case False
      then show ?thesis using q same[OF False] unfolding listed_def by force
    qed
  qed
  have root: "\<exists>rtp. page_of t' (root_page_id t) = Some rtp \<and> parent_page_id rtp = INVALID_PAGE_ID"
    using pendingD(15)[OF pend] kp[of "root_page_id t"] by (auto simp: keeps_parent_def)
  show "tree_inv t' g"
    unfolding tree_inv_def rt nx lm
    using hd pendingD(2,3,8,9,18,19,20)[OF pend] nr root ok lst by auto
  have leafs: "leaf_at t' p = leaf_at t p" for p
    using pg' ptp' parr by (cases "p = P") (auto simp: leaf_at_def)
  show "entries t' g = entries t g" unfolding entries_def leafs ..
  show "sizes_ok t' g X = sizes_ok t g X" unfolding sizes_ok_def leafs lm ..
qed

subsection \<open>A new root takes the two halves of the old one\<close>

definition root_shape :: "tree_shape \<Rightarrow> page_id_t \<Rightarrow> page_id_t \<Rightarrow> tree_shape" where
  "root_shape g r x =
     g\<lparr>sh_pages := insert r (sh_pages g), sh_height := (sh_height g)(r := Suc (sh_height g x)),
       sh_lo := (sh_lo g)(r := None), sh_hi := (sh_hi g)(r := None)\<rparr>"

lemma root_shape_simps [simp]:
  "sh_pages (root_shape g r x) = insert r (sh_pages g)"
  "sh_height (root_shape g r x) p = (if p = r then Suc (sh_height g x) else sh_height g p)"
  "sh_lo (root_shape g r x) p = (if p = r then None else sh_lo g p)"
  "sh_hi (root_shape g r x) p = (if p = r then None else sh_hi g p)"
  by (simp_all add: root_shape_def)

lemma listedI:
  "q \<in> sh_pages g \<Longrightarrow> page_of t q = Some qtp \<Longrightarrow> node qtp = InternalNode arr \<Longrightarrow>
   p \<in> snd ` set arr \<Longrightarrow> listed t g p"
  unfolding listed_def by blast

lemma leaves_grow:
  assumes old: "\<And>p. p \<in> T \<Longrightarrow> leaf_at t' p = leaf_at t p"
    and new: "leaf_at t' r = None"
  shows "(\<exists>p\<in>insert r T. \<exists>arr. leaf_at t' p = Some arr \<and> Q arr) =
         (\<exists>p\<in>T. \<exists>arr. leaf_at t p = Some arr \<and> Q arr)"
    and "(\<forall>p\<in>insert r T - X. \<forall>arr. leaf_at t' p = Some arr \<longrightarrow> Q arr) =
         (\<forall>p\<in>T - X. \<forall>arr. leaf_at t p = Some arr \<longrightarrow> Q arr)"
proof -
  have "(\<exists>p\<in>T. \<exists>arr. leaf_at t' p = Some arr \<and> Q arr) =
        (\<exists>p\<in>T. \<exists>arr. leaf_at t p = Some arr \<and> Q arr)"
    by (intro bex_cong refl) (simp add: old)
  then show "(\<exists>p\<in>insert r T. \<exists>arr. leaf_at t' p = Some arr \<and> Q arr) =
         (\<exists>p\<in>T. \<exists>arr. leaf_at t p = Some arr \<and> Q arr)"
    using new by simp
  have "(\<forall>p\<in>T - X. \<forall>arr. leaf_at t' p = Some arr \<longrightarrow> Q arr) =
        (\<forall>p\<in>T - X. \<forall>arr. leaf_at t p = Some arr \<longrightarrow> Q arr)"
    by (intro ball_cong refl) (simp add: old)
  moreover have "(\<forall>p\<in>insert r T - X. \<forall>arr. leaf_at t' p = Some arr \<longrightarrow> Q arr) =
        (\<forall>p\<in>T - X. \<forall>arr. leaf_at t' p = Some arr \<longrightarrow> Q arr)"
    using new by (cases "r \<in> X") (simp_all add: insert_Diff_if)
  ultimately show "(\<forall>p\<in>insert r T - X. \<forall>arr. leaf_at t' p = Some arr \<longrightarrow> Q arr) =
         (\<forall>p\<in>T - X. \<forall>arr. leaf_at t p = Some arr \<longrightarrow> Q arr)" by simp
qed

lemma link_root:
  assumes pend: "pending t g x s x'" and xr: "x = root_page_id t"
    and xtp: "page_of t x = Some xtp" and xtp': "page_of t x' = Some xtp'"
    and R: "R = pool_next_page_id (bpm t)"
    and rp: "tp_page_id rp = R" "parent_page_id rp = INVALID_PAGE_ID"
      "node rp = InternalNode [(k0, x), (s, x')]"
    and pg: "page_of t' = (page_of t)(R \<mapsto> rp, x \<mapsto> xtp\<lparr>parent_page_id := R\<rparr>,
                                      x' \<mapsto> xtp'\<lparr>parent_page_id := R\<rparr>)"
    and rt: "root_page_id t' = R"
    and nx: "pool_next_page_id (bpm t') = R + 1"
    and hd: "header_ok t'" and lm: "leaf_max_size t' = leaf_max_size t"
  shows "tree_inv t' (root_shape g R x)" "entries t' (root_shape g R x) = entries t g"
    "sizes_ok t' (root_shape g R x) X = sizes_ok t g X"
proof -
  let ?g = "root_shape g R x"
  note x = pendingD(4)[OF pend] and x' = pendingD(5)[OF pend] and ne = pendingD(6)[OF pend]
  have RT: "R \<notin> sh_pages g" using pendingD(19)[OF pend, of R] R by auto
  have Rx: "R \<noteq> x" "R \<noteq> x'" using RT x x' by auto
  have R0: "0 < R" using pendingD(18,19)[OF pend x] R by simp
  have same: "page_of t' p = page_of t p" if "p \<noteq> R" "p \<noteq> x" "p \<noteq> x'" for p
    using pg that by simp
  have sn: "same_node t t' p" if "p \<in> sh_pages g" for p
  proof -
    have "p \<noteq> R" using that RT by auto
    then show ?thesis using xtp xtp' ne unfolding same_node_def pg
      by (cases "p = x"; cases "p = x'") simp_all
  qed
  have nolist: "c \<noteq> x \<and> c \<noteq> x' \<and> c \<noteq> R"
    if q: "q \<in> sh_pages g" "page_of t q = Some qtp" "node qtp = InternalNode arr"
      and c: "c \<in> snd ` set arr" for q qtp arr c
  proof -
    note l = pending_lists[OF pend q c]
    have "c \<noteq> x"
    proof
      assume "c = x"
      with l(3) pendingD(15)[OF pend] xr have "q = INVALID_PAGE_ID" by auto
      then show False using pendingD(18)[OF pend q(1)] by (simp add: INVALID_PAGE_ID_def)
    qed
    then show ?thesis using l(1,4) RT by auto
  qed
  have okR: "node_ok t' ?g R"
  proof -
    have pR: "page_of t' R = Some rp" using pg Rx by simp
    have "sh_lo g x = None" using pendingD(8)[OF pend] xr by simp
    moreover have "sh_hi g x' = None" using pendingD(9)[OF pend] xr by simp
    ultimately have til: "tiling ?g None [(k0, x), (s, x')] None"
      using Rx pendingD(10,11)[OF pend] by (simp add: lt_bound_def)
    have px: "page_of t' x = Some (xtp\<lparr>parent_page_id := R\<rparr>)"
      "page_of t' x' = Some (xtp'\<lparr>parent_page_id := R\<rparr>)" using pg ne by simp_all
    show ?thesis using pR rp til px x x' Rx pendingD(12)[OF pend] by (simp add: node_ok_def)
  qed
  have ok: "node_ok t' ?g p" if p: "p \<in> sh_pages g" for p
  proof (rule node_ok_frame[OF pendingD(21)[OF pend p] sn[OF p] lm])
    have pR: "p \<noteq> R" using p RT by auto
    show "same_shape_at (if p = x then g else gap_shape g x x') ?g p"
      using pR by (simp add: same_shape_at_def)
    show "sh_pages (if p = x then g else gap_shape g x x') \<subseteq> sh_pages ?g" by auto
    fix tp arr c
    assume tp: "page_of t p = Some tp" "node tp = InternalNode arr" and c: "c \<in> snd ` set arr"
    from nolist[OF p tp c] have n: "c \<noteq> x" "c \<noteq> x'" "c \<noteq> R" by auto
    then show "same_shape_at (if p = x then g else gap_shape g x x') ?g c \<and> keeps_parent t t' c"
      using same[of c] by (simp add: same_shape_at_def keeps_parent_def)
  qed
  have lst: "listed t' ?g p" if p: "p \<in> sh_pages g" for p
  proof (cases "p = x \<or> p = x'")
    case True
    have "page_of t' R = Some rp" using pg Rx by simp
    moreover have "p \<in> snd ` set [(k0, x), (s, x')]" using True by auto
    moreover have "R \<in> sh_pages ?g" by simp
    ultimately show ?thesis using rp(3) by (intro listedI)
  next
    case False
    then have "p \<noteq> root_page_id t" "p \<noteq> x'" using xr by auto
    from pendingD(22)[OF pend p this] obtain q qtp arr where
      q: "q \<in> sh_pages g" "page_of t q = Some qtp" "node qtp = InternalNode arr"
        "p \<in> snd ` set arr" by (auto simp: listed_def)
    from sn[OF q(1)] q(2) obtain qtp' where q': "page_of t' q = Some qtp'" "node qtp' = node qtp"
      by (auto simp: same_node_def)
    have "q \<in> sh_pages ?g" using q(1) by simp
    then show ?thesis using q' q(3,4) by (intro listedI[of q _ _ qtp' arr]) simp_all
  qed
  have hts: "sh_height g p \<le> sh_height g x" if "p \<in> sh_pages g" for p
    using pendingD(20)[OF pend that] xr by simp
  have rootpg: "\<exists>rtp. page_of t' R = Some rtp \<and> parent_page_id rtp = INVALID_PAGE_ID"
    using pg Rx rp by simp
  show "tree_inv t' ?g"
    unfolding tree_inv_def rt nx lm
  proof (intro conjI ballI impI)
    fix p assume p: "p \<in> sh_pages ?g"
    show "0 < p" using p R0 pendingD(18)[OF pend] by auto
    show "p < R + 1" using p pendingD(19)[OF pend, of p] R by auto
    show "sh_height ?g p \<le> sh_height ?g R" using p hts[of p] by auto
    show "node_ok t' ?g p" using p okR ok by auto
    show "listed t' ?g p" if "p \<noteq> R" using p that lst by auto
  qed (use hd pendingD(2)[OF pend] rootpg in simp_all)
  have leafs: "leaf_at t' p = leaf_at t p" if "p \<in> sh_pages g" for p
  proof -
    from pendingD(21)[OF pend that] obtain tp where "page_of t p = Some tp" by (rule node_okD)
    then show ?thesis by (intro same_node_leaf_at[OF sn[OF that]]) simp
  qed
  have leafR: "leaf_at t' R = None" using pg Rx rp by (simp add: leaf_at_def)
  show "entries t' ?g = entries t g"
    unfolding entries_def root_shape_simps using leaves_grow(1)[of "sh_pages g" t' t R, OF leafs leafR]
    by simp
  show "sizes_ok t' ?g X = sizes_ok t g X"
    unfolding sizes_ok_def lm root_shape_simps
    using leaves_grow(2)[of "sh_pages g" t' t R, OF leafs leafR] by simp
qed

subsection \<open>Splitting a page\<close>

definition split_shape :: "tree_shape \<Rightarrow> page_id_t \<Rightarrow> KeyType \<Rightarrow> page_id_t \<Rightarrow> tree_shape" where
  "split_shape g x s x' =
     g\<lparr>sh_pages := insert x' (sh_pages g), sh_height := (sh_height g)(x' := sh_height g x),
       sh_lo := (sh_lo g)(x' := Some s), sh_hi := (sh_hi g)(x' := sh_hi g x, x := Some s)\<rparr>"

lemma split_shape_simps [simp]:
  "sh_pages (split_shape g x s x') = insert x' (sh_pages g)"
  "sh_height (split_shape g x s x') p = (if p = x' then sh_height g x else sh_height g p)"
  "sh_lo (split_shape g x s x') p = (if p = x' then Some s else sh_lo g p)"
  "sh_hi (split_shape g x s x') p = (if p = x then Some s else if p = x' then sh_hi g x else sh_hi g p)"
  by (simp_all add: split_shape_def)

lemma split_shape_gap:
  "p \<noteq> x' \<Longrightarrow> same_shape_at g (gap_shape (split_shape g x s x') x x') p"
  by (simp add: same_shape_at_def)

lemma split_shape_height_diff [simp]:
  "r \<noteq> x' \<Longrightarrow> x \<noteq> x' \<Longrightarrow> sh_height (split_shape g x s x') r - sh_height (split_shape g x s x') x
     = sh_height g r - sh_height g x"
  by simp

lemma inv_lists:
  assumes inv: "tree_inv t g" and q: "q \<in> sh_pages g"
    and qtp: "page_of t q = Some qtp" "node qtp = InternalNode arr" and c: "c \<in> snd ` set arr"
  shows "c \<in> sh_pages g" "Suc (sh_height g c) = sh_height g q"
    "\<exists>ctp. page_of t c = Some ctp \<and> parent_page_id ctp = q" "c \<noteq> q"
    "c \<noteq> pool_next_page_id (bpm t)"
proof -
  note int = node_ok_internalD[OF tree_invD(10)[OF inv q] qtp]
  show c1: "c \<in> sh_pages g" using int(2)[OF c] .
  show h: "Suc (sh_height g c) = sh_height g q" using int(3)[OF c] .
  show "\<exists>ctp. page_of t c = Some ctp \<and> parent_page_id ctp = q" using int(4)[OF c] .
  show "c \<noteq> q" using h by auto
  show "c \<noteq> pool_next_page_id (bpm t)" using tree_invD(8)[OF inv c1] by simp
qed

subsection \<open>Splitting a leaf\<close>

lemma split_leaf_pending:
  assumes inv: "tree_inv t g" and L: "L \<in> sh_pages g"
    and tp: "page_of t L = Some tp" and nd: "node tp = LeafNode (keep @ (s, v) # rest) nxt"
    and keep: "keep \<noteq> []"
    and N: "N = pool_next_page_id (bpm t)"
    and ntp: "tp_page_id ntp = N" "parent_page_id ntp = parent_page_id tp"
      "max_size ntp = leaf_max_size t" "node ntp = LeafNode ((s, v) # rest) nxt"
    and pg: "page_of t' = (page_of t)(N \<mapsto> ntp, L \<mapsto> tp\<lparr>node := LeafNode keep N\<rparr>)"
    and rt: "root_page_id t' = root_page_id t"
    and nx: "pool_next_page_id (bpm t') = N + 1"
    and hd: "header_ok t'" and lm: "leaf_max_size t' = leaf_max_size t"
  shows "pending t' (split_shape g L s N) L s N"
    and "entries t' (split_shape g L s N) = entries t g"
    and "sizes_ok t g {L} \<Longrightarrow> int (length (keep @ (s, v) # rest)) \<le> leaf_max_size t \<Longrightarrow>
         sizes_ok t' (split_shape g L s N) {}"
proof -
  let ?g = "split_shape g L s N"
  note okL = node_ok_leafD[OF tree_invD(10)[OF inv L] tp nd]
  have NT: "N \<notin> sh_pages g" using tree_invD(8)[OF inv, of N] N by auto
  have NL: "N \<noteq> L" using NT L by auto
  have N0: "0 < N" using tree_invD(7,8)[OF inv L] N by simp
  have Nr: "N \<noteq> root_page_id t" using NT tree_invD(3)[OF inv] by auto
  have same: "page_of t' p = page_of t p" if "p \<noteq> N" "p \<noteq> L" for p
    using pg that by simp
  have pL: "page_of t' L = Some (tp\<lparr>node := LeafNode keep N\<rparr>)" using pg by simp
  have pN: "page_of t' N = Some ntp" using pg NL by simp
  have kp: "keeps_parent t t' c" if "c \<in> sh_pages g" for c
    using pg tp that NT by (cases "c = L") (auto simp: keeps_parent_def)
  have srt: "sorted_wrt (<) (map fst keep)" "sorted_wrt (<) (map fst ((s, v) # rest))"
    and below: "\<forall>x\<in>set keep. fst x < s" and above: "\<forall>x\<in>set rest. s < fst x"
    using okL(2) by (auto simp: sorted_wrt_append)
  have rng: "in_range (sh_lo g L) (sh_hi g L) k" if "(k, w) \<in> set (keep @ (s, v) # rest)" for k w
    using okL(3)[OF that] .
  have lt1: "lt_bound (sh_lo g L) (Some s)"
  proof -
    obtain k w where kw: "(k, w) \<in> set keep" using keep by (cases keep) auto
    then have "k < s" using below by auto
    moreover have "in_range (sh_lo g L) (sh_hi g L) k" using rng[of k w] kw by simp
    ultimately show ?thesis by (auto simp: in_range_def lt_bound_def split: option.splits)
  qed
  have "in_range (sh_lo g L) (sh_hi g L) s" using rng[of s v] by simp
  then have lt2: "lt_bound (Some s) (sh_hi g L)"
    by (auto simp: in_range_def lt_bound_def split: option.splits)
  have okL': "node_ok t' ?g L"
  proof -
    have "in_range (sh_lo g L) (Some s) k" if "(k, w) \<in> set keep" for k w
      using rng[of k w] below that by (auto simp: in_range_def)
    then show ?thesis using pL okL(1,4,5) srt(1) NL lm by (auto simp: node_ok_def)
  qed
  have okN: "node_ok t' (gap_shape ?g L N) N"
  proof -
    have "in_range (Some s) (sh_hi g L) k" if "(k, w) \<in> set ((s, v) # rest)" for k w
      using rng[of k w] above that by (auto simp: in_range_def)
    then show ?thesis using pN ntp okL(1) srt(2) NL lm by (auto simp: node_ok_def)
  qed
  have ok: "node_ok t' (gap_shape ?g L N) p" if p: "p \<in> sh_pages g" "p \<noteq> L" for p
  proof (rule node_ok_frame[OF tree_invD(10)[OF inv p(1)] _ lm])
    have pN': "p \<noteq> N" using p NT by auto
    show "same_node t t' p" using same[OF pN' p(2)] by (rule same_node_same)
    show "same_shape_at g (gap_shape ?g L N) p" using pN' by (rule split_shape_gap)
    show "sh_pages g \<subseteq> sh_pages (gap_shape ?g L N)" by auto
    fix ptp arr c
    assume q: "page_of t p = Some ptp" "node ptp = InternalNode arr" and c: "c \<in> snd ` set arr"
    note l = inv_lists[OF inv p(1) q c]
    have "c \<noteq> N" using l(1) NT by auto
    then show "same_shape_at g (gap_shape ?g L N) c \<and> keeps_parent t t' c"
      using kp[OF l(1)] split_shape_gap by simp
  qed
  have internal_same: "q \<in> sh_pages g \<and> page_of t q = Some qtp"
    if "q \<in> sh_pages ?g" "page_of t' q = Some qtp" "node qtp = InternalNode arr" for q qtp arr
  proof -
    have "q \<noteq> N" using that pN ntp(4) by auto
    moreover have "q \<noteq> L" using that pL by auto
    ultimately show ?thesis using that same[of q] by simp
  qed
  have nl: "\<not> listed t' ?g N"
  proof
    assume "listed t' ?g N"
    then obtain q qtp arr where q: "q \<in> sh_pages ?g" "page_of t' q = Some qtp"
      "node qtp = InternalNode arr" "N \<in> snd ` set arr" unfolding listed_def by blast
    from internal_same[OF q(1,2,3)] have "q \<in> sh_pages g" "page_of t q = Some qtp" by auto
    from inv_lists(5)[OF inv this q(3,4)] N show False by simp
  qed
  have lst: "listed t' ?g p" if p: "p \<in> sh_pages g" "p \<noteq> root_page_id t" for p
  proof -
    from tree_invD(11)[OF inv p] obtain q qtp arr where
      q: "q \<in> sh_pages g" "page_of t q = Some qtp" "node qtp = InternalNode arr"
        "p \<in> snd ` set arr" by (auto simp: listed_def)
    have "q \<noteq> L" using q tp nd by auto
    moreover have "q \<noteq> N" using q NT by auto
    ultimately have "page_of t' q = Some qtp" using same[of q] q by simp
    moreover have "q \<in> sh_pages ?g" using q(1) by simp
    ultimately show ?thesis using q(3,4) by (intro listedI)
  qed
  have rootpg: "\<exists>rtp. page_of t' (root_page_id t) = Some rtp \<and> parent_page_id rtp = INVALID_PAGE_ID"
    using tree_invD(6)[OF inv] kp[OF tree_invD(3)[OF inv]] by (auto simp: keeps_parent_def)
  have par: "\<exists>xtp xtp'. page_of t' L = Some xtp \<and> page_of t' N = Some xtp' \<and>
                 parent_page_id xtp' = parent_page_id xtp"
    using pL pN ntp(2) by simp
  have hiroot: "sh_hi ?g (if L = root_page_id t then N else root_page_id t) = None"
    using tree_invD(5)[OF inv] NL Nr by auto
  show "pending t' ?g L s N"
    unfolding pending_def rt nx lm
  proof (intro conjI ballI impI)
    fix p assume p: "p \<in> sh_pages ?g"
    show "0 < p" using p N0 tree_invD(7)[OF inv] by auto
    show "p < N + 1" using p tree_invD(8)[OF inv, of p] N by auto
    show "sh_height ?g p \<le> sh_height ?g (root_page_id t)"
      using p tree_invD(9)[OF inv, of p] tree_invD(9)[OF inv L] Nr by auto
    show "node_ok t' (if p = L then ?g else gap_shape ?g L N) p"
      using p okL' okN ok[of p] by auto
    show "listed t' ?g p" if "p \<noteq> root_page_id t \<and> p \<noteq> N" using p that lst by auto
  qed (use hd tree_invD(2,3,4)[OF inv] L NL Nr lt1 lt2 rootpg par nl hiroot in simp_all)
  have leafs: "leaf_at t' p = leaf_at t p" if "p \<in> sh_pages g" "p \<noteq> L" for p
  proof -
    have "p \<noteq> N" using that NT by auto
    from same[OF this that(2)] show ?thesis by (simp add: leaf_at_def)
  qed
  have lL: "leaf_at t L = Some (keep @ (s, v) # rest)" "leaf_at t' L = Some keep"
    "leaf_at t' N = Some ((s, v) # rest)" using tp nd pL pN ntp(4) by (simp_all add: leaf_at_def)
  show "entries t' ?g = entries t g"
  proof (intro set_eqI iffI; clarify)
    fix k w assume "(k, w) \<in> entries t' ?g"
    then obtain p arr where p: "p \<in> sh_pages ?g" "leaf_at t' p = Some arr" "(k, w) \<in> set arr"
      by (auto simp: entries_def)
    show "(k, w) \<in> entries t g"
    proof (cases "p = L \<or> p = N")
      case True
      then have "(k, w) \<in> set (keep @ (s, v) # rest)" using p lL by auto
      then show ?thesis using L lL(1) unfolding entries_def by blast
    next
      case False
      then have "p \<in> sh_pages g" "leaf_at t p = Some arr" using p leafs[of p] by auto
      then show ?thesis using p(3) unfolding entries_def by blast
    qed
  next
    fix k w assume "(k, w) \<in> entries t g"
    then obtain p arr where p: "p \<in> sh_pages g" "leaf_at t p = Some arr" "(k, w) \<in> set arr"
      by (auto simp: entries_def)
    show "(k, w) \<in> entries t' ?g"
    proof (cases "p = L")
      case True
      then have "(k, w) \<in> set keep \<or> (k, w) \<in> set ((s, v) # rest)" using p lL by auto
      then show ?thesis
      proof
        assume "(k, w) \<in> set keep"
        moreover have "L \<in> sh_pages ?g" using L by simp
        ultimately show ?thesis using lL(2) unfolding entries_def by blast
      next
        assume "(k, w) \<in> set ((s, v) # rest)"
        moreover have "N \<in> sh_pages ?g" by simp
        ultimately show ?thesis using lL(3) unfolding entries_def by blast
      qed
    next
      case False
      then have "p \<in> sh_pages ?g" "leaf_at t' p = Some arr" using p leafs[of p] by auto
      then show ?thesis using p(3) unfolding entries_def by blast
    qed
  qed
  show "sizes_ok t' ?g {}"
    if so: "sizes_ok t g {L}" and le: "int (length (keep @ (s, v) # rest)) \<le> leaf_max_size t"
    unfolding sizes_ok_def lm
  proof (intro ballI allI impI)
    fix p arr assume p: "p \<in> sh_pages ?g - {}" "leaf_at t' p = Some arr"
    show "int (length arr) < leaf_max_size t"
    proof (cases "p = L \<or> p = N")
      case True
      have "arr = keep \<or> arr = (s, v) # rest" using True p lL by auto
      then have "length arr < length (keep @ (s, v) # rest)" using keep by auto
      then have "int (length arr) < int (length (keep @ (s, v) # rest))"
        by (simp only: of_nat_less_iff)
      then show ?thesis using le by linarith
    next
      case False
      then have "p \<in> sh_pages g - {L}" "leaf_at t p = Some arr" using p leafs[of p] by auto
      then show ?thesis using so unfolding sizes_ok_def by blast
    qed
  qed
qed

subsection \<open>Splitting an internal page\<close>

lemma split_internal_pending:
  assumes inv: "tree_inv t g" and X: "X \<in> sh_pages g"
    and tp: "page_of t X = Some tp" and nd: "node tp = InternalNode (keep @ (s, c) # rest)"
    and keep: "keep \<noteq> []"
    and N: "N = pool_next_page_id (bpm t)"
    and ntp: "tp_page_id ntp = N" "parent_page_id ntp = parent_page_id tp"
      "node ntp = InternalNode ((k0, c) # rest)"
    and pg: "\<And>q. page_of t' q =
               (if q = N then Some ntp
                else if q = X then Some (tp\<lparr>node := InternalNode keep\<rparr>)
                else if q \<in> snd ` set ((k0, c) # rest)
                     then map_option (\<lambda>ctp. ctp\<lparr>parent_page_id := N\<rparr>) (page_of t q)
                     else page_of t q)"
    and rt: "root_page_id t' = root_page_id t"
    and nx: "pool_next_page_id (bpm t') = N + 1"
    and hd: "header_ok t'" and lm: "leaf_max_size t' = leaf_max_size t"
  shows "pending t' (split_shape g X s N) X s N"
    and "entries t' (split_shape g X s N) = entries t g"
    and "sizes_ok t' (split_shape g X s N) Y = sizes_ok t g Y"
proof -
  let ?g = "split_shape g X s N"
  let ?moved = "snd ` set ((k0, c) # rest)"
  note int = node_ok_internalD[OF tree_invD(10)[OF inv X] tp nd]
  have NT: "N \<notin> sh_pages g" using tree_invD(8)[OF inv, of N] N by auto
  have NX: "N \<noteq> X" using NT X by auto
  have N0: "0 < N" using tree_invD(7,8)[OF inv X] N by simp
  have Nr: "N \<noteq> root_page_id t" using NT tree_invD(3)[OF inv] by auto
  define kids where "kids = snd ` set (keep @ (s, c) # rest)"
  have kI: "m \<in> snd ` set keep \<Longrightarrow> m \<in> kids" "m \<in> ?moved \<Longrightarrow> m \<in> kids" for m
    by (auto simp: kids_def)
  have kE: "m \<in> snd ` set keep \<or> m \<in> ?moved" if "m \<in> kids" for m
    using that by (auto simp: kids_def)
  have mv: "m \<in> sh_pages g" "m \<noteq> X" "m \<noteq> N" "Suc (sh_height g m) = sh_height g X"
    "\<exists>ctp. page_of t m = Some ctp \<and> parent_page_id ctp = X"
    if "m \<in> kids" for m
  proof -
    have m: "m \<in> snd ` set (keep @ (s, c) # rest)" using that by (simp add: kids_def)
    note l = inv_lists[OF inv X tp nd m]
    show "m \<in> sh_pages g" "m \<noteq> X" "Suc (sh_height g m) = sh_height g X"
      "\<exists>ctp. page_of t m = Some ctp \<and> parent_page_id ctp = X" using l by auto
    show "m \<noteq> N" using l(1) NT by auto
  qed
  have disj: "snd ` set keep \<inter> ?moved = {}"
    using tiling_distinct[OF int(1)] by auto
  from tiling_split[OF int(1) keep, of k0]
  have til1: "tiling g (sh_lo g X) keep (Some s)"
    and til2: "tiling g (Some s) ((k0, c) # rest) (sh_hi g X)" by auto
  have pX: "page_of t' X = Some (tp\<lparr>node := InternalNode keep\<rparr>)" using pg[of X] NX by simp
  have pN: "page_of t' N = Some ntp" using pg[of N] by simp
  have same: "page_of t' p = page_of t p" if "p \<noteq> N" "p \<noteq> X" "p \<notin> ?moved" for p
    using pg[of p] that by simp
  have pm: "\<exists>ctp. page_of t m = Some ctp \<and> page_of t' m = Some (ctp\<lparr>parent_page_id := N\<rparr>)"
    if "m \<in> ?moved" for m
  proof -
    from mv[OF kI(2)[OF that]] obtain ctp where "page_of t m = Some ctp" "m \<noteq> X" "m \<noteq> N"
      by auto
    then show ?thesis using pg[of m] that by simp
  qed
  have sn: "same_node t t' p" if "p \<in> sh_pages g" "p \<noteq> X" for p
  proof (cases "p \<in> ?moved")
    case True
    from pm[OF this] show ?thesis by (auto simp: same_node_def)
  next
    case False
    have "p \<noteq> N" using that NT by auto
    from same[OF this that(2) False] show ?thesis by (rule same_node_same)
  qed
  have kp: "keeps_parent t t' q" if "q \<in> sh_pages g" "q \<notin> ?moved" for q
  proof (cases "q = X")
    case True
    then show ?thesis using tp pX by (simp add: keeps_parent_def)
  next
    case False
    have "q \<noteq> N" using that NT by auto
    from same[OF this False that(2)] show ?thesis by (rule keeps_parent_same)
  qed
  have okX: "node_ok t' ?g X"
  proof -
    have "tiling ?g (sh_lo g X) keep (Some s) = tiling g (sh_lo g X) keep (Some s)"
    proof (rule tiling_cong)
      fix m assume "m \<in> snd ` set keep"
      then have "m \<in> kids" by (rule kI(1))
      from mv(2,3)[OF this] show "sh_lo ?g m = sh_lo g m \<and> sh_hi ?g m = sh_hi g m" by simp
    qed
    then have til: "tiling ?g (sh_lo ?g X) keep (sh_hi ?g X)" using til1 NX by simp
    have "m \<in> sh_pages ?g \<and> Suc (sh_height ?g m) = sh_height ?g X \<and>
          (\<exists>ctp. page_of t' m = Some ctp \<and> parent_page_id ctp = X)" if m: "m \<in> snd ` set keep" for m
    proof -
      have nm: "m \<notin> ?moved" using m disj by blast
      note k = mv[OF kI(1)[OF m]]
      from same[OF k(3) k(2) nm] k NX show ?thesis by auto
    qed
    then show ?thesis using pX int(5) til by (simp add: node_ok_def)
  qed
  have okN: "node_ok t' (gap_shape ?g X N) N"
  proof -
    have "tiling (gap_shape ?g X N) (Some s) ((k0, c) # rest) (sh_hi g X)
          = tiling g (Some s) ((k0, c) # rest) (sh_hi g X)"
    proof (rule tiling_cong)
      fix m assume "m \<in> ?moved"
      then have "m \<in> kids" by (rule kI(2))
      from mv(2,3)[OF this]
      show "sh_lo (gap_shape ?g X N) m = sh_lo g m \<and> sh_hi (gap_shape ?g X N) m = sh_hi g m"
        by simp
    qed
    then have til: "tiling (gap_shape ?g X N) (sh_lo (gap_shape ?g X N) N) ((k0, c) # rest)
                      (sh_hi (gap_shape ?g X N) N)" using til2 NX by simp
    have "m \<in> sh_pages (gap_shape ?g X N) \<and>
          Suc (sh_height (gap_shape ?g X N) m) = sh_height (gap_shape ?g X N) N \<and>
          (\<exists>ctp. page_of t' m = Some ctp \<and> parent_page_id ctp = N)" if m: "m \<in> ?moved" for m
      using pm[OF m] mv[OF kI(2)[OF m]] by auto
    then show ?thesis using pN ntp til by (simp add: node_ok_def)
  qed
  have ok: "node_ok t' (gap_shape ?g X N) p" if p: "p \<in> sh_pages g" "p \<noteq> X" for p
  proof (rule node_ok_frame[OF tree_invD(10)[OF inv p(1)] sn[OF p] lm])
    have pN': "p \<noteq> N" using p NT by auto
    show "same_shape_at g (gap_shape ?g X N) p" using pN' by (rule split_shape_gap)
    show "sh_pages g \<subseteq> sh_pages (gap_shape ?g X N)" by auto
    fix ptp arr d
    assume q: "page_of t p = Some ptp" "node ptp = InternalNode arr" and d: "d \<in> snd ` set arr"
    note l = inv_lists[OF inv p(1) q d]
    have dN: "d \<noteq> N" using l(1) NT by auto
    have "d \<notin> ?moved"
    proof
      assume "d \<in> ?moved"
      from mv(5)[OF kI(2)[OF this]] l(3) have "p = X" by auto
      then show False using p by simp
    qed
    from kp[OF l(1) this] show "same_shape_at g (gap_shape ?g X N) d \<and> keeps_parent t t' d"
      using split_shape_gap[OF dN] by simp
  qed
  have nl: "\<not> listed t' ?g N"
  proof
    assume "listed t' ?g N"
    then obtain q qtp arr where q: "q \<in> sh_pages ?g" "page_of t' q = Some qtp"
      "node qtp = InternalNode arr" "N \<in> snd ` set arr" unfolding listed_def by blast
    show False
    proof (cases "q = N \<or> q = X")
      case True
      then have "arr = (k0, c) # rest \<or> arr = keep" using q(2,3) pN pX ntp(3) NX by auto
      then have "N \<in> ?moved \<or> N \<in> snd ` set keep" using q(4) by blast
      then have "N \<in> kids" using kI[of N] by blast
      from mv(3)[OF this] show False by simp
    next
      case False
      then have qT: "q \<in> sh_pages g" using q(1) by auto
      from tree_inv_page[OF inv qT] obtain qtp0 where q0: "page_of t q = Some qtp0" by blast
      from sn[OF qT] False q0 q(2) have "node qtp0 = node qtp" by (auto simp: same_node_def)
      from inv_lists(5)[OF inv qT q0 this[unfolded q(3)] q(4)] N show False by simp
    qed
  qed
  have lst: "listed t' ?g p" if p: "p \<in> sh_pages g" "p \<noteq> root_page_id t" for p
  proof -
    from tree_invD(11)[OF inv p] obtain q qtp arr where
      q: "q \<in> sh_pages g" "page_of t q = Some qtp" "node qtp = InternalNode arr"
        "p \<in> snd ` set arr" by (auto simp: listed_def)
    show ?thesis
    proof (cases "q = X")
      case True
      then have "p \<in> kids" using q tp nd by (simp add: kids_def)
      then have "p \<in> snd ` set keep \<or> p \<in> ?moved" by (rule kE)
      then show ?thesis
      proof
        assume pk: "p \<in> snd ` set keep"
        have X': "X \<in> sh_pages ?g" using X by simp
        have "node (tp\<lparr>node := InternalNode keep\<rparr>) = InternalNode keep" by simp
        from listedI[OF X' pX this pk] show ?thesis .
      next
        assume pm': "p \<in> ?moved"
        have N': "N \<in> sh_pages ?g" by simp
        from listedI[OF N' pN ntp(3) pm'] show ?thesis .
      qed
    next
      case False
      from sn[OF q(1) False] q(2) obtain qtp' where q': "page_of t' q = Some qtp'"
        "node qtp' = node qtp" by (auto simp: same_node_def)
      have qg: "q \<in> sh_pages ?g" using q(1) by simp
      from listedI[OF qg q'(1) q'(2)[unfolded q(3)] q(4)] show ?thesis .
    qed
  qed
  have rootpg: "\<exists>rtp. page_of t' (root_page_id t) = Some rtp \<and> parent_page_id rtp = INVALID_PAGE_ID"
  proof -
    from tree_invD(6)[OF inv] obtain rtp where
      r: "page_of t (root_page_id t) = Some rtp" "parent_page_id rtp = INVALID_PAGE_ID" by blast
    have "root_page_id t \<notin> ?moved"
    proof
      assume "root_page_id t \<in> ?moved"
      from mv(5)[OF kI(2)[OF this]] r have "X = INVALID_PAGE_ID" by auto
      then show False using tree_invD(7)[OF inv X] by (simp add: INVALID_PAGE_ID_def)
    qed
    from kp[OF tree_invD(3)[OF inv] this] r show ?thesis by (auto simp: keeps_parent_def)
  qed
  have par: "\<exists>xtp xtp'. page_of t' X = Some xtp \<and> page_of t' N = Some xtp' \<and>
                 parent_page_id xtp' = parent_page_id xtp"
    using pX pN ntp(2) by simp
  have hiroot: "sh_hi ?g (if X = root_page_id t then N else root_page_id t) = None"
    using tree_invD(5)[OF inv] NX Nr by auto
  have lt1: "lt_bound (sh_lo g X) (Some s)" using tiling_lt[OF til1] .
  have lt2: "lt_bound (Some s) (sh_hi g X)" using tiling_lt[OF til2] .
  show "pending t' ?g X s N"
    unfolding pending_def rt nx lm
  proof (intro conjI ballI impI)
    fix p assume p: "p \<in> sh_pages ?g"
    show "0 < p" using p N0 tree_invD(7)[OF inv] by auto
    show "p < N + 1" using p tree_invD(8)[OF inv, of p] N by auto
    show "sh_height ?g p \<le> sh_height ?g (root_page_id t)"
      using p tree_invD(9)[OF inv, of p] tree_invD(9)[OF inv X] Nr by auto
    show "node_ok t' (if p = X then ?g else gap_shape ?g X N) p"
      using p okX okN ok[of p] by auto
    show "listed t' ?g p" if "p \<noteq> root_page_id t \<and> p \<noteq> N" using p that lst by auto
  qed (use hd tree_invD(2,3,4)[OF inv] X NX Nr lt1 lt2 rootpg par nl hiroot in simp_all)
  have leafs: "leaf_at t' p = leaf_at t p" if p: "p \<in> sh_pages g" for p
  proof (cases "p = X")
    case True
    then show ?thesis using tp nd pX by (simp add: leaf_at_def)
  next
    case False
    from tree_inv_page[OF inv p] obtain ptp where "page_of t p = Some ptp" by blast
    then show ?thesis by (intro same_node_leaf_at[OF sn[OF p False]]) simp
  qed
  have leafN: "leaf_at t' N = None" using pN ntp(3) by (simp add: leaf_at_def)
  show "entries t' ?g = entries t g"
    unfolding entries_def split_shape_simps
    using leaves_grow(1)[of "sh_pages g" t' t N, OF leafs leafN] by simp
  show "sizes_ok t' ?g Y = sizes_ok t g Y"
    unfolding sizes_ok_def lm split_shape_simps
    using leaves_grow(2)[of "sh_pages g" t' t N, OF leafs leafN] by simp
qed

subsection \<open>What \<open>Split\<close> does to the pages\<close>

definition frame_eq :: "BPlusTree \<Rightarrow> BPlusTree \<Rightarrow> bool" where
  "frame_eq t t' \<longleftrightarrow>
     header_ok t' = header_ok t \<and> root_page_id t' = root_page_id t \<and>
     leaf_max_size t' = leaf_max_size t \<and> internal_max_size t' = internal_max_size t \<and>
     index_name t' = index_name t"

lemma frame_eqD:
  assumes "frame_eq t t'"
  shows "header_ok t' = header_ok t" "root_page_id t' = root_page_id t"
    "leaf_max_size t' = leaf_max_size t" "internal_max_size t' = internal_max_size t"
    "index_name t' = index_name t"
  using assms by (simp_all add: frame_eq_def)

lemma frame_eq_refl [simp]: "frame_eq t t"
  by (simp add: frame_eq_def)

lemma frame_eq_trans: "frame_eq t t1 \<Longrightarrow> frame_eq t1 t2 \<Longrightarrow> frame_eq t t2"
  by (simp add: frame_eq_def)

lemma frame_eq_Unpin [simp]: "frame_eq t (UnpinPage t1 p d) = frame_eq t t1"
  by (simp add: frame_eq_def)

lemma frame_eq_write: "p \<noteq> HEADER_PAGE_ID \<Longrightarrow> frame_eq t (write_page t1 p tp) = frame_eq t t1"
  by (simp add: frame_eq_def)

lemma same_view_frame: "same_view t t1 \<Longrightarrow> frame_eq t t1"
  by (simp add: same_view_def frame_eq_def)

lemma Fetch_page:
  assumes "page_of t p = Some tp"
  shows "\<exists>t1. FetchPage t p = Inr t1 \<and> same_view t t1"
  using same_view_Fetch[OF same_view_refl assms] .

lemma same_viewD:
  assumes "same_view t t1"
  shows "page_of t1 = page_of t" "pool_next_page_id (bpm t1) = pool_next_page_id (bpm t)"
    "frame_eq t t1" "\<And>q. is_resident t1 q = is_resident t q"
  using assms by (simp_all add: same_view_def frame_eq_def)

lemma NewPage_facts:
  assumes pos: "0 < pool_next_page_id (bpm t)"
  shows "\<exists>t1. NewPage t = (pool_next_page_id (bpm t), t1) \<and>
      (\<forall>q. page_of t1 q = (if q = pool_next_page_id (bpm t) then None else page_of t q)) \<and>
      (\<forall>q. is_resident t1 q \<longleftrightarrow> q = pool_next_page_id (bpm t) \<or> is_resident t q) \<and>
      frame_eq t t1 \<and> pool_next_page_id (bpm t1) = pool_next_page_id (bpm t) + 1"
proof -
  obtain n t1 where n: "NewPage t = (n, t1)" by (cases "NewPage t")
  note v = NewPage_view[OF n]
  have "n \<noteq> HEADER_PAGE_ID" using v(1) pos by (simp add: HEADER_PAGE_ID_def)
  then show ?thesis using n v by (auto simp: frame_eq_def)
qed

lemma Split_leaf:
  assumes inv: "tree_inv t g" and L: "L \<in> sh_pages g"
    and tp: "page_of t L = Some tp" and nd: "node tp = LeafNode arr nxt"
    and len: "2 \<le> length arr"
  shows "\<exists>s v keep rest t' ntp.
      Split t L = Inr ((pool_next_page_id (bpm t), s), t') \<and>
      arr = keep @ (s, v) # rest \<and> keep \<noteq> [] \<and>
      tp_page_id ntp = pool_next_page_id (bpm t) \<and> parent_page_id ntp = parent_page_id tp \<and>
      max_size ntp = leaf_max_size t \<and> node ntp = LeafNode ((s, v) # rest) nxt \<and>
      page_of t' = (page_of t)(pool_next_page_id (bpm t) \<mapsto> ntp,
                               L \<mapsto> tp\<lparr>node := LeafNode keep (pool_next_page_id (bpm t))\<rparr>) \<and>
      frame_eq t t' \<and> pool_next_page_id (bpm t') = pool_next_page_id (bpm t) + 1"
proof -
  define N where "N = pool_next_page_id (bpm t)"
  have pos: "0 < N" using tree_invD(7,8)[OF inv L] by (simp add: N_def)
  have NL: "L \<noteq> N" using tree_invD(8)[OF inv L] by (simp add: N_def)
  have L0: "L \<noteq> HEADER_PAGE_ID" using tree_invD(7)[OF inv L] by (simp add: HEADER_PAGE_ID_def)
  have N0: "N \<noteq> HEADER_PAGE_ID" using pos by (simp add: HEADER_PAGE_ID_def)
  from NewPage_facts[OF pos[unfolded N_def]] obtain t1 where
    np: "NewPage t = (N, t1)" and p1: "\<And>q. page_of t1 q = (if q = N then None else page_of t q)"
    and r1: "\<And>q. is_resident t1 q \<longleftrightarrow> q = N \<or> is_resident t q" and f1: "frame_eq t t1"
    and n1: "pool_next_page_id (bpm t1) = N + 1" by (auto simp: N_def)
  from MoveHalfTo_leaf[OF len] obtain s v keep rest where
    mh: "Leaf_MoveHalfTo arr = Inr (s, keep, (s, v) # rest)" and arr: "arr = keep @ (s, v) # rest"
    and keep: "keep \<noteq> []" by blast
  define ntp where "ntp = (Leaf_Init N (parent_page_id tp) (leaf_max_size t1))
                                   \<lparr>node := LeafNode ((s, v) # rest) nxt\<rparr>"
  define t' where "t' = write_page (write_page t1 N ntp) L (tp\<lparr>node := LeafNode keep N\<rparr>)"
  have rd: "read_page t1 L = Inr tp" using p1[of L] tp NL by simp
  have sp: "Split t L = Inr ((N, s), t')"
    using np rd nd mh by (simp add: Split_def bindE_def Let_def ntp_def t'_def)
  have rL: "is_resident t1 L" using r1 page_of_resident[OF tp] by simp
  have pg: "page_of t' = (page_of t)(N \<mapsto> ntp, L \<mapsto> tp\<lparr>node := LeafNode keep N\<rparr>)"
    using r1 rL p1 by (auto simp: t'_def fun_eq_iff)
  have fr: "frame_eq t t'" using f1 L0 N0 by (simp add: t'_def frame_eq_write)
  have nx: "pool_next_page_id (bpm t') = N + 1" using n1 by (simp add: t'_def)
  have nt: "tp_page_id ntp = N" "parent_page_id ntp = parent_page_id tp"
    "max_size ntp = leaf_max_size t" "node ntp = LeafNode ((s, v) # rest) nxt"
    using frame_eqD(3)[OF f1] by (simp_all add: ntp_def Leaf_Init_def)
  show ?thesis using sp arr keep nt pg fr nx unfolding N_def by blast
qed

text \<open>The loop that sets the parent pointer of the moved children.\<close>

lemma reparent_children_pages:
  "(\<And>c. c \<in> set cs \<Longrightarrow> page_of t c \<noteq> None \<and> c \<noteq> HEADER_PAGE_ID) \<Longrightarrow>
   \<exists>t'. reparent_children t cs n = Inr t' \<and>
     (\<forall>q. page_of t' q = (if q \<in> set cs
              then map_option (\<lambda>ctp. ctp\<lparr>parent_page_id := n\<rparr>) (page_of t q) else page_of t q)) \<and>
     frame_eq t t' \<and> pool_next_page_id (bpm t') = pool_next_page_id (bpm t)"
proof (induction cs arbitrary: t)
  case Nil
  then show ?case by simp
next
  case (Cons c cs)
  from Cons.prems[of c] obtain ctp where ctp: "page_of t c = Some ctp" and c0: "c \<noteq> HEADER_PAGE_ID"
    by auto
  from Fetch_page[OF ctp] obtain t1 where f: "FetchPage t c = Inr t1" and sv: "same_view t t1"
    by blast
  note v = same_viewD[OF sv]
  define t2 where "t2 = UnpinPage (write_page t1 c (ctp\<lparr>parent_page_id := n\<rparr>)) c True"
  have sp: "SetParentPageId t1 c n = Inr (write_page t1 c (ctp\<lparr>parent_page_id := n\<rparr>))"
    using ctp v(1) by (simp add: SetParentPageId_def bindE_def)
  have rc: "is_resident t1 c" using v(4) page_of_resident[OF ctp] by simp
  have p2: "page_of t2 q = (if q = c then Some (ctp\<lparr>parent_page_id := n\<rparr>) else page_of t q)" for q
    using rc v(1) by (simp add: t2_def)
  have f2: "frame_eq t t2" using v(3) c0 by (simp add: t2_def frame_eq_write)
  have n2: "pool_next_page_id (bpm t2) = pool_next_page_id (bpm t)" using v(2) by (simp add: t2_def)
  have "\<And>d. d \<in> set cs \<Longrightarrow> page_of t2 d \<noteq> None \<and> d \<noteq> HEADER_PAGE_ID"
    using Cons.prems p2 by simp
  from Cons.IH[OF this] obtain t' where
    r: "reparent_children t2 cs n = Inr t'"
      "\<And>q. page_of t' q = (if q \<in> set cs
              then map_option (\<lambda>ctp. ctp\<lparr>parent_page_id := n\<rparr>) (page_of t2 q) else page_of t2 q)"
      "frame_eq t2 t'" "pool_next_page_id (bpm t') = pool_next_page_id (bpm t2)" by blast
  have "reparent_children t (c # cs) n = Inr t'"
    using f sp r(1) by (simp add: bindE_def t2_def)
  moreover have "page_of t' q = (if q \<in> set (c # cs)
              then map_option (\<lambda>ctp. ctp\<lparr>parent_page_id := n\<rparr>) (page_of t q) else page_of t q)" for q
    using r(2)[of q] p2[of q] ctp by auto
  ultimately show ?case using frame_eq_trans[OF f2 r(3)] r(4) n2 by auto
qed

lemma Split_internal:
  assumes inv: "tree_inv t g" and X: "X \<in> sh_pages g"
    and tp: "page_of t X = Some tp" and nd: "node tp = InternalNode arr"
    and len: "2 \<le> length arr"
  shows "\<exists>s c keep rest t' ntp.
      Split t X = Inr ((pool_next_page_id (bpm t), s), t') \<and>
      arr = keep @ (s, c) # rest \<and> keep \<noteq> [] \<and>
      tp_page_id ntp = pool_next_page_id (bpm t) \<and> parent_page_id ntp = parent_page_id tp \<and>
      node ntp = InternalNode ((0, c) # rest) \<and>
      (\<forall>q. page_of t' q =
               (if q = pool_next_page_id (bpm t) then Some ntp
                else if q = X then Some (tp\<lparr>node := InternalNode keep\<rparr>)
                else if q \<in> snd ` set ((0, c) # rest)
                     then map_option (\<lambda>ctp. ctp\<lparr>parent_page_id := pool_next_page_id (bpm t)\<rparr>)
                            (page_of t q)
                     else page_of t q)) \<and>
      frame_eq t t' \<and> pool_next_page_id (bpm t') = pool_next_page_id (bpm t) + 1"
proof -
  define N where "N = pool_next_page_id (bpm t)"
  have pos: "0 < N" using tree_invD(7,8)[OF inv X] by (simp add: N_def)
  have NX: "X \<noteq> N" using tree_invD(8)[OF inv X] by (simp add: N_def)
  have X0: "X \<noteq> HEADER_PAGE_ID" using tree_invD(7)[OF inv X] by (simp add: HEADER_PAGE_ID_def)
  have N0: "N \<noteq> HEADER_PAGE_ID" using pos by (simp add: HEADER_PAGE_ID_def)
  from NewPage_facts[OF pos[unfolded N_def]] obtain t1 where
    np: "NewPage t = (N, t1)" and p1: "\<And>q. page_of t1 q = (if q = N then None else page_of t q)"
    and r1: "\<And>q. is_resident t1 q \<longleftrightarrow> q = N \<or> is_resident t q" and f1: "frame_eq t t1"
    and n1: "pool_next_page_id (bpm t1) = N + 1" by (auto simp: N_def)
  from MoveHalfTo_internal[OF len] obtain s c keep rest where
    mh: "Internal_MoveHalfTo arr = Inr (s, keep, (0, c) # rest)"
    and arr: "arr = keep @ (s, c) # rest" and keep: "keep \<noteq> []" by blast
  define ntp where "ntp = (Internal_Init N (parent_page_id tp) (internal_max_size t1))
                                   \<lparr>node := InternalNode ((0, c) # rest)\<rparr>"
  define t3 where "t3 = write_page (write_page t1 N ntp) X (tp\<lparr>node := InternalNode keep\<rparr>)"
  have rd: "read_page t1 X = Inr tp" using p1[of X] tp NX by simp
  have rX: "is_resident t1 X" using r1 page_of_resident[OF tp] by simp
  have p3: "page_of t3 q = (if q = N then Some ntp
                else if q = X then Some (tp\<lparr>node := InternalNode keep\<rparr>) else page_of t q)" for q
    using r1 rX p1 NX by (auto simp: t3_def)
  have f3: "frame_eq t t3" using f1 X0 N0 by (simp add: t3_def frame_eq_write)
  have n3: "pool_next_page_id (bpm t3) = N + 1" using n1 by (simp add: t3_def)
  have mvd: "m \<in> sh_pages g \<and> m \<noteq> X \<and> m \<noteq> N \<and> page_of t m \<noteq> None"
    if "m \<in> snd ` set ((0, c) # rest)" for m
  proof -
    have "m \<in> snd ` set arr" using that arr by auto
    from inv_lists[OF inv X tp nd this] show ?thesis by (auto simp: N_def)
  qed
  have "\<And>m. m \<in> set (map snd ((0, c) # rest)) \<Longrightarrow> page_of t3 m \<noteq> None \<and> m \<noteq> HEADER_PAGE_ID"
  proof -
    fix m assume "m \<in> set (map snd ((0, c) # rest))"
    then have m: "m \<in> snd ` set ((0, c) # rest)" by simp
    from mvd[OF m] tree_invD(7)[OF inv, of m] p3[of m]
    show "page_of t3 m \<noteq> None \<and> m \<noteq> HEADER_PAGE_ID" by (auto simp: HEADER_PAGE_ID_def)
  qed
  from reparent_children_pages[OF this, where n = N] obtain t' where
    r: "reparent_children t3 (map snd ((0, c) # rest)) N = Inr t'"
      "\<And>q. page_of t' q = (if q \<in> set (map snd ((0, c) # rest))
              then map_option (\<lambda>ctp. ctp\<lparr>parent_page_id := N\<rparr>) (page_of t3 q) else page_of t3 q)"
      "frame_eq t3 t'" "pool_next_page_id (bpm t') = pool_next_page_id (bpm t3)" by blast
  have sp: "Split t X = Inr ((N, s), t')"
    using np rd nd mh r(1) by (simp add: Split_def bindE_def Let_def ntp_def t3_def)
  have pg: "page_of t' q =
               (if q = N then Some ntp
                else if q = X then Some (tp\<lparr>node := InternalNode keep\<rparr>)
                else if q \<in> snd ` set ((0, c) # rest)
                     then map_option (\<lambda>ctp. ctp\<lparr>parent_page_id := N\<rparr>) (page_of t q)
                     else page_of t q)" for q
  proof (cases "q \<in> snd ` set ((0, c) # rest)")
    case True
    from mvd[OF True] show ?thesis using r(2)[of q] p3[of q] True by simp
  next
    case False
    then show ?thesis using r(2)[of q] p3[of q] by simp
  qed
  have nt: "tp_page_id ntp = N" "parent_page_id ntp = parent_page_id tp"
    "node ntp = InternalNode ((0, c) # rest)"
    by (simp_all add: ntp_def Internal_Init_def)
  have fr: "frame_eq t t'" using frame_eq_trans[OF f3 r(3)] .
  have nx: "pool_next_page_id (bpm t') = N + 1" using r(4) n3 by simp
  show ?thesis using sp arr keep nt pg fr nx unfolding N_def by blast
qed

subsection \<open>\<open>InsertIntoParent\<close> restores the invariant\<close>

lemma pending_pages:
  assumes pend: "pending t g x s x'"
  obtains xtp xtp' where "page_of t x = Some xtp" "page_of t x' = Some xtp'"
    "tp_page_id xtp = x" "tp_page_id xtp' = x'" "parent_page_id xtp' = parent_page_id xtp"
proof -
  from pendingD(16)[OF pend] obtain xtp xtp' where
    p: "page_of t x = Some xtp" "page_of t x' = Some xtp'"
      "parent_page_id xtp' = parent_page_id xtp" by blast
  from pendingD(21)[OF pend pendingD(4)[OF pend]] p(1) have "tp_page_id xtp = x"
    by (auto elim!: node_okD)
  moreover from pendingD(21)[OF pend pendingD(5)[OF pend]] p(2) have "tp_page_id xtp' = x'"
    by (auto elim!: node_okD)
  ultimately show ?thesis using p that by blast
qed

lemma InsertIntoParent_root:
  assumes pend: "pending t g x s x'" and xr: "x = root_page_id t"
  shows "\<exists>t'. InsertIntoParent t x s x' = Some (Inr t') \<and>
           tree_inv t' (root_shape g (pool_next_page_id (bpm t)) x) \<and>
           entries t' (root_shape g (pool_next_page_id (bpm t)) x) = entries t g \<and>
           sizes_ok t' (root_shape g (pool_next_page_id (bpm t)) x) {} = sizes_ok t g {} \<and>
           leaf_max_size t' = leaf_max_size t \<and> internal_max_size t' = internal_max_size t"
proof -
  define R where "R = pool_next_page_id (bpm t)"
  from pending_pages[OF pend] obtain xtp xtp' where
    p: "page_of t x = Some xtp" "page_of t x' = Some xtp'"
      "tp_page_id xtp = x" "tp_page_id xtp' = x'" by blast
  have isroot: "IsRootPage xtp" using pending_not_root[OF pend p(1)] xr by simp
  note x = pendingD(4)[OF pend] and x' = pendingD(5)[OF pend]
  have pos: "0 < R" using pendingD(18,19)[OF pend x] by (simp add: R_def)
  have ne: "x \<noteq> R" "x' \<noteq> R" "x' \<noteq> x"
    using pendingD(19)[OF pend x] pendingD(19)[OF pend x'] pendingD(6)[OF pend]
    by (simp_all add: R_def)
  have nz: "R \<noteq> HEADER_PAGE_ID" "x \<noteq> HEADER_PAGE_ID" "x' \<noteq> HEADER_PAGE_ID"
    using pos pendingD(18)[OF pend x] pendingD(18)[OF pend x'] by (simp_all add: HEADER_PAGE_ID_def)
  from NewPage_facts[OF pos[unfolded R_def]] obtain t1 where
    np: "NewPage t = (R, t1)" and p1: "\<And>q. page_of t1 q = (if q = R then None else page_of t q)"
    and r1: "\<And>q. is_resident t1 q \<longleftrightarrow> q = R \<or> is_resident t q" and f1: "frame_eq t t1"
    and n1: "pool_next_page_id (bpm t1) = R + 1" by (auto simp: R_def)
  define rp where "rp = (Internal_Init R INVALID_PAGE_ID (internal_max_size t1))
                    \<lparr>node := InternalNode (Internal_PopulateNewRoot x s x')\<rparr>"
  define t2 where "t2 = write_page t1 R rp"
  define t3 where "t3 = write_page t2 x (xtp\<lparr>parent_page_id := R\<rparr>)"
  define t4 where "t4 = write_page t3 x' (xtp'\<lparr>parent_page_id := R\<rparr>)"
  have res: "is_resident t1 R" "is_resident t1 x" "is_resident t1 x'"
    using r1 page_of_resident[OF p(1)] page_of_resident[OF p(2)] by simp_all
  have rd1: "read_page t1 x' = Inr xtp'" using p1[of x'] p(2) ne by simp
  have p2: "page_of t2 q = (if q = R then Some rp else page_of t q)" for q
    using res p1 by (simp add: t2_def)
  have sp3: "SetParentPageId t2 x R = Inr t3"
    using p2[of x] p(1) ne by (simp add: SetParentPageId_def bindE_def t3_def)
  have p3: "page_of t3 q = (if q = x then Some (xtp\<lparr>parent_page_id := R\<rparr>) else page_of t2 q)" for q
    using res by (simp add: t3_def t2_def)
  have sp4: "SetParentPageId t3 x' R = Inr t4"
    using p3[of x'] p2[of x'] p(2) ne by (simp add: SetParentPageId_def bindE_def t4_def)
  have p4: "page_of t4 = (page_of t)(R \<mapsto> rp, x \<mapsto> xtp\<lparr>parent_page_id := R\<rparr>,
                                      x' \<mapsto> xtp'\<lparr>parent_page_id := R\<rparr>)"
    using res p3 p2 by (auto simp: t4_def t3_def t2_def fun_eq_iff)
  have f4: "frame_eq t t4" using f1 nz by (simp add: t4_def t3_def t2_def frame_eq_write)
  have n4: "pool_next_page_id (bpm t4) = R + 1" using n1 by (simp add: t4_def t3_def t2_def)
  have "header_ok (t4\<lparr>root_page_id := R\<rparr>)" using frame_eqD(1)[OF f4] pendingD(1)[OF pend] by simp
  from UpdateRootPageId_view[OF this, of 1] obtain t5 where
    u: "UpdateRootPageId (t4\<lparr>root_page_id := R\<rparr>) 1 = Inr t5"
    and v5: "page_of t5 = page_of t4" "header_ok t5" "root_page_id t5 = R"
      "leaf_max_size t5 = leaf_max_size t" "internal_max_size t5 = internal_max_size t"
      "pool_next_page_id (bpm t5) = R + 1"
    using frame_eqD[OF f4] n4 by auto
  define t' where "t' = UnpinPage t5 R True"
  have run: "InsertIntoParent t x s x' = Some (Inr t')"
    using p(1,3,4) isroot np rd1 sp3[unfolded t2_def rp_def] sp4 u
    by (subst InsertIntoParent.simps) (simp add: bindO_def Let_def t'_def)
  have rpf: "tp_page_id rp = R" "parent_page_id rp = INVALID_PAGE_ID"
    "node rp = InternalNode [(0, x), (s, x')]"
    by (simp_all add: rp_def Internal_Init_def Internal_PopulateNewRoot_def)
  have pg: "page_of t' = (page_of t)(R \<mapsto> rp, x \<mapsto> xtp\<lparr>parent_page_id := R\<rparr>,
                                      x' \<mapsto> xtp'\<lparr>parent_page_id := R\<rparr>)"
    using v5(1) p4 by (simp add: t'_def)
  have v: "root_page_id t' = R" "pool_next_page_id (bpm t') = R + 1" "header_ok t'"
    "leaf_max_size t' = leaf_max_size t" "internal_max_size t' = internal_max_size t"
    using v5 by (simp_all add: t'_def)
  note lr = link_root[OF pend xr p(1,2) R_def rpf pg v(1,2,3,4)]
  show ?thesis using run lr v(4,5) unfolding R_def by blast
qed

lemma InsertIntoParent_restores:
  "pending t g x s x' \<Longrightarrow>
   \<exists>t' g'. InsertIntoParent t x s x' = Some (Inr t') \<and> tree_inv t' g' \<and>
           entries t' g' = entries t g \<and> sizes_ok t' g' {} = sizes_ok t g {} \<and>
           sh_pages g \<subseteq> sh_pages g' \<and>
           leaf_max_size t' = leaf_max_size t \<and> internal_max_size t' = internal_max_size t"
proof (induction "sh_height g (root_page_id t) - sh_height g x" arbitrary: t g x s x'
        rule: less_induct)
  case less
  note pend = less.prems
  show ?case
  proof (cases "x = root_page_id t")
    case True
    from InsertIntoParent_root[OF pend True] show ?thesis
      by (metis root_shape_simps(1) subset_insertI)
  next
    case False
    from pending_pages[OF pend] obtain xtp xtp' where
      p: "page_of t x = Some xtp" "page_of t x' = Some xtp'"
        "tp_page_id xtp = x" "tp_page_id xtp' = x'"
        "parent_page_id xtp' = parent_page_id xtp" by blast
    define P where "P = parent_page_id xtp"
    from pending_parent[OF pend False p(1)] obtain ptp parr where
      P: "P \<in> sh_pages g" and ptp: "page_of t P = Some ptp" and parr: "node ptp = InternalNode parr"
      and xin: "x \<in> snd ` set parr" and Px: "P \<noteq> x" "P \<noteq> x'"
      and hP: "Suc (sh_height g x) = sh_height g P" by (auto simp: P_def)
    have notroot: "\<not> IsRootPage xtp" using pending_not_root[OF pend p(1)] False by simp
    have P0: "P \<noteq> HEADER_PAGE_ID" "x' \<noteq> HEADER_PAGE_ID"
      using pendingD(18)[OF pend P] pendingD(18)[OF pend pendingD(5)[OF pend]]
      by (simp_all add: HEADER_PAGE_ID_def)
    from Fetch_page[OF ptp] obtain t1 where f: "FetchPage t P = Inr t1" and sv: "same_view t t1"
      by blast
    note v1 = same_viewD[OF sv]
    define arr' where "arr' = ins_after x (s, x') parr"
    define ptp' where "ptp' = ptp\<lparr>node := InternalNode arr'\<rparr>"
    define t2 where "t2 = write_page t1 P ptp'"
    define t3 where "t3 = write_page t2 x' (xtp'\<lparr>parent_page_id := P\<rparr>)"
    have ia: "Internal_InsertNodeAfter parr x s x' = arr'"
      using InsertNodeAfter_ins_after[OF xin] by (simp add: arr'_def)
    have res: "is_resident t1 P" "is_resident t1 x'"
      using v1(4) page_of_resident[OF ptp] page_of_resident[OF p(2)] by simp_all
    have rd: "read_page t1 P = Inr ptp" "read_page t1 x' = Inr xtp'"
      using v1(1) ptp p(2) by simp_all
    have sp: "SetParentPageId t2 x' P = Inr t3"
      using res v1(1) p(2) Px by (simp add: SetParentPageId_def bindE_def t3_def t2_def)
    have same': "xtp'\<lparr>parent_page_id := P\<rparr> = xtp'" using p(5) by (simp add: P_def)
    have pg3: "page_of t3 = (page_of t)(P \<mapsto> ptp')"
      using res v1(1) p(2) Px by (auto simp: t3_def t2_def same' fun_eq_iff)
    have f3: "frame_eq t t3" using v1(3) P0 by (simp add: t3_def t2_def frame_eq_write)
    have n3: "pool_next_page_id (bpm t3) = pool_next_page_id (bpm t)"
      using v1(2) by (simp add: t3_def t2_def)
    have h3: "header_ok t3" using frame_eqD(1)[OF f3] pendingD(1)[OF pend] by simp
    note lp = link_parent[OF pend False p(1) ptp[unfolded P_def] parr
        pg3[unfolded ptp'_def arr'_def P_def] frame_eqD(2)[OF f3] n3 h3 frame_eqD(3)[OF f3]]
    have step: "InsertIntoParent t x s x' =
        (if int (length arr') \<ge> internal_max_size t3 then
                 bindO (Some (Split t3 P)) (\<lambda>((new_parent, split_key), t4).
                 bindO (InsertIntoParent t4 P split_key new_parent) (\<lambda>t5.
                 bindO (Some (read_page t5 new_parent)) (\<lambda>new_parent_tp.
                   Some (Inr (UnpinPage (UnpinPage t5 (tp_page_id new_parent_tp) True)
                                P True)))))
               else Some (Inr (UnpinPage t3 P True)))"
      using p(1,3,4) notroot f rd parr ia sp[unfolded t2_def ptp'_def]
      by (subst InsertIntoParent.simps)
         (simp add: bindO_def Let_def P_def[symmetric] as_internal_def)
    show ?thesis
    proof (cases "int (length arr') \<ge> internal_max_size t3")
      case False
      define t' where "t' = UnpinPage t3 P True"
      have run: "InsertIntoParent t x s x' = Some (Inr t')" using step False by (simp add: t'_def)
      have sv': "same_view t3 t'" by (simp add: t'_def)
      have "tree_inv t' g" "entries t' g = entries t g" "sizes_ok t' g {} = sizes_ok t g {}"
        using lp(1,2) lp(3)[of "{}"] same_view_inv[OF sv'] by simp_all
      moreover have "leaf_max_size t' = leaf_max_size t" "internal_max_size t' = internal_max_size t"
        using frame_eqD[OF f3] by (simp_all add: t'_def)
      ultimately show ?thesis using run by blast
    next
      case True
      have p3P: "page_of t3 P = Some ptp'" using pg3 by simp
      have nd3: "node ptp' = InternalNode arr'" by (simp add: ptp'_def)
      have len: "2 \<le> length arr'"
        using ins_after_length[OF xin, of "(s, x')"] xin by (cases parr) (auto simp: arr'_def)
      define N where "N = pool_next_page_id (bpm t3)"
      from Split_internal[OF lp(1) P p3P nd3 len] obtain s2 c keep rest t4 ntp where
        sp4: "Split t3 P = Inr ((N, s2), t4)"
        and arr: "arr' = keep @ (s2, c) # rest" and keep: "keep \<noteq> []"
        and nt: "tp_page_id ntp = N" "parent_page_id ntp = parent_page_id ptp'"
          "node ntp = InternalNode ((0, c) # rest)"
        and pg4: "\<And>q. page_of t4 q =
               (if q = N then Some ntp
                else if q = P then Some (ptp'\<lparr>node := InternalNode keep\<rparr>)
                else if q \<in> snd ` set ((0, c) # rest)
                     then map_option (\<lambda>ctp. ctp\<lparr>parent_page_id := N\<rparr>) (page_of t3 q)
                     else page_of t3 q)"
        and f4: "frame_eq t3 t4" and n4: "pool_next_page_id (bpm t4) = N + 1"
        unfolding N_def by blast
      have h4: "header_ok t4" using frame_eqD(1)[OF f4] h3 by simp
      note sip = split_internal_pending[OF lp(1) P p3P nd3[unfolded arr] keep N_def nt pg4
          frame_eqD(2)[OF f4] n4 h4 frame_eqD(3)[OF f4]]
      let ?g4 = "split_shape g P s2 N"
      have NT: "N \<notin> sh_pages g" using pendingD(19)[OF pend, of N] n3 by (auto simp: N_def)
      have Nr: "root_page_id t \<noteq> N" "P \<noteq> N" using NT pendingD(3)[OF pend] P by auto
      have r4: "root_page_id t4 = root_page_id t" using frame_eqD(2)[OF f4] frame_eqD(2)[OF f3] by simp
      have "sh_height ?g4 (root_page_id t4) - sh_height ?g4 P
              = sh_height g (root_page_id t) - sh_height g P" using Nr r4 by simp
      also have "\<dots> < sh_height g (root_page_id t) - sh_height g x"
        using hP pendingD(20)[OF pend P] by arith
      finally have m: "sh_height ?g4 (root_page_id t4) - sh_height ?g4 P
              < sh_height g (root_page_id t) - sh_height g x" .
      from less.hyps[OF m sip(1)] obtain t5 g5 where
        r5: "InsertIntoParent t4 P s2 N = Some (Inr t5)" "tree_inv t5 g5"
          "entries t5 g5 = entries t4 ?g4" "sizes_ok t5 g5 {} = sizes_ok t4 ?g4 {}"
          "sh_pages ?g4 \<subseteq> sh_pages g5"
          "leaf_max_size t5 = leaf_max_size t4" "internal_max_size t5 = internal_max_size t4"
        by blast
      have "N \<in> sh_pages g5" using r5(5) by auto
      from tree_inv_page[OF r5(2) this] obtain ntp5 where
        n5: "page_of t5 N = Some ntp5" "tp_page_id ntp5 = N" by blast
      define t' where "t' = UnpinPage (UnpinPage t5 N True) P True"
      have run: "InsertIntoParent t x s x' = Some (Inr t')"
        using step True sp4 r5(1) n5 by (simp add: bindO_def t'_def)
      have sv': "same_view t5 t'" by (simp add: t'_def)
      have "tree_inv t' g5" "entries t' g5 = entries t g" "sizes_ok t' g5 {} = sizes_ok t g {}"
        using r5(2,3,4) sip(2) sip(3)[of "{}"] lp(2) lp(3)[of "{}"] same_view_inv[OF sv']
        by simp_all
      moreover have "sh_pages g \<subseteq> sh_pages g5" using r5(5) by auto
      moreover have "leaf_max_size t' = leaf_max_size t" "internal_max_size t' = internal_max_size t"
        using r5(6,7) frame_eqD[OF f4] frame_eqD[OF f3] by (simp_all add: t'_def)
      ultimately show ?thesis using run by blast
    qed
  qed
qed

subsection \<open>Inserting into a leaf\<close>

lemma leaf_insert_inv:
  assumes inv: "tree_inv t g" and L: "L \<in> sh_pages g"
    and tp: "page_of t L = Some tp" and nd: "node tp = LeafNode arr nxt"
    and rng: "in_range (sh_lo g L) (sh_hi g L) key"
    and srt: "sorted_wrt (<) (map fst arr')" and st: "set arr' = insert (key, v) (set arr)"
    and pg: "page_of t' = (page_of t)(L \<mapsto> tp\<lparr>node := LeafNode arr' nxt\<rparr>)"
    and fr: "frame_eq t t'"
    and nx: "pool_next_page_id (bpm t') = pool_next_page_id (bpm t)"
  shows "tree_inv t' g" and "entries t' g = insert (key, v) (entries t g)"
    and "sizes_ok t g {} \<Longrightarrow> sizes_ok t' g {L}"
proof -
  note okL = node_ok_leafD[OF tree_invD(10)[OF inv L] tp nd]
  note f = frame_eqD[OF fr]
  have same: "page_of t' p = page_of t p" if "p \<noteq> L" for p using pg that by simp
  have pL: "page_of t' L = Some (tp\<lparr>node := LeafNode arr' nxt\<rparr>)" using pg by simp
  have kp: "keeps_parent t t' c" for c
    using pg tp by (cases "c = L") (auto simp: keeps_parent_def)
  have okL': "node_ok t' g L"
  proof -
    have "in_range (sh_lo g L) (sh_hi g L) k" if "(k, w) \<in> set arr'" for k w
      using that st okL(3) rng by auto
    then show ?thesis using pL okL(1,4,5) srt f(3) by (auto simp: node_ok_def)
  qed
  have ok: "node_ok t' g p" if p: "p \<in> sh_pages g" for p
  proof (cases "p = L")
    case True
    then show ?thesis using okL' by simp
  next
    case False
    show ?thesis
    proof (rule node_ok_frame[OF tree_invD(10)[OF inv p] same_node_same[OF same[OF False]] f(3)])
      show "same_shape_at g g p" by (simp add: same_shape_at_def)
      show "sh_pages g \<subseteq> sh_pages g" by simp
      fix ptp parr c
      show "same_shape_at g g c \<and> keeps_parent t t' c" using kp by (simp add: same_shape_at_def)
    qed
  qed
  have lst: "listed t' g p" if p: "p \<in> sh_pages g" "p \<noteq> root_page_id t" for p
  proof -
    from tree_invD(11)[OF inv p] obtain q qtp qarr where
      q: "q \<in> sh_pages g" "page_of t q = Some qtp" "node qtp = InternalNode qarr"
        "p \<in> snd ` set qarr" by (auto simp: listed_def)
    have "q \<noteq> L" using q tp nd by auto
    from same[OF this] q(2) have "page_of t' q = Some qtp" by simp
    from listedI[OF q(1) this q(3,4)] show ?thesis .
  qed
  have rootpg: "\<exists>rtp. page_of t' (root_page_id t) = Some rtp \<and> parent_page_id rtp = INVALID_PAGE_ID"
    using tree_invD(6)[OF inv] kp[of "root_page_id t"] by (auto simp: keeps_parent_def)
  show "tree_inv t' g"
    unfolding tree_inv_def f nx
  proof (intro conjI ballI impI)
    fix p assume p: "p \<in> sh_pages g"
    show "0 < p" using tree_invD(7)[OF inv p] .
    show "p < pool_next_page_id (bpm t)" using tree_invD(8)[OF inv p] .
    show "sh_height g p \<le> sh_height g (root_page_id t)" using tree_invD(9)[OF inv p] .
    show "node_ok t' g p" using ok[OF p] .
    show "listed t' g p" if "p \<noteq> root_page_id t" using lst[OF p that] .
  qed (use tree_invD(1,2,3,4,5)[OF inv] rootpg in simp_all)
  have leafs: "leaf_at t' p = leaf_at t p" if "p \<noteq> L" for p
    using same[OF that] by (simp add: leaf_at_def)
  have lL: "leaf_at t L = Some arr" "leaf_at t' L = Some arr'"
    using tp nd pL by (simp_all add: leaf_at_def)
  show "entries t' g = insert (key, v) (entries t g)"
  proof (intro equalityI subrelI)
    fix k w assume "(k, w) \<in> entries t' g"
    then obtain p a where p: "p \<in> sh_pages g" "leaf_at t' p = Some a" "(k, w) \<in> set a"
      by (auto simp: entries_def)
    show "(k, w) \<in> insert (key, v) (entries t g)"
    proof (cases "p = L")
      case True
      then have "(k, w) = (key, v) \<or> (k, w) \<in> set arr" using p lL st by auto
      then show ?thesis using L lL(1) unfolding entries_def by blast
    next
      case False
      then have "leaf_at t p = Some a" using p leafs[of p] by simp
      then show ?thesis using p(1,3) unfolding entries_def by blast
    qed
  next
    fix k w assume "(k, w) \<in> insert (key, v) (entries t g)"
    then consider "(k, w) = (key, v)" | "(k, w) \<in> entries t g" by blast
    then show "(k, w) \<in> entries t' g"
    proof cases
      case 1
      then have "(k, w) \<in> set arr'" using st by simp
      then show ?thesis using L lL(2) unfolding entries_def by blast
    next
      case 2
      then obtain p a where p: "p \<in> sh_pages g" "leaf_at t p = Some a" "(k, w) \<in> set a"
        by (auto simp: entries_def)
      show ?thesis
      proof (cases "p = L")
        case True
        then have "(k, w) \<in> set arr'" using p lL st by auto
        then show ?thesis using L lL(2) unfolding entries_def by blast
      next
        case False
        then have "leaf_at t' p = Some a" using p leafs[of p] by simp
        then show ?thesis using p(1,3) unfolding entries_def by blast
      qed
    qed
  qed
  show "sizes_ok t' g {L}" if "sizes_ok t g {}"
    using that leafs unfolding sizes_ok_def f by auto
qed

lemma holds_map_insert:
  assumes "holds_map t g M" and "M key = None" and "entries t' g' = insert (key, v) (entries t g)"
  shows "holds_map t' g' (M(key \<mapsto> v))"
  using assms unfolding holds_map_def by (auto split: if_splits)

lemma Insert_nonempty:
  assumes inv: "tree_inv t g" and hm: "holds_map t g M" and so: "sizes_ok t g {}"
  shows "\<exists>t' g'. Insert t key v = Some (Inr (M key = None, t')) \<and> tree_inv t' g' \<and>
           holds_map t' g' (if M key = None then M(key \<mapsto> v) else M) \<and> sizes_ok t' g' {} \<and>
           leaf_max_size t' = leaf_max_size t \<and> internal_max_size t' = internal_max_size t"
proof -
  from FindLeafPage_reaches[OF inv, of key] obtain L t1 tp arr nxt where
    r: "FindLeafPage t key = Some (Inr (Some L, t1))" "same_view t t1"
      "L \<in> sh_pages g" "in_range (sh_lo g L) (sh_hi g L) key"
      "page_of t L = Some tp" "node tp = LeafNode arr nxt" by blast
  note v1 = same_viewD[OF r(2)]
  note ne = tree_inv_nonempty[OF inv]
  have rd: "read_page t1 L = Inr tp" using r(5) v1(1) by simp
  have al: "as_leaf tp = Inr (arr, nxt)" using r(6) by (simp add: as_leaf_def)
  have look: "map_of arr key = M key" using leaf_lookup[OF inv hm r(3,4,5,6)] .
  note okL = node_ok_leafD[OF tree_invD(10)[OF inv r(3)] r(5,6)]
  show ?thesis
  proof (cases "M key")
    case (Some w)
    define t' where "t' = UnpinPage t1 L False"
    have "Insert t key v = Some (Inr (False, t'))"
      using ne r(1) rd al look Some
      by (simp add: Insert_def InsertIntoLeaf_def bindO_def t'_def)
    moreover have sv: "same_view t t'" using r(2) by (simp add: t'_def)
    moreover have "leaf_max_size t' = leaf_max_size t" "internal_max_size t' = internal_max_size t"
      using frame_eqD[OF v1(3)] by (simp_all add: t'_def)
    ultimately show ?thesis using Some inv hm so same_view_inv[OF sv]
      by (auto simp: holds_map_def)
  next
    case None
    have absent: "key \<notin> fst ` set arr" using look None by (simp add: map_of_eq_None_iff)
    have "leaf_at t L = Some arr" using r(5,6) by (simp add: leaf_at_def)
    then have room: "int (length arr) < max_size tp"
      using so r(3) okL(4) by (auto simp: sizes_ok_def)
    from Leaf_Insert_absent[OF okL(2) absent r(6) room, of v] obtain arr' where
      li: "Leaf_Insert tp key v = Inr (True, tp\<lparr>node := LeafNode arr' nxt\<rparr>)"
      and srt: "sorted_wrt (<) (map fst arr')" and st: "set arr' = insert (key, v) (set arr)"
      and len: "length arr' = Suc (length arr)" by blast
    define tp' where "tp' = tp\<lparr>node := LeafNode arr' nxt\<rparr>"
    define t2 where "t2 = write_page t1 L tp'"
    have L0: "L \<noteq> HEADER_PAGE_ID" using tree_invD(7)[OF inv r(3)] by (simp add: HEADER_PAGE_ID_def)
    have resL: "is_resident t1 L" using v1(4) page_of_resident[OF r(5)] by simp
    have pg2: "page_of t2 = (page_of t)(L \<mapsto> tp\<lparr>node := LeafNode arr' nxt\<rparr>)"
      using resL v1(1) by (auto simp: t2_def tp'_def fun_eq_iff)
    have f2: "frame_eq t t2" using v1(3) L0 by (simp add: t2_def frame_eq_write)
    have n2: "pool_next_page_id (bpm t2) = pool_next_page_id (bpm t)" using v1(2) by (simp add: t2_def)
    note li2 = leaf_insert_inv[OF inv r(3,5,6,4) srt st pg2 f2 n2]
    have gs: "GetSize tp' = int (length arr')" by (simp add: GetSize_def tp'_def)
    have step: "Insert t key v =
        (if GetSize tp' \<ge> leaf_max_size t2 then
                        bindO (Some (Split t2 L)) (\<lambda>((new_leaf, split_key), t3).
                        bindO (InsertIntoParent t3 L split_key new_leaf) (\<lambda>t4.
                        bindO (Some (read_page t4 new_leaf)) (\<lambda>new_leaf_tp.
                          Some (Inr (True, UnpinPage (UnpinPage t4 (tp_page_id new_leaf_tp) True)
                                             L True)))))
                      else Some (Inr (True, UnpinPage t2 L True)))"
      using ne r(1) rd al look None li
      by (simp add: Insert_def InsertIntoLeaf_def bindO_def Let_def tp'_def t2_def)
    have hm2: "holds_map t2 g (M(key \<mapsto> v))" using holds_map_insert[OF hm None li2(2)] .
    show ?thesis
    proof (cases "GetSize tp' \<ge> leaf_max_size t2")
      case False
      define t' where "t' = UnpinPage t2 L True"
      have run: "Insert t key v = Some (Inr (True, t'))" using step False by (simp add: t'_def)
      have sv: "same_view t2 t'" by (simp add: t'_def)
      have "leaf_at t2 L = Some arr'" using pg2 by (simp add: leaf_at_def)
      then have "sizes_ok t2 g {}"
        using li2(3)[OF so] False gs unfolding sizes_ok_def by auto
      then have "tree_inv t' g" "holds_map t' g (M(key \<mapsto> v))" "sizes_ok t' g {}"
        using li2(1) hm2 same_view_inv[OF sv] by (simp_all add: holds_map_def)
      moreover have "leaf_max_size t' = leaf_max_size t" "internal_max_size t' = internal_max_size t"
        using frame_eqD[OF f2] by (simp_all add: t'_def)
      ultimately show ?thesis using run None by auto
    next
      case True
      have lm: "leaf_max_size t2 = leaf_max_size t" using frame_eqD(3)[OF f2] .
      have le: "int (length arr') \<le> leaf_max_size t2"
        using room okL(4) len lm by simp
      have len2: "2 \<le> length arr'" using True gs tree_invD(2)[OF inv] lm by simp
      have p2L: "page_of t2 L = Some tp'" using pg2 by (simp add: tp'_def)
      have nd2: "node tp' = LeafNode arr' nxt" by (simp add: tp'_def)
      define N where "N = pool_next_page_id (bpm t2)"
      from Split_leaf[OF li2(1) r(3) p2L nd2 len2] obtain s w keep rest t3 ntp where
        sp: "Split t2 L = Inr ((N, s), t3)"
        and arr: "arr' = keep @ (s, w) # rest" and keep: "keep \<noteq> []"
        and nt: "tp_page_id ntp = N" "parent_page_id ntp = parent_page_id tp'"
          "max_size ntp = leaf_max_size t2" "node ntp = LeafNode ((s, w) # rest) nxt"
        and pg3: "page_of t3 = (page_of t2)(N \<mapsto> ntp, L \<mapsto> tp'\<lparr>node := LeafNode keep N\<rparr>)"
        and f3: "frame_eq t2 t3" and n3: "pool_next_page_id (bpm t3) = N + 1"
        unfolding N_def by blast
      have h3: "header_ok t3" using frame_eqD(1)[OF f3] tree_invD(1)[OF li2(1)] by simp
      note slp = split_leaf_pending[OF li2(1) r(3) p2L nd2[unfolded arr] keep N_def nt pg3
          frame_eqD(2)[OF f3] n3 h3 frame_eqD(3)[OF f3]]
      have so3: "sizes_ok t3 (split_shape g L s N) {}"
        using slp(3)[OF li2(3)[OF so]] le arr by simp
      from InsertIntoParent_restores[OF slp(1)] obtain t4 g4 where
        r4: "InsertIntoParent t3 L s N = Some (Inr t4)" "tree_inv t4 g4"
          "entries t4 g4 = entries t3 (split_shape g L s N)"
          "sizes_ok t4 g4 {} = sizes_ok t3 (split_shape g L s N) {}"
          "sh_pages (split_shape g L s N) \<subseteq> sh_pages g4"
          "leaf_max_size t4 = leaf_max_size t3" "internal_max_size t4 = internal_max_size t3"
        by blast
      have "N \<in> sh_pages g4" using r4(5) by auto
      from tree_inv_page[OF r4(2) this] obtain ntp4 where
        n4: "page_of t4 N = Some ntp4" "tp_page_id ntp4 = N" by blast
      define t' where "t' = UnpinPage (UnpinPage t4 N True) L True"
      have run: "Insert t key v = Some (Inr (True, t'))"
        using step True sp r4(1) n4 by (simp add: bindO_def t'_def)
      have sv: "same_view t4 t'" by (simp add: t'_def)
      have "entries t4 g4 = insert (key, v) (entries t g)" using r4(3) slp(2) li2(2) by simp
      from holds_map_insert[OF hm None this]
      have "tree_inv t' g4" "holds_map t' g4 (M(key \<mapsto> v))" "sizes_ok t' g4 {}"
        using r4(2,4) so3 same_view_inv[OF sv] by (simp_all add: holds_map_def)
      moreover have "leaf_max_size t' = leaf_max_size t" "internal_max_size t' = internal_max_size t"
        using r4(6,7) frame_eqD[OF f3] frame_eqD[OF f2] by (simp_all add: t'_def)
      ultimately show ?thesis using run None by auto
    qed
  qed
qed

subsection \<open>The first insert\<close>

definition leaf_shape :: "page_id_t \<Rightarrow> tree_shape" where
  "leaf_shape r = \<lparr>sh_pages = {r}, sh_height = (\<lambda>p. 0), sh_lo = (\<lambda>p. None), sh_hi = (\<lambda>p. None)\<rparr>"

lemma Insert_empty:
  assumes emp: "IsEmpty t" and hd: "header_ok t" and lm: "2 \<le> leaf_max_size t"
    and pos: "0 < pool_next_page_id (bpm t)"
  shows "\<exists>t' g'. Insert t key v = Some (Inr (True, t')) \<and> tree_inv t' g' \<and>
           holds_map t' g' [key \<mapsto> v] \<and> sizes_ok t' g' {} \<and>
           leaf_max_size t' = leaf_max_size t \<and> internal_max_size t' = internal_max_size t"
proof -
  define N where "N = pool_next_page_id (bpm t)"
  have N0: "N \<noteq> HEADER_PAGE_ID" using pos by (simp add: N_def HEADER_PAGE_ID_def)
  from NewPage_facts[OF pos] obtain t1 where
    np: "NewPage t = (N, t1)" and p1: "\<And>q. page_of t1 q = (if q = N then None else page_of t q)"
    and r1: "\<And>q. is_resident t1 q \<longleftrightarrow> q = N \<or> is_resident t q" and f1: "frame_eq t t1"
    and n1: "pool_next_page_id (bpm t1) = N + 1" by (auto simp: N_def)
  note f = frame_eqD[OF f1]
  define init where "init = Leaf_Init N INVALID_PAGE_ID (leaf_max_size t1)"
  have ini: "node init = LeafNode [] INVALID_PAGE_ID" "max_size init = leaf_max_size t"
    "tp_page_id init = N" "parent_page_id init = INVALID_PAGE_ID"
    using f(3) by (simp_all add: init_def Leaf_Init_def)
  have "int (length ([] :: (KeyType \<times> RID) list)) < max_size init" using ini lm by simp
  from Leaf_Insert_absent[OF _ _ ini(1) this, of key v] obtain arr' where
    li: "Leaf_Insert init key v = Inr (True, init\<lparr>node := LeafNode arr' INVALID_PAGE_ID\<rparr>)"
    and srt: "sorted_wrt (<) (map fst arr')" and st: "set arr' = {(key, v)}"
    and len: "length arr' = 1" by auto
  define rootp where "rootp = init\<lparr>node := LeafNode arr' INVALID_PAGE_ID\<rparr>"
  define t2 where "t2 = (write_page t1 N rootp)\<lparr>root_page_id := N\<rparr>"
  have p2: "page_of t2 = (page_of t)(N \<mapsto> rootp)"
    using r1 p1 by (auto simp: t2_def fun_eq_iff)
  have h2: "header_ok t2" using f(1) hd N0 by (simp add: t2_def)
  from UpdateRootPageId_view[OF h2, of 1] obtain t3 where
    u: "UpdateRootPageId t2 1 = Inr t3"
    and v3: "page_of t3 = page_of t2" "header_ok t3" "root_page_id t3 = N"
      "leaf_max_size t3 = leaf_max_size t" "internal_max_size t3 = internal_max_size t"
      "pool_next_page_id (bpm t3) = N + 1"
    using f n1 by (auto simp: t2_def)
  define t' where "t' = UnpinPage t3 N True"
  have run: "Insert t key v = Some (Inr (True, t'))"
    using emp np li u
    by (simp add: Insert_def StartNewTree_def bindE_def Let_def init_def[symmetric]
        rootp_def[symmetric] t2_def[symmetric] t'_def)
  have pg: "page_of t' = (page_of t)(N \<mapsto> rootp)" using v3(1) p2 by (simp add: t'_def)
  have v: "header_ok t'" "root_page_id t' = N" "leaf_max_size t' = leaf_max_size t"
    "internal_max_size t' = internal_max_size t" "pool_next_page_id (bpm t') = N + 1"
    using v3 by (simp_all add: t'_def)
  have rp: "node rootp = LeafNode arr' INVALID_PAGE_ID" "max_size rootp = leaf_max_size t"
    "tp_page_id rootp = N" "parent_page_id rootp = INVALID_PAGE_ID"
    using ini by (simp_all add: rootp_def)
  have ok: "node_ok t' (leaf_shape N) N"
    using pg rp srt v(3) by (simp add: node_ok_def leaf_shape_def)
  have inv: "tree_inv t' (leaf_shape N)"
    unfolding tree_inv_def v using ok pg rp lm pos v(1)
    by (simp add: leaf_shape_def N_def)
  have la: "leaf_at t' N = Some arr'" using pg rp by (simp add: leaf_at_def)
  have "entries t' (leaf_shape N) = {(key, v)}"
    using la st by (auto simp: entries_def leaf_shape_def)
  moreover have "{(k, w). [key \<mapsto> v] k = Some w} = {(key, v)}"
    by (rule set_eqI) (simp split: prod.splits if_splits add: eq_commute)
  ultimately have hm: "holds_map t' (leaf_shape N) [key \<mapsto> v]"
    unfolding holds_map_def by (rule trans[OF _ sym])
  have so: "sizes_ok t' (leaf_shape N) {}"
    using la len lm v(3) by (simp add: sizes_ok_def leaf_shape_def)
  show ?thesis using run inv hm so v(3,4) by blast
qed

subsection \<open>Every insert keeps the tree a search tree that holds what was inserted\<close>

text \<open>
  The tree is empty and holds nothing, or it is a search tree whose leaves hold exactly
  the pairs of \<open>M\<close> and all have room for one more entry.
\<close>

definition tree_ok :: "BPlusTree \<Rightarrow> (KeyType \<rightharpoonup> RID) \<Rightarrow> bool" where
  "tree_ok t M \<longleftrightarrow>
     (IsEmpty t \<and> M = Map.empty \<and> header_ok t \<and> 2 \<le> leaf_max_size t \<and>
      0 < pool_next_page_id (bpm t)) \<or>
     (\<exists>g. tree_inv t g \<and> holds_map t g M \<and> sizes_ok t g {})"

lemma tree_ok_cases:
  assumes "tree_ok t M"
  obtains (empty) "IsEmpty t" "M = Map.empty" "header_ok t" "2 \<le> leaf_max_size t"
      "0 < pool_next_page_id (bpm t)"
    | (tree) g where "tree_inv t g" "holds_map t g M" "sizes_ok t g {}"
  using assms unfolding tree_ok_def by blast

lemma tree_okI:
  "tree_inv t g \<Longrightarrow> holds_map t g M \<Longrightarrow> sizes_ok t g {} \<Longrightarrow> tree_ok t M"
  unfolding tree_ok_def by blast

lemma Insert_ok:
  assumes "tree_ok t M"
  shows "\<exists>t'. Insert t key v = Some (Inr (M key = None, t')) \<and>
           tree_ok t' (if M key = None then M(key \<mapsto> v) else M)"
  using assms
proof (cases rule: tree_ok_cases)
  case empty
  from Insert_empty[OF empty(1,3,4,5), of key v] obtain t' g' where
    r: "Insert t key v = Some (Inr (True, t'))" "tree_inv t' g'" "holds_map t' g' [key \<mapsto> v]"
      "sizes_ok t' g' {}" by blast
  have "tree_ok t' [key \<mapsto> v]" using r(2,3,4) by (rule tree_okI)
  then show ?thesis using r(1) empty(2) by simp
next
  case (tree g)
  from Insert_nonempty[OF tree, of key v] obtain t' g' where
    r: "Insert t key v = Some (Inr (M key = None, t'))" "tree_inv t' g'"
      "holds_map t' g' (if M key = None then M(key \<mapsto> v) else M)" "sizes_ok t' g' {}" by blast
  have "tree_ok t' (if M key = None then M(key \<mapsto> v) else M)" using r(2,3,4) by (rule tree_okI)
  then show ?thesis using r(1) by blast
qed

lemma GetValue_ok:
  assumes "tree_ok t M"
  shows "\<exists>t'. GetValue t key = Some (Inr (M key, t'))"
  using assms
proof (cases rule: tree_ok_cases)
  case empty
  then show ?thesis by (simp add: GetValue_def)
next
  case (tree g)
  from GetValue_correct[OF tree(1,2), of key] show ?thesis by blast
qed

lemma insert_keys_ok:
  "tree_ok t M \<Longrightarrow> \<exists>t'. insert_keys t kvs = Some (Inr t') \<and> tree_ok t' (map_of kvs ++ M)"
proof (induction kvs arbitrary: t M)
  case Nil
  then show ?case by simp
next
  case (Cons kv kvs)
  obtain k v where kv: "kv = (k, v)" by (cases kv)
  define M' where "M' = (if M k = None then M(k \<mapsto> v) else M)"
  from Insert_ok[OF Cons.prems, of k v] obtain t1 where
    i: "Insert t k v = Some (Inr (M k = None, t1))" and ok: "tree_ok t1 M'"
    unfolding M'_def by blast
  from Cons.IH[OF ok] obtain t' where
    r: "insert_keys t1 kvs = Some (Inr t')" "tree_ok t' (map_of kvs ++ M')" by blast
  have eq: "map_of kvs ++ M' = map_of (kv # kvs) ++ M"
    by (auto simp: M'_def kv fun_eq_iff map_add_def split: option.splits)
  have run: "insert_keys t (kv # kvs) = Some (Inr t')" using i r(1) by (simp add: kv bindO_def)
  have "tree_ok t' (map_of (kv # kvs) ++ M)" using r(2) unfolding eq .
  then show ?case using run by blast
qed

lemma new_tree_ok:
  "2 \<le> leaf_max \<Longrightarrow> tree_ok (new_BPlusTree name pool_with_header leaf_max internal_max) Map.empty"
  by (simp add: tree_ok_def new_BPlusTree_def pool_with_header_def IsEmpty_def header_ok_def)

subsection \<open>Lookup after a sequence of inserts\<close>

text \<open>
  On a tree that was created empty with a leaf maximum size of at least 2, a lookup after
  any sequence of inserts returns the value of the first pair with that key, and nothing
  for a key that was not inserted.  No insert and no lookup fails or runs forever.
\<close>

lemma get_value_after_inserts:
  assumes "2 \<le> leaf_max"
  shows "get_value_after (new_BPlusTree name pool_with_header leaf_max internal_max) kvs key
           = Some (Inr (map_of kvs key))"
proof -
  from insert_keys_ok[OF new_tree_ok[OF assms], of name internal_max kvs] obtain t where
    t: "insert_keys (new_BPlusTree name pool_with_header leaf_max internal_max) kvs = Some (Inr t)"
    and ok: "tree_ok t (map_of kvs ++ Map.empty)" by blast
  from GetValue_ok[OF ok, of key] obtain t' where
    "GetValue t key = Some (Inr ((map_of kvs ++ Map.empty) key, t'))" by blast
  then show ?thesis using t by (simp add: get_value_after_def bindO_def)
qed



lemma leaf_max_1_second_insert:
  "bindO (Insert (new_BPlusTree ''index'' pool_with_header 1 3) 1 (RID 0 1))
     (\<lambda>(ok, t). bindO (Insert t 2 (RID 0 2)) (\<lambda>(ok', t'). Some (Inr (ok, ok'))))
   = Some (Inr (True, False))"
  by code_simp


subsection \<open>Inserting a key that is present\<close>

text \<open>
  On a tree built by inserts, \<open>Insert\<close> of a key that the tree holds returns false and
  the state after it is the state before it: every page with its entries, its parent
  pointer, its pin count and its dirty flag, the root page id and the pool's counters.
  Pin counts are assumed to be non-negative, as they are in every state the pool produces.
\<close>

lemma Insert_duplicate_after_inserts:
  assumes ok: "tree_ok t M" and present: "M key = Some v" and nn: "pins_nonneg t"
  shows "Insert t key value = Some (Inr (False, t))"
proof -
  from GetValue_ok[OF ok, of key] present obtain t' where
    "GetValue t key = Some (Inr (Some v, t'))" by auto
  from Insert_duplicate(1)[OF this nn] show ?thesis .
qed

lemma tree_after_E_facts:
  "GetValue tree_after_E 5 = Some (Inr (Some (RID 0 5), tree_after_E))"
  "pins_nonneg tree_after_E"
  by code_simp+

lemma duplicate_insert_in_scenario_E:
  "Insert tree_after_E 5 (RID 7 7) = Some (Inr (False, tree_after_E))"
  using Insert_duplicate(1)[OF tree_after_E_facts] .


text \<open>
  Claim C2 (after scenario F the tree is a single leaf root holding key 10, and every
  other page has been passed to \<open>DeletePage\<close>) fails on the code.  Removing key 8
  empties leaf 29, which has no left sibling, so it is merged with its right sibling 37:
  \<open>Coalesce\<close> is called with index \<open>node_index - 1 = -1\<close>, \<open>RemoveAt(-1)\<close> does
  nothing, and the parent 38 keeps its entry \<open>(9, 37)\<close> for the page that is then
  deleted.  Removing key 9 descends through that entry and fetches the deleted page 37.
  Before that, the leaves emptied by the removals of keys 1 to 7 stay in the tree (their
  parents have one child, so \<open>FindSibling\<close> finds no sibling), the root is still the
  internal page 45, and page 37 is the only page ever passed to \<open>DeletePage\<close>.
\<close>

theorem scenario_F_fetches_deleted_page: "scenario_F = Some (Inl (PageNotResident 37))"
  unfolding scenario_F_def scenario_E_result bindO_Some_Inr by (rule remove_1_to_9)

lemma scenario_E_lookups:
  "map (\<lambda>k. map_option (map_sum id fst) (GetValue tree_after_E k)) [1, 2, 3, 4, 5, 6, 7, 8, 9, 10, 11] =
   [Some (Inr (Some (RID 0 1))), Some (Inr (Some (RID 0 2))),
    Some (Inr (Some (RID 0 3))), Some (Inr (Some (RID 0 4))),
    Some (Inr (Some (RID 0 5))), Some (Inr (Some (RID 0 6))),
    Some (Inr (Some (RID 0 7))), Some (Inr (Some (RID 0 8))),
    Some (Inr (Some (RID 0 9))), Some (Inr (Some (RID 0 10))),
    Some (Inr None)]"
  by code_simp

end
